(* ===== verification/Prelude.thy ===== *)
theory Prelude
  imports Main "HOL-Library.Word"
begin

text \<open>
  Shared vocabulary of the development: names for the machine integer types of the C++ code
  (LP64 Linux), generic lemmas on lists and on binary logarithms, and the interface of a
  transition system with an invariant, which the concurrent components interpret.
\<close>

type_synonym u64 = "64 word"
type_synonym u32 = "32 word"

named_theorems fix_simps "rewrite rules for FIX strings and their fields"
named_theorems dbl_simps "rewrite rules for arithmetic on whole-number doubles"

section \<open>Lists\<close>

lemma takeWhile_append_stop [simp]:
  assumes "\<forall>x\<in>set xs. P x" and "\<not> P y"
  shows "takeWhile P (xs @ y # ys) = xs"
  using assms by (induction xs) auto

lemma takeWhile_all [simp]: "\<forall>x\<in>set xs. P x \<Longrightarrow> takeWhile P xs = xs"
  by (induction xs) auto

lemma take_append_le: "n \<le> length xs \<Longrightarrow> take n (xs @ ys) = take n xs"
  by simp

lemma take_Suc_append: "take (Suc (length xs) + m) (xs @ y # ys) = xs @ y # take m ys"
  by simp

lemma sum_list_update_nat:
  fixes xs :: "nat list"
  assumes "i < length xs"
  shows "sum_list (xs[i := v]) + xs ! i = sum_list xs + v"
  using assms
proof (induction xs arbitrary: i)
  case (Cons x xs)
  then show ?case by (cases i) auto
qed simp

lemma sum_list_map_update:
  fixes f :: "'a \<Rightarrow> 'b::comm_monoid_add"
  assumes "i < length xs"
  shows "sum_list (map f (xs[i := v])) + f (xs ! i) = sum_list (map f xs) + f v"
  using assms
proof (induction xs arbitrary: i)
  case (Cons x xs)
  then show ?case by (cases i) (auto simp: ac_simps)
qed simp

lemma in_set_update:
  assumes "x \<in> set (xs[i := v])"
  shows "x = v \<or> x \<in> set xs"
  using assms set_update_subset_insert [of xs i v] by auto

lemma sum_upd_int:
  fixes f :: "'b \<Rightarrow> int"
  assumes "i < length xs"
  shows "sum_list (map f (xs[i := v])) = sum_list (map f xs) - f (xs ! i) + f v"
  using sum_list_map_update [OF assms, of f v] by linarith

lemma mem_upd_self: "i < length xs \<Longrightarrow> v \<in> set (xs[i := v])"
  by (rule set_update_memI)

lemma mem_upd_other:
  assumes "i < length xs" and "xs ! i \<noteq> x" and "v \<noteq> x"
  shows "x \<in> set (xs[i := v]) \<longleftrightarrow> x \<in> set xs"
proof
  assume "x \<in> set xs"
  then obtain k where "k < length xs" "xs ! k = x" by (auto simp: in_set_conv_nth)
  with assms show "x \<in> set (xs[i := v])" by (metis length_list_update nth_list_update_neq nth_mem)
qed (use in_set_update [of x xs i v] assms(3) in auto)

lemmas mem_upd = mem_upd_other mem_upd_self

lemma ex_upd:
  assumes "\<exists>w \<in> set (xs[i := v]). P w"
  shows "P v \<or> (\<exists>w \<in> set xs. P w)"
  using assms in_set_update by fast

lemma add_mod_cancel:
  fixes x a b n :: nat
  assumes "(x + a) mod n = (x + b) mod n" and "a < n" and "b < n"
  shows "a = b"
proof -
  have "b' = a'" if eq: "(x + a') mod n = (x + b') mod n" and le: "b' \<le> a'" and "a' < n" for a' b' :: nat
  proof -
    obtain q where "x + a' = x + b' + n * q"
      using mod_eq_nat1E [OF eq] le by auto
    then show ?thesis using \<open>a' < n\<close> by (cases q) auto
  qed
  from this [of a b] this [of b a] assms show ?thesis by (metis nle_le)
qed

lemma window_inj:
  fixes p q C :: nat
  assumes "p mod C = q mod C" and "p < q + C" and "q < p + C"
  shows "p = q"
proof -
  have "q' = p'" if eq: "p' mod C = q' mod C" and le: "q' \<le> p'" and lt: "p' < q' + C" for p' q' :: nat
  proof -
    obtain k where "p' = q' + C * k"
      using mod_eq_nat1E [OF eq le] by auto
    with lt show ?thesis by (cases k) auto
  qed
  from this [of p q] this [of q p] assms show ?thesis by (metis nle_le)
qed

section \<open>Machine words\<close>

unbundle bit_operations_syntax

lemma unat_of_nat_u64: "n < 2 ^ 64 \<Longrightarrow> unat (of_nat n :: u64) = n"
  by (simp add: unat_of_nat take_bit_nat_eq_self)

lemma of_nat_u64_less:
  "m < 2 ^ 64 \<Longrightarrow> n < 2 ^ 64 \<Longrightarrow> (of_nat m :: u64) < of_nat n \<longleftrightarrow> m < n"
  by (simp only: word_less_nat_alt unat_of_nat_u64)

lemma ucast_u64_u32 [simp]: "ucast (ucast (q :: u32) :: u64) = q"
  by (rule ucast_up_ucast_id) (simp add: is_up)

lemma ucast_of_nat_u32: "ucast (of_nat n :: u64) = (of_nat n :: u32)"
  by (simp only: unsigned_of_nat word_unat_eq_iff unat_of_nat take_bit_take_bit) simp

lemma sint_small:
  fixes w :: u64
  assumes "unat w < 2 ^ 63"
  shows "sint w = int (unat w)"
proof -
  have "int (unat w) < int (2 ^ 63)" using assms by (simp only: of_nat_less_iff)
  then have lt: "uint w < 2 ^ 63" by simp
  then have "\<not> bit (uint w) 63"
    by (simp add: bit_iff_odd)
  then have "sint w = take_bit 63 (uint w)"
    by (simp add: sint_uint signed_take_bit_eq_if_positive)
  also have "\<dots> = uint w" using lt by (simp add: take_bit_int_eq_self)
  finally show ?thesis by simp
qed

lemma unat_and_mask: "unat (w AND (2 ^ k - 1) :: u64) = unat w mod 2 ^ k"
proof -
  have "w AND (2 ^ k - 1) = take_bit k w"
    by (simp add: take_bit_eq_mask mask_eq_exp_minus_1)
  then show ?thesis
    by (simp add: unsigned_take_bit_eq) (simp add: take_bit_eq_mod)
qed

lemma unat_plus_small: "unat a + unat b < 2 ^ 64 \<Longrightarrow> unat (a + b :: u64) = unat a + unat b"
  by (simp add: unat_word_ariths)

lemma unat_succ: "unat w + 1 < 2 ^ 64 \<Longrightarrow> unat (w + 1 :: u64) = unat w + 1"
  using unat_plus_small [of w 1] by simp

lemma unat_pow2:
  assumes "k < 64"
  shows "unat (2 ^ k :: u64) = 2 ^ k"
proof -
  have "(2 :: nat) ^ k < 2 ^ 64" using assms by (intro power_strict_increasing) auto
  from unat_of_nat_u64 [OF this] show ?thesis by simp
qed

section \<open>Bit length\<close>

text \<open>The number of binary digits of a natural number.\<close>

fun bitlen :: "nat \<Rightarrow> nat" where
  "bitlen n = (if n = 0 then 0 else Suc (bitlen (n div 2)))"

declare bitlen.simps [simp del]

lemma bitlen_0 [simp]: "bitlen 0 = 0"
  by (simp add: bitlen.simps)

lemma bitlen_upper: "n < 2 ^ bitlen n"
proof (induction n rule: bitlen.induct)
  case (1 n)
  then show ?case by (cases "n = 0") (auto simp: bitlen.simps [of n])
qed

lemma bitlen_lower: "0 < n \<Longrightarrow> 2 ^ (bitlen n - 1) \<le> n"
proof (induction n rule: bitlen.induct)
  case (1 n)
  show ?case
  proof (cases "n div 2 = 0")
    case True
    with "1.prems" show ?thesis by (simp add: bitlen.simps [of n])
  next
    case False
    with 1 have "2 ^ (bitlen (n div 2) - 1) \<le> n div 2" by simp
    moreover from False have "0 < bitlen (n div 2)" by (simp add: bitlen.simps [of "n div 2"])
    then have "(2::nat) ^ bitlen (n div 2) = 2 * 2 ^ (bitlen (n div 2) - 1)"
      by (metis One_nat_def Suc_pred power_Suc)
    ultimately have "2 ^ bitlen (n div 2) \<le> n" by linarith
    with False show ?thesis by (simp add: bitlen.simps [of n])
  qed
qed

lemma bitlen_le_iff: "bitlen n \<le> k \<longleftrightarrow> n < 2 ^ k"
proof
  assume "bitlen n \<le> k"
  then have "(2::nat) ^ bitlen n \<le> 2 ^ k" by simp
  with bitlen_upper [of n] show "n < 2 ^ k" by (rule less_le_trans)
next
  assume "n < 2 ^ k"
  show "bitlen n \<le> k"
  proof (cases "n = 0")
    case False
    then have "(2::nat) ^ (bitlen n - 1) < 2 ^ k"
      using bitlen_lower [of n] \<open>n < 2 ^ k\<close> by linarith
    then show ?thesis by simp
  qed simp
qed

lemma bitlen_mono: "m \<le> n \<Longrightarrow> bitlen m \<le> bitlen n"
  by (meson bitlen_le_iff bitlen_upper le_less_trans)

section \<open>Transition systems with an invariant\<close>

text \<open>
  What a concurrent component has to provide for its invariant to hold in every state that
  any interleaving of its steps can reach.
\<close>

locale invariant_system =
  fixes start :: "'s \<Rightarrow> bool"
    and step :: "'s \<Rightarrow> 's \<Rightarrow> bool"
    and inv :: "'s \<Rightarrow> bool"
  assumes start_inv: "start s \<Longrightarrow> inv s"
    and step_inv: "inv s \<Longrightarrow> step s t \<Longrightarrow> inv t"
begin

lemma steps_inv: "step\<^sup>*\<^sup>* s t \<Longrightarrow> inv s \<Longrightarrow> inv t"
  by (induction rule: rtranclp_induct) (auto intro: step_inv)

lemma reachable_inv: "start s \<Longrightarrow> step\<^sup>*\<^sup>* s t \<Longrightarrow> inv t"
  using steps_inv start_inv by blast

lemma relpow_inv: "(step ^^ n) s t \<Longrightarrow> inv s \<Longrightarrow> inv t"
  using steps_inv relpowp_imp_rtranclp by metis

end

text \<open>A system whose every step uses up some work: its runs are finite.\<close>

locale measured_system =
  fixes step :: "'s \<Rightarrow> 's \<Rightarrow> bool"
    and work :: "'s \<Rightarrow> nat"
  assumes step_works: "step s t \<Longrightarrow> work t < work s"
begin

lemma steps_bounded: "(step ^^ n) s t \<Longrightarrow> n + work t \<le> work s"
proof (induction n arbitrary: t)
  case (Suc n)
  then obtain u where "(step ^^ n) s u" "step u t" by auto
  with Suc.IH [of u] step_works [of u t] show ?case by simp
qed simp

lemma comes_to_rest: "\<exists>t. step\<^sup>*\<^sup>* s t \<and> \<not> (\<exists>u. step t u)"
proof (induction "work s" arbitrary: s rule: less_induct)
  case less
  show ?case
  proof (cases "\<exists>u. step s u")
    case True
    then obtain u where u: "step s u" by blast
    from less.hyps [OF step_works [OF u]] obtain t where "step\<^sup>*\<^sup>* u t" "\<not> (\<exists>v. step t v)" by blast
    with u show ?thesis by (meson converse_rtranclp_into_rtranclp)
  qed blast
qed

end

end
