(* ===== verification/TaskQueue.thy ===== *)
theory TaskQueue
  imports Prelude
begin

text \<open>
  include/TaskQueue.hpp, the bounded blocking queue, and the interface of a bounded queue that
  it and the lock-free ring provide.  A monitor operation is one atomic step, enabled when the
  predicate of its condition variable holds (the mutex is released only inside wait).
\<close>

section \<open>The interface of a bounded queue\<close>

text \<open>
  A run of operations on any queue: \<open>Some x\<close> pushes \<open>x\<close> (skipped when the queue refuses),
  None pops (skipped when there is nothing).  The result lists the accepted items, the popped
  items and the final queue.
\<close>

fun run_ops :: "('a \<Rightarrow> 'q \<Rightarrow> 'q option) \<Rightarrow> ('q \<Rightarrow> ('a \<times> 'q) option) \<Rightarrow> 'q \<Rightarrow> ('a option) list \<Rightarrow>
    'a list \<times> 'a list \<times> 'q" where
  "run_ops enq deq q [] = ([], [], q)"
| "run_ops enq deq q (Some x # ops) =
     (case enq x q of
        None \<Rightarrow> run_ops enq deq q ops
      | Some q' \<Rightarrow> (case run_ops enq deq q' ops of (ins, outs, r) \<Rightarrow> (x # ins, outs, r)))"
| "run_ops enq deq q (None # ops) =
     (case deq q of
        None \<Rightarrow> run_ops enq deq q ops
      | Some (x, q') \<Rightarrow> (case run_ops enq deq q' ops of (ins, outs, r) \<Rightarrow> (ins, x # outs, r)))"

text \<open>
  An operation returns None while it has to wait or fails; \<open>contents\<close> is the queue as a list,
  oldest element first.
\<close>

locale bounded_fifo =
  fixes contents :: "'q \<Rightarrow> 'a list"
    and cap :: "'q \<Rightarrow> nat"
    and inv :: "'q \<Rightarrow> bool"
    and enq :: "'a \<Rightarrow> 'q \<Rightarrow> 'q option"
    and deq :: "'q \<Rightarrow> ('a \<times> 'q) option"
  assumes enq_Some: "inv q \<Longrightarrow> enq x q = Some q' \<Longrightarrow>
      contents q' = contents q @ [x] \<and> cap q' = cap q \<and> inv q'"
    and enq_None: "inv q \<Longrightarrow> enq x q = None \<Longrightarrow> cap q \<le> length (contents q)"
    and deq_Some: "inv q \<Longrightarrow> deq q = Some (x, q') \<Longrightarrow>
      contents q = x # contents q' \<and> cap q' = cap q \<and> inv q'"
    and deq_None: "inv q \<Longrightarrow> deq q = None \<Longrightarrow> contents q = []"
    and bounded: "inv q \<Longrightarrow> length (contents q) \<le> cap q"
begin

lemma run_fifo:
  "inv q \<Longrightarrow> run_ops enq deq q ops = (ins, outs, q') \<Longrightarrow>
     contents q @ ins = outs @ contents q' \<and> inv q' \<and> length (contents q') \<le> cap q"
proof (induction ops arbitrary: q ins outs)
  case Nil
  then show ?case using bounded by auto
next
  case (Cons op ops)
  show ?case
  proof (cases op)
    case None
    show ?thesis
    proof (cases "deq q")
      case None
      with Cons \<open>op = None\<close> show ?thesis by simp
    next
      case (Some r)
      then obtain x q1 where d: "deq q = Some (x, q1)" by (cases r) simp
      obtain i1 o1 where r1: "run_ops enq deq q1 ops = (i1, o1, q')" "ins = i1" "outs = x # o1"
        using Cons.prems(2) d \<open>op = None\<close> by (auto split: prod.splits)
      with Cons.IH [OF _ r1(1)] deq_Some [OF Cons.prems(1) d] show ?thesis by auto
    qed
  next
    case (Some x)
    show ?thesis
    proof (cases "enq x q")
      case None
      with Cons \<open>op = Some x\<close> show ?thesis by simp
    next
      case (Some q1)
      obtain i1 where r1: "run_ops enq deq q1 ops = (i1, outs, q')" "ins = x # i1"
        using Cons.prems(2) Some \<open>op = Some x\<close> by (auto split: prod.splits)
      with Cons.IH [OF _ r1(1)] enq_Some [OF Cons.prems(1) Some] show ?thesis by auto
    qed
  qed
qed

lemma enq_succeeds_iff:
  assumes "inv q"
  shows "(\<exists>q'. enq x q = Some q') \<longleftrightarrow> length (contents q) < cap q"
proof (cases "enq x q")
  case None
  with enq_None [OF assms] show ?thesis by auto
next
  case (Some q')
  from enq_Some [OF assms Some] bounded [of q'] have "length (contents q) < cap q" by auto
  with Some show ?thesis by simp
qed

lemma deq_succeeds_iff:
  assumes "inv q"
  shows "(\<exists>r. deq q = Some r) \<longleftrightarrow> contents q \<noteq> []"
proof (cases "deq q")
  case None
  with deq_None [OF assms] show ?thesis by simp
next
  case (Some r)
  then obtain x q' where "deq q = Some (x, q')" by (cases r) simp
  from deq_Some [OF assms this] Some show ?thesis by simp
qed

end

section \<open>TaskQueue\<close>

record 'a task_queue =
  queue :: "'a list"
  capacity :: nat
  shutdown_flag :: bool

definition new_queue :: "nat \<Rightarrow> 'a task_queue" where
  "new_queue c = \<lparr>queue = [], capacity = c, shutdown_flag = False\<rparr>"

text \<open>The predicates of the two waits.\<close>

definition notFull_pred :: "'a task_queue \<Rightarrow> bool" where
  "notFull_pred q \<longleftrightarrow> length (queue q) < capacity q \<or> shutdown_flag q"

definition notEmpty_pred :: "'a task_queue \<Rightarrow> bool" where
  "notEmpty_pred q \<longleftrightarrow> queue q \<noteq> [] \<or> shutdown_flag q"

text \<open>None: the call waits.  The result of push is what the method returns.\<close>

definition push :: "'a \<Rightarrow> 'a task_queue \<Rightarrow> (bool \<times> 'a task_queue) option" where
  "push item q =
     (if \<not> notFull_pred q then None
      else if shutdown_flag q then Some (False, q)
      else Some (True, q\<lparr>queue := queue q @ [item]\<rparr>))"

definition pop :: "'a task_queue \<Rightarrow> ('a option \<times> 'a task_queue) option" where
  "pop q =
     (if \<not> notEmpty_pred q then None
      else case queue q of
        [] \<Rightarrow> Some (None, q)
      | item # rest \<Rightarrow> Some (Some item, q\<lparr>queue := rest\<rparr>))"

definition shutdown :: "'a task_queue \<Rightarrow> 'a task_queue" where
  "shutdown q = q\<lparr>shutdown_flag := True\<rparr>"

definition size_of :: "'a task_queue \<Rightarrow> nat" where
  "size_of q = length (queue q)"

section \<open>TaskQueue is a bounded queue\<close>

definition queue_inv :: "'a task_queue \<Rightarrow> bool" where
  "queue_inv q \<longleftrightarrow> \<not> shutdown_flag q \<and> length (queue q) \<le> capacity q"

definition tq_enq :: "'a \<Rightarrow> 'a task_queue \<Rightarrow> 'a task_queue option" where
  "tq_enq x q = (case push x q of Some (True, q') \<Rightarrow> Some q' | _ \<Rightarrow> None)"

definition tq_deq :: "'a task_queue \<Rightarrow> ('a \<times> 'a task_queue) option" where
  "tq_deq q = (case pop q of Some (Some x, q') \<Rightarrow> Some (x, q') | _ \<Rightarrow> None)"

interpretation tq: bounded_fifo queue capacity queue_inv tq_enq tq_deq
  by unfold_locales
    (auto simp: tq_enq_def tq_deq_def push_def pop_def queue_inv_def notFull_pred_def
      notEmpty_pred_def split: if_splits list.splits)

section \<open>Properties\<close>

text \<open>
  Threads that call the queue, in the order in which the mutex lets them run; a call that has
  to wait has no step.
\<close>

datatype 'a event = Pushed 'a bool | Popped "'a option" | Shut

inductive tq_run :: "'a task_queue \<Rightarrow> 'a event list \<Rightarrow> 'a task_queue \<Rightarrow> bool" where
  tq_refl: "tq_run q [] q"
| tq_push: "push x q = Some (r, q') \<Longrightarrow> tq_run q' es q'' \<Longrightarrow> tq_run q (Pushed x r # es) q''"
| tq_pop: "pop q = Some (r, q') \<Longrightarrow> tq_run q' es q'' \<Longrightarrow> tq_run q (Popped r # es) q''"
| tq_shut: "tq_run (shutdown q) es q'' \<Longrightarrow> tq_run q (Shut # es) q''"

fun pushed_items :: "'a event list \<Rightarrow> 'a list" where
  "pushed_items [] = []"
| "pushed_items (Pushed x r # es) = (if r then x # pushed_items es else pushed_items es)"
| "pushed_items (e # es) = pushed_items es"

fun popped_items :: "'a event list \<Rightarrow> 'a list" where
  "popped_items [] = []"
| "popped_items (Popped (Some x) # es) = x # popped_items es"
| "popped_items (e # es) = popped_items es"

text \<open>
  C29. The task queue is first in, first out and loses nothing: in every run of pushes, pops and
  a shutdown, by any threads, the accepted items in their order are the popped items in their
  order followed by what is still queued; the capacity is never exceeded.
\<close>

theorem task_queue_fifo:
  assumes "tq_run q es q'" and "length (queue q) \<le> capacity q"
  shows "queue q @ pushed_items es = popped_items es @ queue q' \<and>
    length (queue q') \<le> capacity q' \<and> capacity q' = capacity q"
  using assms
proof (induction rule: tq_run.induct)
  case (tq_push x q r q' es q'')
  then show ?case by (auto simp: push_def notFull_pred_def split: if_splits)
next
  case (tq_pop q r q' es q'')
  then show ?case by (auto simp: pop_def split: if_splits list.splits)
next
  case (tq_shut q es q'')
  then show ?case by (simp add: shutdown_def)
qed simp

theorem task_queue_fifo_witness:
  "queue (new_queue 2 :: nat task_queue) @ pushed_items [Pushed 5 True, Popped (Some (5::nat)), Shut, Popped None]
     = popped_items [Pushed 5 True, Popped (Some (5::nat)), Shut, Popped None]
       @ queue (shutdown (new_queue 2))"
proof -
  have "tq_run (new_queue 2) [Pushed 5 True, Popped (Some (5::nat)), Shut, Popped None]
      (shutdown (new_queue 2))"
    by (rule tq_run.intros, simp add: push_def new_queue_def notFull_pred_def)
      (rule tq_run.intros, simp add: pop_def notEmpty_pred_def,
        rule tq_run.intros, rule tq_run.intros,
        simp add: pop_def notEmpty_pred_def shutdown_def new_queue_def,
        simp add: shutdown_def new_queue_def, rule tq_run.intros)
  from task_queue_fifo [OF this] show ?thesis by (simp add: new_queue_def)
qed

fun pops :: "nat \<Rightarrow> 'a task_queue \<Rightarrow> ('a option list \<times> 'a task_queue) option" where
  "pops 0 q = Some ([], q)"
| "pops (Suc n) q =
     Option.bind (pop q) (\<lambda>(r, q'). Option.bind (pops n q') (\<lambda>(rs, q''). Some (r # rs, q'')))"

lemma pops_drain:
  "shutdown_flag q \<Longrightarrow> pops (length (queue q)) q = Some (map Some (queue q), q\<lparr>queue := []\<rparr>)"
proof (induction "queue q" arbitrary: q)
  case (Cons x xs)
  then have "pop q = Some (Some x, q\<lparr>queue := xs\<rparr>)"
    by (simp add: pop_def notEmpty_pred_def flip: Cons.hyps(2))
  moreover have "pops (length xs) (q\<lparr>queue := xs\<rparr>) = Some (map Some xs, q\<lparr>queue := []\<rparr>)"
    using Cons.hyps(1) [of "q\<lparr>queue := xs\<rparr>"] Cons.prems by simp
  ultimately show ?case by (simp flip: Cons.hyps(2))
qed simp

text \<open>
  Shutdown wakes everybody and drains: after shutdown no call waits, a push is refused and
  changes nothing, and as many pops as there are items hand them all out in order, after which
  every pop returns nullopt.
\<close>

lemma shutdown_drains:
  "push x (shutdown q) = Some (False, shutdown q) \<and>
   pops (length (queue q)) (shutdown q) = Some (map Some (queue q), (shutdown q)\<lparr>queue := []\<rparr>) \<and>
   pop ((shutdown q)\<lparr>queue := []\<rparr>) = Some (None, (shutdown q)\<lparr>queue := []\<rparr>)"
  using pops_drain [of "shutdown q"]
  by (simp add: push_def pop_def notFull_pred_def notEmpty_pred_def shutdown_def)

end
