(* ===== verification/LockFreeRing.thy ===== *)
theory LockFreeRing
  imports Prelude "HOL-Library.Multiset"
begin

text \<open>
  include/LockFreeRing.hpp: the bounded ring with a sequence number per cell.  try\_push and
  try\_pop are modelled access by access: every load, compare-and-swap and store of a shared
  word is one step, and any number of threads interleave (sequentially consistent memory).
  Positions and sequence numbers are 64-bit words; the difference of two of them is taken on
  their signed values, as the code does it.
\<close>

unbundle bit_operations_syntax

section \<open>State\<close>

record 'a cell =
  seq :: u64
  data :: 'a

record 'a ring =
  cells :: "'a cell list"
  mask :: u64
  tail :: u64
  head :: u64

text \<open>The capacity loop of the constructor; None: it does not end.\<close>

partial_function (option) cap_loop :: "u64 \<Rightarrow> u64 \<Rightarrow> u64 option" where
  "cap_loop cap minCapacity =
     (if cap < minCapacity then cap_loop (push_bit 1 cap) minCapacity else Some cap)"

declare cap_loop.simps [code]

text \<open>\<open>dflt\<close> is \<open>T{}\<close>.\<close>

definition new_ring :: "'a \<Rightarrow> u64 \<Rightarrow> 'a ring option" where
  "new_ring dflt minCapacity =
     map_option
       (\<lambda>cap. \<lparr>cells = map (\<lambda>i. \<lparr>seq = of_nat i, data = dflt\<rparr>) [0..<unat cap],
               mask = cap - 1, tail = 0, head = 0\<rparr>)
       (cap_loop 1 minCapacity)"

definition idx :: "'a ring \<Rightarrow> u64 \<Rightarrow> nat" where
  "idx r pos = unat (pos AND mask r)"

definition diff :: "u64 \<Rightarrow> u64 \<Rightarrow> int" where
  "diff s pos = sint s - sint pos"

definition cell_at :: "'a ring \<Rightarrow> u64 \<Rightarrow> 'a cell" where
  "cell_at r pos = cells r ! idx r pos"

definition set_cell :: "'a ring \<Rightarrow> u64 \<Rightarrow> ('a cell \<Rightarrow> 'a cell) \<Rightarrow> 'a ring" where
  "set_cell r pos f = r\<lparr>cells := (cells r)[idx r pos := f (cell_at r pos)]\<rparr>"

section \<open>The steps of a thread\<close>

datatype 'a rpc =
    RIdle
  | PushPos 'a u64      \<comment> \<open>pos is loaded, cell.seq is read next\<close>
  | PushCas 'a u64      \<comment> \<open>the difference was 0, the CAS on tail is next\<close>
  | PushReload 'a       \<comment> \<open>the difference was positive, tail is loaded again\<close>
  | PushOwn 'a u64      \<comment> \<open>the position is claimed, data is written next\<close>
  | PushPub u64         \<comment> \<open>data is written, seq is stored next\<close>
  | PushRet bool
  | PopPos u64
  | PopCas u64
  | PopReload
  | PopOwn u64          \<comment> \<open>the position is claimed, data is moved out next\<close>
  | PopPub u64 'a       \<comment> \<open>the item is moved out, seq is stored next\<close>
  | PopRet "'a option"

text \<open>
  One access of the thread with program counter \<open>p\<close>; \<open>spurious\<close> lets compare\_exchange\_weak
  fail although the values agree.
\<close>

fun ring_act :: "'a \<Rightarrow> bool \<Rightarrow> 'a ring \<Rightarrow> 'a rpc \<Rightarrow> 'a ring \<times> 'a rpc" where
  "ring_act dflt spurious r (PushPos x pos) =
     (let d = diff (seq (cell_at r pos)) pos
      in (r, if d = 0 then PushCas x pos else if d < 0 then PushRet False else PushReload x))"
| "ring_act dflt spurious r (PushReload x) = (r, PushPos x (tail r))"
| "ring_act dflt spurious r (PushCas x pos) =
     (if tail r = pos \<and> \<not> spurious then (r\<lparr>tail := pos + 1\<rparr>, PushOwn x pos)
      else (r, PushPos x (tail r)))"
| "ring_act dflt spurious r (PushOwn x pos) =
     (set_cell r pos (\<lambda>c. c\<lparr>data := x\<rparr>), PushPub pos)"
| "ring_act dflt spurious r (PushPub pos) =
     (set_cell r pos (\<lambda>c. c\<lparr>seq := pos + 1\<rparr>), PushRet True)"
| "ring_act dflt spurious r (PopPos pos) =
     (let d = diff (seq (cell_at r pos)) (pos + 1)
      in (r, if d = 0 then PopCas pos else if d < 0 then PopRet None else PopReload))"
| "ring_act dflt spurious r PopReload = (r, PopPos (head r))"
| "ring_act dflt spurious r (PopCas pos) =
     (if head r = pos \<and> \<not> spurious then (r\<lparr>head := pos + 1\<rparr>, PopOwn pos)
      else (r, PopPos (head r)))"
| "ring_act dflt spurious r (PopOwn pos) =
     (set_cell r pos (\<lambda>c. c\<lparr>data := dflt\<rparr>), PopPub pos (data (cell_at r pos)))"
| "ring_act dflt spurious r (PopPub pos x) =
     (set_cell r pos (\<lambda>c. c\<lparr>seq := pos + mask r + 1\<rparr>), PopRet (Some x))"
| "ring_act dflt spurious r p = (r, p)"

definition approx_size :: "'a ring \<Rightarrow> u64" where
  "approx_size r = (let t = tail r; h = head r in if h < t then t - h else 0)"

text \<open>
  The ring and its threads.  For the proofs, \<open>pushed\<close> lists the items in the order in which
  their positions were claimed, \<open>taken\<close> counts the claims of consumers and \<open>popped\<close> lists the
  position and item of every item moved out.
\<close>

record 'a rconf =
  rg :: "'a ring"
  rpcs :: "nat \<Rightarrow> 'a rpc"
  pushed :: "'a list"
  taken :: nat
  popped :: "(nat \<times> 'a) list"

definition ghost_act :: "'a rconf \<Rightarrow> 'a rpc \<Rightarrow> 'a rpc \<Rightarrow> 'a rconf" where
  "ghost_act s p p' =
     (case (p, p') of
        (PushCas x pos, PushOwn y pos') \<Rightarrow> s\<lparr>pushed := pushed s @ [x]\<rparr>
      | (PopCas pos, PopOwn pos') \<Rightarrow> s\<lparr>taken := Suc (taken s)\<rparr>
      | (PopOwn pos, PopPub pos' x) \<Rightarrow> s\<lparr>popped := popped s @ [(unat pos, x)]\<rparr>
      | _ \<Rightarrow> s)"

inductive ring_step :: "'a \<Rightarrow> 'a rconf \<Rightarrow> 'a rconf \<Rightarrow> bool" for dflt :: 'a where
  call_push: "rpcs s t = RIdle \<Longrightarrow>
     ring_step dflt s (s\<lparr>rpcs := (rpcs s)(t := PushPos x (tail (rg s)))\<rparr>)"
| call_pop: "rpcs s t = RIdle \<Longrightarrow>
     ring_step dflt s (s\<lparr>rpcs := (rpcs s)(t := PopPos (head (rg s)))\<rparr>)"
| act: "ring_act dflt spurious (rg s) (rpcs s t) = (r', p') \<Longrightarrow>
     ring_step dflt s ((ghost_act s (rpcs s t) p')\<lparr>rg := r', rpcs := (rpcs s)(t := p')\<rparr>)"
| ret: "rpcs s t = PushRet b \<or> rpcs s t = PopRet v \<Longrightarrow>
     ring_step dflt s (s\<lparr>rpcs := (rpcs s)(t := RIdle)\<rparr>)"

definition ring_start :: "'a ring \<Rightarrow> 'a rconf" where
  "ring_start r = \<lparr>rg = r, rpcs = (\<lambda>_. RIdle), pushed = [], taken = 0, popped = []\<rparr>"

section \<open>The capacity\<close>

lemma cap_loop_from:
  assumes "k \<le> 63" and "unat minCapacity \<le> 2 ^ 63" and "k = 0 \<or> 2 ^ (k - 1) < unat minCapacity"
  shows "\<exists>j \<le> 63. cap_loop (2 ^ k) minCapacity = Some (2 ^ j) \<and> unat minCapacity \<le> 2 ^ j \<and>
    (j = 0 \<or> 2 ^ (j - 1) < unat minCapacity)"
  using assms(1,3)
proof (induction "63 - k" arbitrary: k)
  case 0
  then have k: "k = 63" by simp
  have u: "unat (2 ^ 63 :: u64) = 2 ^ 63" by (rule unat_pow2) simp
  have "\<not> (2 ^ 63 :: u64) < minCapacity"
    using assms(2) by (simp only: word_less_nat_alt u not_less)
  with k have "cap_loop (2 ^ k) minCapacity = Some (2 ^ k)"
    by (subst cap_loop.simps) (simp only: if_False)
  moreover have "unat minCapacity \<le> 2 ^ k" unfolding k by (rule assms(2))
  ultimately show ?case using "0.prems" by (intro exI [of _ k] conjI)
next
  case (Suc n)
  have u: "unat (2 ^ k :: u64) = 2 ^ k" using Suc by (intro unat_pow2) simp
  show ?case
  proof (cases "2 ^ k < unat minCapacity")
    case True
    have "push_bit 1 (2 ^ k :: u64) = 2 ^ Suc k" by (simp add: push_bit_eq_mult)
    with True u have "cap_loop (2 ^ k) minCapacity = cap_loop (2 ^ Suc k) minCapacity"
      by (subst cap_loop.simps) (simp only: word_less_nat_alt if_True)
    with Suc.hyps(1) [of "Suc k"] Suc.hyps(2) Suc.prems True show ?thesis by simp
  next
    case False
    with u have "cap_loop (2 ^ k) minCapacity = Some (2 ^ k)"
      by (subst cap_loop.simps) (simp only: word_less_nat_alt if_False)
    moreover have "unat minCapacity \<le> 2 ^ k" using False by (rule leI)
    ultimately show ?thesis using Suc.prems by (intro exI [of _ k] conjI)
  qed
qed

section \<open>The cells\<close>

text \<open>
  The life of a cell, over natural numbers: \<open>C\<close> cells, \<open>T\<close> positions claimed by producers, \<open>H\<close>
  by consumers, sequence number \<open>sq i\<close> and item \<open>dt i\<close> in cell \<open>i\<close>, the items \<open>pu\<close> in the order of
  their positions, and the positions \<open>wr\<close> and \<open>rd\<close> whose claimant has not published yet.  A
  position among the last \<open>C\<close> claimed ones is being written, full, being read or free again.
\<close>

definition cells_ok ::
  "nat \<Rightarrow> nat \<Rightarrow> nat \<Rightarrow> (nat \<Rightarrow> nat) \<Rightarrow> (nat \<Rightarrow> 'a) \<Rightarrow> 'a list \<Rightarrow> nat set \<Rightarrow> nat set \<Rightarrow> bool" where
  "cells_ok C T H sq dt pu wr rd \<longleftrightarrow>
     2 \<le> C \<and> H \<le> T \<and> T \<le> H + C \<and> length pu = T \<and>
     (\<forall>p < C. T \<le> p \<longrightarrow> sq p = p) \<and>
     (\<forall>p < T. T \<le> p + C \<longrightarrow>
        sq (p mod C) = p \<and> p \<in> wr \<or>
        sq (p mod C) = p + 1 \<and> H \<le> p \<and> dt (p mod C) = pu ! p \<or>
        sq (p mod C) = p + 1 \<and> p \<in> rd \<or>
        sq (p mod C) = p + C \<and> p < H) \<and>
     (\<forall>p \<in> wr. H \<le> p \<and> p < T \<and> T \<le> p + C \<and> sq (p mod C) = p) \<and>
     (\<forall>p \<in> rd. p < H \<and> T \<le> p + C \<and> sq (p mod C) = p + 1)"

lemma cells_okD:
  assumes "cells_ok C T H sq dt pu wr rd"
  shows "2 \<le> C" and "H \<le> T" and "T \<le> H + C" and "length pu = T"
    and "\<And>p. p < C \<Longrightarrow> T \<le> p \<Longrightarrow> sq p = p"
    and "\<And>p. p \<in> wr \<Longrightarrow> H \<le> p \<and> p < T \<and> T \<le> p + C \<and> sq (p mod C) = p"
    and "\<And>p. p \<in> rd \<Longrightarrow> p < H \<and> T \<le> p + C \<and> sq (p mod C) = p + 1"
  using assms unfolding cells_ok_def by auto

lemma cells_ok_status:
  assumes "cells_ok C T H sq dt pu wr rd" and "p < T" and "T \<le> p + C"
  obtains (writing) "sq (p mod C) = p" "p \<in> wr"
  | (full) "sq (p mod C) = p + 1" "H \<le> p" "dt (p mod C) = pu ! p"
  | (reading) "sq (p mod C) = p + 1" "p \<in> rd"
  | (free) "sq (p mod C) = p + C" "p < H"
  using assms unfolding cells_ok_def by blast

lemma cells_next_free:
  assumes ok: "cells_ok C T H sq dt pu wr rd" and sq: "sq (T mod C) = T"
  shows "T < H + C" and "T - C \<in> wr \<Longrightarrow> T < C" and "T - C \<in> rd \<Longrightarrow> T < C"
proof -
  note D = cells_okD [OF ok]
  have *: "T - C < H \<and> T - C \<notin> wr \<and> T - C \<notin> rd" if "C \<le> T"
  proof -
    have m: "(T - C) mod C = T mod C" using that by (simp add: le_mod_geq)
    from D(1) that have "T - C < T" "T \<le> T - C + C" by auto
    with ok show ?thesis
      by (rule cells_ok_status) (use sq m D(1) D(6) [of "T - C"] D(7) [of "T - C"] that in auto)
  qed
  then show "T < H + C" using D(1) by (cases "C \<le> T") auto
  show "T - C \<in> rd \<Longrightarrow> T < C" using * by (cases "C \<le> T") auto
  show "T - C \<in> wr \<Longrightarrow> T < C" using * by (cases "C \<le> T") auto
qed

lemma cells_next_full:
  assumes ok: "cells_ok C T H sq dt pu wr rd" and sq: "sq (H mod C) = H + 1"
  shows "H < T" and "dt (H mod C) = pu ! H"
proof -
  note D = cells_okD [OF ok]
  show "H < T"
  proof (rule ccontr)
    assume "\<not> H < T"
    with D have H: "H = T" by simp
    show False
    proof (cases "C \<le> T")
      case True
      then have m: "(T - C) mod C = T mod C" by (simp add: le_mod_geq)
      from D(1) True have "T - C < T" "T \<le> T - C + C" by auto
      with ok show False
        by (rule cells_ok_status) (use sq m D(1) H True in auto)
    next
      case False
      with D(5) [of T] sq H show False by simp
    qed
  qed
  then have "H < T" "T \<le> H + C" using D by auto
  with ok show "dt (H mod C) = pu ! H"
    by (rule cells_ok_status) (use sq D(1) D(7) [of H] in auto)
qed

lemma cells_claim_push:
  assumes ok: "cells_ok C T H sq dt pu wr rd" and sq: "sq (T mod C) = T"
  shows "cells_ok C (Suc T) H sq dt (pu @ [x]) (insert T wr) rd"
proof -
  note D = cells_okD [OF ok] and N = cells_next_free [OF ok sq]
  have wr: "Suc T \<le> p + C" if "p \<in> wr" for p
    using D(6) [OF that] N(2) that by (cases "T = p + C") auto
  have rd: "Suc T \<le> p + C" if "p \<in> rd" for p
    using D(7) [OF that] N(3) that by (cases "T = p + C") auto
  have st: "sq (p mod C) = p \<and> p \<in> insert T wr \<or>
        sq (p mod C) = p + 1 \<and> H \<le> p \<and> dt (p mod C) = (pu @ [x]) ! p \<or>
        sq (p mod C) = p + 1 \<and> p \<in> rd \<or> sq (p mod C) = p + C \<and> p < H"
    if "p < Suc T" "Suc T \<le> p + C" for p
  proof (cases "p = T")
    case True
    with sq show ?thesis by simp
  next
    case False
    with that have "p < T" "T \<le> p + C" by auto
    with ok show ?thesis
      by (rule cells_ok_status) (use D(4) \<open>p < T\<close> in \<open>auto simp: nth_append\<close>)
  qed
  show ?thesis
    unfolding cells_ok_def using D N(1) wr rd st sq by (auto intro: less_SucI)
qed

lemma cells_claim_pop:
  assumes ok: "cells_ok C T H sq dt pu wr rd" and sq: "sq (H mod C) = H + 1"
  shows "cells_ok C T (Suc H) sq dt pu wr (insert H rd)"
proof -
  note D = cells_okD [OF ok] and N = cells_next_full [OF ok sq]
  have wr: "Suc H \<le> p" if "p \<in> wr" for p
    using D(6) [OF that] sq by (cases "p = H") auto
  have st: "sq (p mod C) = p \<and> p \<in> wr \<or>
        sq (p mod C) = p + 1 \<and> Suc H \<le> p \<and> dt (p mod C) = pu ! p \<or>
        sq (p mod C) = p + 1 \<and> p \<in> insert H rd \<or> sq (p mod C) = p + C \<and> p < Suc H"
    if "p < T" "T \<le> p + C" for p
    using ok that by (rule cells_ok_status) auto
  show ?thesis
    unfolding cells_ok_def using D N(1) wr st sq by (auto intro: less_SucI)
qed

text \<open>Writing the owned cell touches no other cell of the window.\<close>

lemma cells_other:
  assumes "cells_ok C T H sq dt pu wr rd" and "p \<in> wr \<union> rd" and "q < T" and "T \<le> q + C" and "q \<noteq> p"
  shows "q mod C \<noteq> p mod C"
  using assms window_inj [of q C p] cells_okD [OF assms(1)] by fastforce

lemma cells_fresh:
  assumes ok: "cells_ok C T H sq dt pu wr rd" and p: "p \<in> wr \<union> rd" and q: "q < C" "T \<le> q"
  shows "q \<noteq> p mod C"
proof
  assume e: "q = p mod C"
  note D = cells_okD [OF ok]
  from p D have "p < T" by fastforce
  with q have "p < C" by simp
  with e \<open>p < T\<close> q show False by simp
qed

lemma cells_write:
  assumes ok: "cells_ok C T H sq dt pu wr rd" and p: "p \<in> wr \<union> rd"
  shows "cells_ok C T H sq (dt(p mod C := x)) pu wr rd"
proof -
  note D = cells_okD [OF ok]
  have st: "sq (q mod C) = q \<and> q \<in> wr \<or>
        sq (q mod C) = q + 1 \<and> H \<le> q \<and> (dt(p mod C := x)) (q mod C) = pu ! q \<or>
        sq (q mod C) = q + 1 \<and> q \<in> rd \<or> sq (q mod C) = q + C \<and> q < H"
    if "q < T" "T \<le> q + C" for q
    using ok that
    by (rule cells_ok_status) (use cells_other [OF ok p that] p D(1) D(6,7) [of q] in fastforce)+
  show ?thesis
    unfolding cells_ok_def using D st by auto
qed

lemma cells_publish_push:
  assumes ok: "cells_ok C T H sq dt pu wr rd" and p: "p \<in> wr" and dt: "dt (p mod C) = pu ! p"
  shows "cells_ok C T H (sq(p mod C := p + 1)) dt pu (wr - {p}) rd"
proof -
  note D = cells_okD [OF ok] and P = cells_okD(6) [OF ok p]
  have o: "q mod C \<noteq> p mod C" if "q < T" "T \<le> q + C" "q \<noteq> p" for q
    using cells_other [OF ok _ that] p by simp
  have ne: "q \<noteq> p" if "q \<in> rd" for q
    using D(7) [OF that] P by auto
  let ?sq = "sq(p mod C := p + 1)"
  have st: "?sq (q mod C) = q \<and> q \<in> wr - {p} \<or>
        ?sq (q mod C) = q + 1 \<and> H \<le> q \<and> dt (q mod C) = pu ! q \<or>
        ?sq (q mod C) = q + 1 \<and> q \<in> rd \<or> ?sq (q mod C) = q + C \<and> q < H"
    if "q < T" "T \<le> q + C" for q
  proof (cases "q = p")
    case True
    with P dt show ?thesis by simp
  next
    case False
    from ok that show ?thesis
      by (rule cells_ok_status) (use o [OF that False] False in auto)
  qed
  have fr: "?sq q = q" if "q < C" "T \<le> q" for q
    using cells_fresh [OF ok _ that, of p] p D(5) [OF that] by simp
  have wr: "?sq (q mod C) = q" if "q \<in> wr - {p}" for q
    using D(6) [of q] o [of q] that by auto
  have rd: "?sq (q mod C) = q + 1" if "q \<in> rd" for q
    using D(7) [OF that] o [of q] ne [OF that] D(2) by auto
  show ?thesis
    unfolding cells_ok_def using D st fr wr rd by simp
qed

lemma cells_publish_pop:
  assumes ok: "cells_ok C T H sq dt pu wr rd" and p: "p \<in> rd"
  shows "cells_ok C T H (sq(p mod C := p + C)) dt pu wr (rd - {p})"
proof -
  note D = cells_okD [OF ok] and P = cells_okD(7) [OF ok p]
  have o: "q mod C \<noteq> p mod C" if "q < T" "T \<le> q + C" "q \<noteq> p" for q
    using cells_other [OF ok _ that] p by simp
  have ne: "q \<noteq> p" if "q \<in> wr" for q
    using D(6) [OF that] P by auto
  let ?sq = "sq(p mod C := p + C)"
  have st: "?sq (q mod C) = q \<and> q \<in> wr \<or>
        ?sq (q mod C) = q + 1 \<and> H \<le> q \<and> dt (q mod C) = pu ! q \<or>
        ?sq (q mod C) = q + 1 \<and> q \<in> rd - {p} \<or> ?sq (q mod C) = q + C \<and> q < H"
    if "q < T" "T \<le> q + C" for q
  proof (cases "q = p")
    case True
    with P show ?thesis by simp
  next
    case False
    from ok that show ?thesis
      by (rule cells_ok_status) (use o [OF that False] False in auto)
  qed
  have fr: "?sq q = q" if "q < C" "T \<le> q" for q
    using cells_fresh [OF ok _ that, of p] p D(5) [OF that] by simp
  have wr: "?sq (q mod C) = q" if "q \<in> wr" for q
    using D(6) [of q] o [of q] ne that by auto
  have rd: "?sq (q mod C) = q + 1" if "q \<in> rd - {p}" for q
    using D(7) [of q] o [of q] D(2) that by auto
  show ?thesis
    unfolding cells_ok_def using D st fr wr rd by simp
qed

lemma cells_sq_bound:
  assumes ok: "cells_ok C T H sq dt pu wr rd" and i: "i < C"
  shows "sq i \<le> T + C"
proof (cases "T \<le> i")
  case True
  with cells_okD(5) [OF ok i] i show ?thesis by simp
next
  case False
  define p where "p = i + C * ((T - 1 - i) div C)"
  have m: "p mod C = i" using i by (simp add: p_def)
  have "C * ((T - 1 - i) div C) + (T - 1 - i) mod C = T - 1 - i" by simp
  moreover have "(T - 1 - i) mod C < C" using i by simp
  ultimately have "p < T" "T \<le> p + C" using False unfolding p_def by linarith+
  with ok show ?thesis
    by (rule cells_ok_status) (use m \<open>p < T\<close> cells_okD(1) [OF ok] in auto)
qed

section \<open>The threads\<close>

text \<open>The position a thread has claimed and not published yet.\<close>

fun push_claim :: "'a rpc \<Rightarrow> nat option" where
  "push_claim (PushOwn x pos) = Some (unat pos)"
| "push_claim (PushPub pos) = Some (unat pos)"
| "push_claim _ = None"

fun pop_claim :: "'a rpc \<Rightarrow> nat option" where
  "pop_claim (PopOwn pos) = Some (unat pos)"
| "pop_claim (PopPub pos x) = Some (unat pos)"
| "pop_claim _ = None"

fun move_claim :: "'a rpc \<Rightarrow> nat option" where
  "move_claim (PopOwn pos) = Some (unat pos)"
| "move_claim _ = None"

text \<open>What a thread knows at each of its program points.\<close>

fun thread_ok :: "nat \<Rightarrow> nat \<Rightarrow> nat \<Rightarrow> (nat \<Rightarrow> nat) \<Rightarrow> (nat \<Rightarrow> 'a) \<Rightarrow> 'a list \<Rightarrow> 'a rpc \<Rightarrow> bool" where
  "thread_ok C T H sq dt pu (PushPos x pos) \<longleftrightarrow> unat pos \<le> T"
| "thread_ok C T H sq dt pu (PushCas x pos) \<longleftrightarrow>
     unat pos \<le> T \<and> (unat pos = T \<longrightarrow> sq (T mod C) = T)"
| "thread_ok C T H sq dt pu (PushOwn x pos) \<longleftrightarrow> pu ! unat pos = x"
| "thread_ok C T H sq dt pu (PushPub pos) \<longleftrightarrow> dt (unat pos mod C) = pu ! unat pos"
| "thread_ok C T H sq dt pu (PopPos pos) \<longleftrightarrow> unat pos \<le> H"
| "thread_ok C T H sq dt pu (PopCas pos) \<longleftrightarrow>
     unat pos \<le> H \<and> (unat pos = H \<longrightarrow> sq (H mod C) = H + 1)"
| "thread_ok C T H sq dt pu (PopOwn pos) \<longleftrightarrow> dt (unat pos mod C) = pu ! unat pos"
| "thread_ok C T H sq dt pu (PopPub pos x) \<longleftrightarrow> x = pu ! unat pos"
| "thread_ok C T H sq dt pu _ \<longleftrightarrow> True"

text \<open>The positions claimed in the sense of \<open>f\<close>, and that no two threads claim the same one.\<close>

definition claimed :: "('a rpc \<Rightarrow> nat option) \<Rightarrow> (nat \<Rightarrow> 'a rpc) \<Rightarrow> nat set" where
  "claimed f pcs = {p. \<exists>t. f (pcs t) = Some p}"

definition claims_unique :: "('a rpc \<Rightarrow> nat option) \<Rightarrow> (nat \<Rightarrow> 'a rpc) \<Rightarrow> bool" where
  "claims_unique f pcs \<longleftrightarrow> (\<forall>t u p. f (pcs t) = Some p \<longrightarrow> f (pcs u) = Some p \<longrightarrow> t = u)"

text \<open>The record of the items moved out is complete and has no position twice.\<close>

definition pops_ok :: "nat \<Rightarrow> 'a list \<Rightarrow> (nat \<Rightarrow> 'a rpc) \<Rightarrow> (nat \<times> 'a) list \<Rightarrow> bool" where
  "pops_ok H pu pcs pops \<longleftrightarrow>
     distinct (map fst pops) \<and> (\<forall>(p, x) \<in> set pops. x = pu ! p) \<and>
     claimed move_claim pcs \<subseteq> {..<H} \<and> fst ` set pops = {..<H} - claimed move_claim pcs"

definition ring_core :: "nat \<Rightarrow> nat \<Rightarrow> nat \<Rightarrow> (nat \<Rightarrow> nat) \<Rightarrow> (nat \<Rightarrow> 'a) \<Rightarrow> 'a list \<Rightarrow>
    (nat \<Rightarrow> 'a rpc) \<Rightarrow> (nat \<times> 'a) list \<Rightarrow> bool" where
  "ring_core C T H sq dt pu pcs pops \<longleftrightarrow>
     cells_ok C T H sq dt pu (claimed push_claim pcs) (claimed pop_claim pcs) \<and>
     (\<forall>t. thread_ok C T H sq dt pu (pcs t)) \<and>
     claims_unique push_claim pcs \<and> claims_unique pop_claim pcs \<and> pops_ok H pu pcs pops"

lemma claimed_upd:
  assumes "claims_unique f pcs"
  shows "claimed f (pcs(t := q)) = claimed f pcs - set_option (f (pcs t)) \<union> set_option (f q)"
proof -
  have "p \<in> claimed f (pcs(t := q)) \<longleftrightarrow>
      p \<in> claimed f pcs - set_option (f (pcs t)) \<union> set_option (f q)" for p
    using assms unfolding claims_unique_def claimed_def
    by (auto split: if_splits)
  then show ?thesis by blast
qed

lemma claims_unique_upd:
  assumes "claims_unique f pcs" and "set_option (f q) \<inter> claimed f pcs \<subseteq> set_option (f (pcs t))"
  shows "claims_unique f (pcs(t := q))"
  unfolding claims_unique_def
proof (intro allI impI)
  fix u v p
  assume *: "f ((pcs(t := q)) u) = Some p" "f ((pcs(t := q)) v) = Some p"
  have un: "u = v" if "f (pcs u) = Some p" "f (pcs v) = Some p" for u v
    using assms(1) that unfolding claims_unique_def by blast
  have c: "p \<in> claimed f pcs" if "f (pcs u) = Some p" for u
    using that unfolding claimed_def by blast
  from assms(2) have "f (pcs t) = Some p" if "f q = Some p" "p \<in> claimed f pcs"
    using that by (auto simp: subset_iff elem_set)
  with * un c show "u = v" by (auto split: if_splits)
qed

lemma move_claimD: "move_claim q = Some p \<Longrightarrow> pop_claim q = Some p"
  by (cases q) auto

lemma move_unique: "claims_unique pop_claim pcs \<Longrightarrow> claims_unique move_claim pcs"
  unfolding claims_unique_def using move_claimD by metis

lemma pops_ok_upd:
  assumes "pops_ok H pu pcs pops" and "claims_unique pop_claim pcs" and "move_claim q = move_claim (pcs t)"
  shows "pops_ok H pu (pcs(t := q)) pops"
proof -
  have "claimed move_claim (pcs(t := q)) = claimed move_claim pcs"
    using assms(3) unfolding claimed_def by auto
  with assms(1) show ?thesis unfolding pops_ok_def by simp
qed

lemma pops_ok_append:
  assumes "pops_ok H pu pcs pops" and "H \<le> length pu"
  shows "pops_ok H (pu @ [x]) pcs pops"
proof -
  have "p < length pu" if "(p, y) \<in> set pops" for p y
  proof -
    from that have "p \<in> fst ` set pops" by force
    with assms show ?thesis unfolding pops_ok_def by auto
  qed
  with assms(1) show ?thesis unfolding pops_ok_def by (auto simp: nth_append)
qed

lemma pops_ok_claim:
  assumes ok: "pops_ok H pu pcs pops" and un: "claims_unique pop_claim pcs"
    and t: "move_claim (pcs t) = None" and q: "move_claim q = Some H"
  shows "pops_ok (Suc H) pu (pcs(t := q)) pops"
proof -
  have "claimed move_claim (pcs(t := q)) = insert H (claimed move_claim pcs)"
    using claimed_upd [OF move_unique [OF un], of t q] t q by simp
  with ok show ?thesis
    unfolding pops_ok_def by (auto simp: lessThan_Suc)
qed

lemma pops_ok_take:
  assumes ok: "pops_ok H pu pcs pops" and un: "claims_unique pop_claim pcs"
    and t: "move_claim (pcs t) = Some p" and q: "move_claim q = None"
  shows "pops_ok H pu (pcs(t := q)) (pops @ [(p, pu ! p)])"
proof -
  have "claimed move_claim (pcs(t := q)) = claimed move_claim pcs - {p}"
    using claimed_upd [OF move_unique [OF un], of t q] t q by simp
  moreover have p: "p \<in> claimed move_claim pcs" using t unfolding claimed_def by blast
  moreover from p ok have "p < H" unfolding pops_ok_def by blast
  moreover from p ok have "p \<notin> fst ` set pops" unfolding pops_ok_def by blast
  ultimately show ?thesis
    using ok unfolding pops_ok_def by auto
qed


text \<open>What a thread knows stays true when another thread makes a step.\<close>

lemma thread_ok_claim_push:
  assumes "cells_ok C T H sq dt pu wr rd" and "thread_ok C T H sq dt pu q"
    and "set_option (push_claim q) \<subseteq> wr" and "set_option (pop_claim q) \<subseteq> rd"
  shows "thread_ok C (Suc T) H sq dt (pu @ [x]) q"
  using assms(2-4) cells_okD(2,4,6,7) [OF assms(1)]
  by (cases q) (fastforce simp: nth_append)+

lemma thread_ok_claim_pop:
  "thread_ok C T H sq dt pu q \<Longrightarrow> thread_ok C T (Suc H) sq dt pu q"
  by (cases q) auto

lemma thread_ok_write:
  assumes ok: "cells_ok C T H sq dt pu wr rd" and p: "p \<in> wr \<union> rd" and q: "thread_ok C T H sq dt pu q"
    and c: "set_option (push_claim q) \<subseteq> wr" "set_option (pop_claim q) \<subseteq> rd"
    and ne: "push_claim q \<noteq> Some p" "pop_claim q \<noteq> Some p"
  shows "thread_ok C T H sq (dt(p mod C := x)) pu q"
proof -
  note D = cells_okD [OF ok]
  have "r mod C \<noteq> p mod C" if "r \<in> wr \<union> rd" "r \<noteq> p" for r
    using that D(2) D(6,7) [of r] by (intro cells_other [OF ok p]) auto
  with q c ne show ?thesis by (cases q) auto
qed

lemma thread_ok_publish_push:
  assumes ok: "cells_ok C T H sq dt pu wr rd" and p: "p \<in> wr" and q: "thread_ok C T H sq dt pu q"
  shows "thread_ok C T H (sq(p mod C := v)) dt pu q"
proof -
  note D = cells_okD [OF ok] and P = cells_okD(6) [OF ok p]
  have "p mod C \<noteq> T mod C" if "sq (T mod C) = T" using P that by auto
  moreover have "p mod C \<noteq> H mod C" if s: "sq (H mod C) = H + 1"
  proof
    assume e: "p mod C = H mod C"
    with s P have "p = H + 1" by simp
    with window_inj [OF e] D(1) show False by simp
  qed
  ultimately show ?thesis using q by (cases q) auto
qed

lemma thread_ok_publish_pop:
  assumes ok: "cells_ok C T H sq dt pu wr rd" and p: "p \<in> rd" and q: "thread_ok C T H sq dt pu q"
  shows "thread_ok C T H (sq(p mod C := v)) dt pu q"
proof -
  note D = cells_okD [OF ok] and P = cells_okD(7) [OF ok p]
  have "p mod C \<noteq> H mod C" if "sq (H mod C) = H + 1" using P that by auto
  moreover have "p mod C \<noteq> T mod C" if s: "sq (T mod C) = T"
  proof
    assume e: "p mod C = T mod C"
    with s P have "T = p + 1" by simp
    with window_inj [OF e] D(1) show False by simp
  qed
  ultimately show ?thesis using q by (cases q) auto
qed

section \<open>The steps keep the invariant\<close>

lemma ring_coreD:
  assumes "ring_core C T H sq dt pu pcs pops"
  shows "cells_ok C T H sq dt pu (claimed push_claim pcs) (claimed pop_claim pcs)"
    and "\<And>t. thread_ok C T H sq dt pu (pcs t)"
    and "claims_unique push_claim pcs" and "claims_unique pop_claim pcs" and "pops_ok H pu pcs pops"
  using assms unfolding ring_core_def by auto

lemma claimedI: "f (pcs t) = Some p \<Longrightarrow> p \<in> claimed f pcs"
  unfolding claimed_def by blast

lemma claims_subset: "set_option (f (pcs t)) \<subseteq> claimed f pcs"
  unfolding claimed_def by auto

lemma core_move:
  assumes "ring_core C T H sq dt pu pcs pops" and "thread_ok C T H sq dt pu q"
    and "push_claim q = push_claim (pcs t)" "pop_claim q = pop_claim (pcs t)" "move_claim q = move_claim (pcs t)"
  shows "ring_core C T H sq dt pu (pcs(t := q)) pops"
proof -
  note D = ring_coreD [OF assms(1)]
  have "claimed push_claim (pcs(t := q)) = claimed push_claim pcs"
    "claimed pop_claim (pcs(t := q)) = claimed pop_claim pcs"
    using assms(3,4) unfolding claimed_def by auto
  moreover have "claims_unique push_claim (pcs(t := q))" "claims_unique pop_claim (pcs(t := q))"
    using D(3,4) assms(3,4) by (auto intro: claims_unique_upd)
  ultimately show ?thesis
    unfolding ring_core_def using D(1,2) assms(2) pops_ok_upd [OF D(5,4) assms(5)] by simp
qed

lemma core_claim_push:
  assumes core: "ring_core C T H sq dt pu pcs pops" and t: "pcs t = PushCas x pos" and pos: "unat pos = T"
  shows "ring_core C (Suc T) H sq dt (pu @ [x]) (pcs(t := PushOwn x pos)) pops"
proof -
  note D = ring_coreD [OF core] and C = cells_okD [OF ring_coreD(1) [OF core]]
  have sq: "sq (T mod C) = T" using D(2) [of t] t pos by simp
  have T: "T \<notin> claimed push_claim pcs" using C(6) by blast
  have w: "claimed push_claim (pcs(t := PushOwn x pos)) = insert T (claimed push_claim pcs)"
    "claimed pop_claim (pcs(t := PushOwn x pos)) = claimed pop_claim pcs"
    using claimed_upd D(3,4) t pos by (simp_all add: claimed_upd)
  have u: "claims_unique push_claim (pcs(t := PushOwn x pos))" "claims_unique pop_claim (pcs(t := PushOwn x pos))"
    using T pos by (auto intro!: claims_unique_upd D(3,4))
  have pc: "thread_ok C (Suc T) H sq dt (pu @ [x]) ((pcs(t := PushOwn x pos)) u)" for u
    using thread_ok_claim_push [OF D(1,2) claims_subset claims_subset] C(4) pos by (cases "u = t") auto
  have pops: "pops_ok H (pu @ [x]) (pcs(t := PushOwn x pos)) pops"
    using pops_ok_append [OF D(5)] C(2,4) D(4) t by (intro pops_ok_upd) auto
  show ?thesis
    unfolding ring_core_def w using cells_claim_push [OF D(1) sq] pc u pops by blast
qed

lemma core_claim_pop:
  assumes core: "ring_core C T H sq dt pu pcs pops" and t: "pcs t = PopCas pos" and pos: "unat pos = H"
  shows "ring_core C T (Suc H) sq dt pu (pcs(t := PopOwn pos)) pops"
proof -
  note D = ring_coreD [OF core] and C = cells_okD [OF ring_coreD(1) [OF core]]
  have sq: "sq (H mod C) = H + 1" using D(2) [of t] t pos by simp
  have H: "H \<notin> claimed pop_claim pcs" using C(7) by blast
  have w: "claimed pop_claim (pcs(t := PopOwn pos)) = insert H (claimed pop_claim pcs)"
    "claimed push_claim (pcs(t := PopOwn pos)) = claimed push_claim pcs"
    using claimed_upd D(3,4) t pos by (simp_all add: claimed_upd)
  have u: "claims_unique push_claim (pcs(t := PopOwn pos))" "claims_unique pop_claim (pcs(t := PopOwn pos))"
    using H pos by (auto intro!: claims_unique_upd D(3,4))
  have pc: "thread_ok C T (Suc H) sq dt pu ((pcs(t := PopOwn pos)) u)" for u
    using thread_ok_claim_pop [OF D(2)] cells_next_full(2) [OF D(1) sq] pos by (cases "u = t") auto
  have pops: "pops_ok (Suc H) pu (pcs(t := PopOwn pos)) pops"
    using t pos by (intro pops_ok_claim [OF D(5,4)]) auto
  show ?thesis
    unfolding ring_core_def w using cells_claim_pop [OF D(1) sq] pc u pops by blast
qed

text \<open>Two claims of different threads are on different positions.\<close>

lemma core_other_claims:
  assumes core: "ring_core C T H sq dt pu pcs pops" and "u \<noteq> t"
    and p: "push_claim (pcs t) = Some p \<or> pop_claim (pcs t) = Some p"
  shows "push_claim (pcs u) \<noteq> Some p" and "pop_claim (pcs u) \<noteq> Some p"
proof -
  note D = ring_coreD [OF core] and C = cells_okD [OF ring_coreD(1) [OF core]]
  have "p \<notin> claimed push_claim pcs \<or> p \<notin> claimed pop_claim pcs"
    using C(6,7) [of p] by auto
  then show "push_claim (pcs u) \<noteq> Some p" "pop_claim (pcs u) \<noteq> Some p"
    using p D(3,4) \<open>u \<noteq> t\<close> claimedI unfolding claims_unique_def by metis+
qed

lemma core_write:
  assumes core: "ring_core C T H sq dt pu pcs pops"
    and p: "push_claim (pcs t) = Some p \<or> pop_claim (pcs t) = Some p"
    and q: "thread_ok C T H sq (dt(p mod C := x)) pu q"
    and c: "push_claim q = push_claim (pcs t)" "pop_claim q = pop_claim (pcs t)"
    and pops: "pops_ok H pu (pcs(t := q)) pops'"
  shows "ring_core C T H sq (dt(p mod C := x)) pu (pcs(t := q)) pops'"
proof -
  note D = ring_coreD [OF core]
  have in_cl: "p \<in> claimed push_claim pcs \<union> claimed pop_claim pcs" using p claimedI by fastforce
  have w: "claimed push_claim (pcs(t := q)) = claimed push_claim pcs"
    "claimed pop_claim (pcs(t := q)) = claimed pop_claim pcs"
    using c unfolding claimed_def by auto
  have u: "claims_unique push_claim (pcs(t := q))" "claims_unique pop_claim (pcs(t := q))"
    using D(3,4) c by (auto intro: claims_unique_upd)
  have pc: "thread_ok C T H sq (dt(p mod C := x)) pu ((pcs(t := q)) u)" for u
    using q thread_ok_write [OF D(1) in_cl D(2) claims_subset claims_subset] core_other_claims [OF core _ p, of u]
    by (cases "u = t") auto
  show ?thesis
    unfolding ring_core_def w using cells_write [OF D(1) in_cl] pc u pops by blast
qed

lemma core_publish_push:
  assumes core: "ring_core C T H sq dt pu pcs pops" and t: "pcs t = PushPub pos"
  shows "ring_core C T H (sq(unat pos mod C := unat pos + 1)) dt pu (pcs(t := PushRet True)) pops"
proof -
  note D = ring_coreD [OF core]
  have p: "unat pos \<in> claimed push_claim pcs" using claimedI [of push_claim pcs t] t by simp
  have dt: "dt (unat pos mod C) = pu ! unat pos" using D(2) [of t] t by simp
  have w: "claimed push_claim (pcs(t := PushRet True)) = claimed push_claim pcs - {unat pos}"
    "claimed pop_claim (pcs(t := PushRet True)) = claimed pop_claim pcs"
    using D(3,4) t by (simp_all add: claimed_upd)
  have u: "claims_unique push_claim (pcs(t := PushRet True))" "claims_unique pop_claim (pcs(t := PushRet True))"
    by (auto intro!: claims_unique_upd D(3,4))
  have pc: "thread_ok C T H (sq(unat pos mod C := unat pos + 1)) dt pu ((pcs(t := PushRet True)) u)" for u
    using thread_ok_publish_push [OF D(1) p D(2)] by (cases "u = t") auto
  have pops: "pops_ok H pu (pcs(t := PushRet True)) pops"
    using t by (intro pops_ok_upd [OF D(5,4)]) simp
  show ?thesis
    unfolding ring_core_def w using cells_publish_push [OF D(1) p dt] pc u pops by blast
qed

lemma core_publish_pop:
  assumes core: "ring_core C T H sq dt pu pcs pops" and t: "pcs t = PopPub pos x"
  shows "ring_core C T H (sq(unat pos mod C := unat pos + C)) dt pu (pcs(t := PopRet (Some x))) pops"
proof -
  note D = ring_coreD [OF core]
  let ?pcs = "pcs(t := PopRet (Some x))"
  have p: "unat pos \<in> claimed pop_claim pcs" using claimedI [of pop_claim pcs t] t by simp
  have w: "claimed pop_claim ?pcs = claimed pop_claim pcs - {unat pos}"
    "claimed push_claim ?pcs = claimed push_claim pcs"
    using D(3,4) t by (simp_all add: claimed_upd)
  have u: "claims_unique push_claim ?pcs" "claims_unique pop_claim ?pcs"
    by (auto intro!: claims_unique_upd D(3,4))
  have pc: "thread_ok C T H (sq(unat pos mod C := unat pos + C)) dt pu (?pcs u)" for u
    using thread_ok_publish_pop [OF D(1) p D(2)] by (cases "u = t") auto
  have pops: "pops_ok H pu ?pcs pops"
    using t by (intro pops_ok_upd [OF D(5,4)]) simp
  show ?thesis
    unfolding ring_core_def w using cells_publish_pop [OF D(1) p] pc u pops by blast
qed


section \<open>From words to positions\<close>

definition ring_shape :: "'a ring \<Rightarrow> bool" where
  "ring_shape r \<longleftrightarrow> (\<exists>k. 1 \<le> k \<and> k < 62 \<and> length (cells r) = 2 ^ k \<and> mask r = 2 ^ k - 1)"

definition sq_of :: "'a ring \<Rightarrow> nat \<Rightarrow> nat" where
  "sq_of r i = unat (seq (cells r ! i))"

definition dt_of :: "'a ring \<Rightarrow> nat \<Rightarrow> 'a" where
  "dt_of r i = data (cells r ! i)"

definition ring_good :: "'a rconf \<Rightarrow> bool" where
  "ring_good s \<longleftrightarrow> ring_shape (rg s) \<and>
     unat (tail (rg s)) = length (pushed s) \<and> unat (head (rg s)) = taken s \<and>
     ring_core (length (cells (rg s))) (length (pushed s)) (taken s)
       (sq_of (rg s)) (dt_of (rg s)) (pushed s) (rpcs s) (popped s)"

definition ring_inv :: "'a rconf \<Rightarrow> bool" where
  "ring_inv s \<longleftrightarrow> (length (pushed s) + length (cells (rg s)) < 2 ^ 62 \<longrightarrow> ring_good s)"

lemma idx_mod:
  assumes "ring_shape r"
  shows "idx r pos = unat pos mod length (cells r)" and "idx r pos < length (cells r)"
  using assms unfolding ring_shape_def idx_def by (auto simp: unat_and_mask)

lemma mask_succ:
  assumes "ring_shape r" and "unat pos < 2 ^ 62"
  shows "unat (pos + mask r + 1) = unat pos + length (cells r)"
proof -
  obtain k where k: "k < 62" "length (cells r) = 2 ^ k" "mask r = 2 ^ k - 1"
    using assms(1) unfolding ring_shape_def by blast
  have u: "unat (2 ^ k :: u64) = 2 ^ k" using k(1) by (intro unat_pow2) simp
  have "(2 :: nat) ^ k < 2 ^ 62" using k(1) by (intro power_strict_increasing) auto
  then have "unat pos + unat (2 ^ k :: u64) < 2 ^ 64" using assms(2) unfolding u by simp
  from unat_plus_small [OF this] show ?thesis using k u by simp
qed

lemma cell_at_seq: "ring_shape r \<Longrightarrow> unat (seq (cell_at r pos)) = sq_of r (unat pos mod length (cells r))"
  and cell_at_data: "ring_shape r \<Longrightarrow> data (cell_at r pos) = dt_of r (unat pos mod length (cells r))"
  by (simp_all add: cell_at_def sq_of_def dt_of_def idx_mod)

lemma set_cell_simps [simp]:
  "length (cells (set_cell r pos f)) = length (cells r)" "mask (set_cell r pos f) = mask r"
  "tail (set_cell r pos f) = tail r" "head (set_cell r pos f) = head r"
  "ring_shape (set_cell r pos f) = ring_shape r"
  by (simp_all add: set_cell_def ring_shape_def)

lemma sq_of_set:
  assumes "ring_shape r"
  shows "sq_of (set_cell r pos (\<lambda>c. c\<lparr>seq := v\<rparr>)) = (sq_of r)(unat pos mod length (cells r) := unat v)"
    and "dt_of (set_cell r pos (\<lambda>c. c\<lparr>seq := v\<rparr>)) = dt_of r"
    and "sq_of (set_cell r pos (\<lambda>c. c\<lparr>data := x\<rparr>)) = sq_of r"
    and "dt_of (set_cell r pos (\<lambda>c. c\<lparr>data := x\<rparr>)) = (dt_of r)(unat pos mod length (cells r) := x)"
  using idx_mod [OF assms, of pos]
  by (auto simp: fun_eq_iff sq_of_def dt_of_def set_cell_def cell_at_def nth_list_update)

lemma diff_small:
  assumes "unat s < 2 ^ 63" and "unat pos < 2 ^ 63"
  shows "diff s pos = int (unat s) - int (unat pos)"
  unfolding diff_def using assms by (simp only: sint_small)

lemma ring_goodD:
  assumes "ring_good s"
  shows "ring_shape (rg s)" and "unat (tail (rg s)) = length (pushed s)" and "unat (head (rg s)) = taken s"
    and "ring_core (length (cells (rg s))) (length (pushed s)) (taken s)
       (sq_of (rg s)) (dt_of (rg s)) (pushed s) (rpcs s) (popped s)"
  using assms unfolding ring_good_def by auto

lemma claim_bound:
  assumes "ring_good s" and "push_claim (rpcs s t) = Some p \<or> pop_claim (rpcs s t) = Some p"
  shows "p < length (pushed s)"
  using assms(2) cells_okD(2,6,7) [OF ring_coreD(1) [OF ring_goodD(4) [OF assms(1)]]]
    claimedI [of _ "rpcs s" t p]
  by (metis (no_types, lifting) less_le_trans)

lemma diff_at:
  assumes good: "ring_good s" and small: "length (pushed s) + length (cells (rg s)) < 2 ^ 62"
    and pos: "unat pos < 2 ^ 63"
  shows "diff (seq (cell_at (rg s) w)) pos =
    int (sq_of (rg s) (unat w mod length (cells (rg s)))) - int (unat pos)"
proof -
  note ok = ring_coreD(1) [OF ring_goodD(4) [OF good]] and shape = ring_goodD(1) [OF good]
  have "unat w mod length (cells (rg s)) < length (cells (rg s))"
    using cells_okD(1) [OF ok] by (intro mod_less_divisor) linarith
  then have "sq_of (rg s) (unat w mod length (cells (rg s))) \<le> length (pushed s) + length (cells (rg s))"
    by (rule cells_sq_bound [OF ok])
  with small have "unat (seq (cell_at (rg s) w)) < 2 ^ 63"
    unfolding cell_at_seq [OF shape] by simp
  from diff_small [OF this pos] show ?thesis unfolding cell_at_seq [OF shape] .
qed

lemma diff_zero:
  assumes "ring_good s" and "length (pushed s) + length (cells (rg s)) < 2 ^ 62"
    and "unat pos < 2 ^ 63"
  shows "diff (seq (cell_at (rg s) w)) pos = 0 \<longleftrightarrow>
    sq_of (rg s) (unat w mod length (cells (rg s))) = unat pos"
  unfolding diff_at [OF assms] by (simp only: eq_iff_diff_eq_0 [symmetric] of_nat_eq_iff)

lemma shape_upd [simp]:
  "ring_shape (r\<lparr>tail := v\<rparr>) = ring_shape r" "ring_shape (r\<lparr>head := v\<rparr>) = ring_shape r"
  "sq_of (r\<lparr>tail := v\<rparr>) = sq_of r" "sq_of (r\<lparr>head := v\<rparr>) = sq_of r"
  "dt_of (r\<lparr>tail := v\<rparr>) = dt_of r" "dt_of (r\<lparr>head := v\<rparr>) = dt_of r"
  by (simp_all add: ring_shape_def fun_eq_iff sq_of_def dt_of_def)

lemma good_move:
  assumes "ring_good s" and "thread_ok (length (cells (rg s))) (length (pushed s)) (taken s)
       (sq_of (rg s)) (dt_of (rg s)) (pushed s) q"
    and "push_claim q = push_claim (rpcs s t)" "pop_claim q = pop_claim (rpcs s t)"
    "move_claim q = move_claim (rpcs s t)"
  shows "ring_good (s\<lparr>rpcs := (rpcs s)(t := q)\<rparr>)"
  using ring_goodD [OF assms(1)] core_move [OF ring_goodD(4) [OF assms(1)] assms(2-)]
  unfolding ring_good_def by simp

lemma ring_act_good:
  assumes good: "ring_good s" and small: "length (pushed s) + length (cells (rg s)) < 2 ^ 62"
    and act: "ring_act dflt spurious (rg s) (rpcs s t) = (r', p')"
  shows "ring_good ((ghost_act s (rpcs s t) p')\<lparr>rg := r', rpcs := (rpcs s)(t := p')\<rparr>)"
proof -
  note G = ring_goodD [OF good] and D = ring_coreD [OF ring_goodD(4) [OF good]]
  note C = cells_okD [OF D(1)]
  note mv = good_move [OF good] and pc = D(2) [of t]
  have big: "n < 2 ^ 63" if "n \<le> length (pushed s)" for n using small that by simp
  have succ: "unat (pos + 1) = unat pos + 1" if "unat pos \<le> length (pushed s)" for pos :: u64
    using small that by (intro unat_succ) simp
  show ?thesis
  proof (cases "rpcs s t")
    case (PushPos x pos)
    with pc have "unat pos \<le> length (pushed s)" by simp
    with diff_zero [OF good small big, of pos pos] PushPos act show ?thesis
      by (auto simp: Let_def ghost_act_def intro!: mv split: if_splits)
  next
    case (PopPos pos)
    with pc C(2) have le: "unat pos \<le> taken s" "unat pos \<le> length (pushed s)" by auto
    have "unat (pos + 1) < 2 ^ 63" using succ [OF le(2)] big [OF le(2)] small le by simp
    with diff_zero [OF good small, of "pos + 1" pos] succ [OF le(2)] le PopPos act show ?thesis
      by (auto simp: Let_def ghost_act_def intro!: mv split: if_splits)
  next
    case (PushCas x pos)
    show ?thesis
    proof (cases "tail (rg s) = pos \<and> \<not> spurious")
      case True
      then have pos: "unat pos = length (pushed s)" using G(2) by auto
      from core_claim_push [OF G(4) PushCas pos] True PushCas act G(1,3) succ [of pos] pos
      show ?thesis by (auto simp: ring_good_def ghost_act_def)
    next
      case False
      with PushCas act G show ?thesis by (auto simp: ghost_act_def intro!: mv)
    qed
  next
    case (PopCas pos)
    show ?thesis
    proof (cases "head (rg s) = pos \<and> \<not> spurious")
      case True
      then have pos: "unat pos = taken s" using G(3) by auto
      from core_claim_pop [OF G(4) PopCas pos] True PopCas act G(1,2) succ [of pos] pos C(2)
      show ?thesis by (auto simp: ring_good_def ghost_act_def)
    next
      case False
      with PopCas act G show ?thesis by (auto simp: ghost_act_def intro!: mv)
    qed
  next
    case (PushOwn x pos)
    have "pops_ok (taken s) (pushed s) ((rpcs s)(t := PushPub pos)) (popped s)"
      using PushOwn by (intro pops_ok_upd [OF D(5,4)]) simp
    from core_write [OF G(4) _ _ _ _ this, where x = x and p = "unat pos"] PushOwn act G pc
    show ?thesis by (auto simp: ring_good_def ghost_act_def sq_of_set)
  next
    case (PopOwn pos)
    have "pops_ok (taken s) (pushed s) ((rpcs s)(t := PopPub pos (pushed s ! unat pos)))
        (popped s @ [(unat pos, pushed s ! unat pos)])"
      using PopOwn by (intro pops_ok_take [OF D(5,4)]) auto
    from core_write [OF G(4) _ _ _ _ this, where x = dflt and p = "unat pos"] PopOwn act G pc
    show ?thesis by (auto simp: ring_good_def ghost_act_def sq_of_set cell_at_data)
  next
    case (PushPub pos)
    with succ claim_bound [OF good, of t "unat pos"] have "unat (pos + 1) = unat pos + 1" by simp
    with core_publish_push [OF G(4) PushPub] PushPub act G
    show ?thesis by (auto simp: ring_good_def ghost_act_def sq_of_set)
  next
    case (PopPub pos x)
    with claim_bound [OF good, of t "unat pos"] small have "unat pos < 2 ^ 62" by simp
    with core_publish_pop [OF G(4) PopPub] PopPub act G mask_succ [OF G(1), of pos]
    show ?thesis by (auto simp: ring_good_def ghost_act_def sq_of_set)
  next
    case RIdle
    with act good show ?thesis by (auto simp: ghost_act_def fun_upd_idem)
  next
    case (PushRet b)
    with act have "p' = PushRet b" "r' = rg s" by auto
    with PushRet good show ?thesis by (simp add: ghost_act_def fun_upd_idem)
  next
    case (PopRet v)
    with act have "p' = PopRet v" "r' = rg s" by auto
    with PopRet good show ?thesis by (simp add: ghost_act_def fun_upd_idem)
  qed (use G act mv in \<open>auto simp: ghost_act_def\<close>)
qed


lemma ring_step_inv:
  assumes inv: "ring_inv s" and step: "ring_step dflt s s'"
  shows "ring_inv s'"
proof (cases "length (pushed s) + length (cells (rg s)) < 2 ^ 62")
  case True
  with inv have good: "ring_good s" unfolding ring_inv_def by simp
  note G = ring_goodD [OF good]
  from step have "ring_good s'"
  proof cases
    case (act spurious t r' p')
    then show ?thesis using ring_act_good [OF good True] by simp
  qed (use G in \<open>auto intro!: good_move [OF good]\<close>)
  then show ?thesis unfolding ring_inv_def by simp
next
  case False
  from step have "length (pushed s) + length (cells (rg s)) \<le> length (pushed s') + length (cells (rg s'))"
  proof cases
    case (act spurious t r' p')
    have "length (cells r') = length (cells (rg s))"
      using act(2) by (cases "rpcs s t") (auto simp: Let_def split: if_splits)
    with act(1) show ?thesis by (auto simp: ghost_act_def split: rpc.split)
  qed auto
  with False show ?thesis unfolding ring_inv_def by simp
qed


lemma start_good:
  assumes "new_ring dflt m = Some r" and "2 \<le> unat m" and "unat m \<le> 2 ^ 61"
  shows "ring_good (ring_start r)" and "unat m \<le> length (cells r)" and "length (cells r) < 2 * unat m"
proof -
  have "unat m \<le> 2 ^ 63" using assms(3) by simp
  from cap_loop_from [of 0 m, OF _ this]
  obtain j where j: "cap_loop 1 m = Some (2 ^ j)" "j \<le> 63" "unat m \<le> 2 ^ j"
    "j = 0 \<or> 2 ^ (j - 1) < unat m" by auto
  from j(3) assms(2) have "1 \<le> j" by (cases j) auto
  with j(4) have lt: "2 ^ (j - 1) < unat m" by simp
  with assms(3) have "(2 :: nat) ^ (j - 1) < 2 ^ 61" by linarith
  then have "j - 1 < 61" by (rule power_less_imp_less_exp [rotated]) simp
  then have "j < 62" using \<open>1 \<le> j\<close> by simp
  have u: "unat (2 ^ j :: u64) = 2 ^ j" using \<open>j < 62\<close> by (intro unat_pow2) simp
  have r: "r = \<lparr>cells = map (\<lambda>i. \<lparr>seq = of_nat i, data = dflt\<rparr>) [0..<2 ^ j],
      mask = 2 ^ j - 1, tail = 0, head = 0\<rparr>"
    using assms(1) j(1) u unfolding new_ring_def by simp
  have sq: "sq_of r i = i" if "i < 2 ^ j" for i
  proof -
    have "(2 :: nat) ^ j < 2 ^ 64" using \<open>j < 62\<close> by (intro power_strict_increasing) auto
    with that have "i < 2 ^ 64" by linarith
    with that show ?thesis unfolding r sq_of_def by (simp add: unat_of_nat_u64)
  qed
  have two: "2 \<le> (2 :: nat) ^ j" using \<open>1 \<le> j\<close> self_le_power [of "2 :: nat" j] by simp
  have "ring_core (2 ^ j) 0 0 (sq_of r) (dt_of r) [] (\<lambda>_. RIdle) []"
    using sq two unfolding ring_core_def cells_ok_def claims_unique_def pops_ok_def claimed_def by simp
  then show "ring_good (ring_start r)"
    using \<open>1 \<le> j\<close> \<open>j < 62\<close> unfolding ring_good_def ring_start_def ring_shape_def by (auto simp: r)
  show "unat m \<le> length (cells r)" using j(3) by (simp add: r)
  have "(2 :: nat) ^ j = 2 * 2 ^ (j - 1)" using \<open>1 \<le> j\<close> by (cases j) auto
  with lt show "length (cells r) < 2 * unat m" by (simp add: r)
qed


text \<open>The states in which an execution may start: a ring built for at least two items.\<close>

definition ring_starts :: "'a \<Rightarrow> 'a rconf \<Rightarrow> bool" where
  "ring_starts dflt s \<longleftrightarrow>
     (\<exists>m r. new_ring dflt m = Some r \<and> 2 \<le> unat m \<and> unat m \<le> 2 ^ 61 \<and> s = ring_start r)"

interpretation ring: invariant_system "ring_starts dflt" "ring_step dflt" ring_inv for dflt
proof (unfold_locales, goal_cases)
  case (1 s)
  then obtain m r where "new_ring dflt m = Some r" "2 \<le> unat m" "unat m \<le> 2 ^ 61" "s = ring_start r"
    unfolding ring_starts_def by blast
  with start_good(1) [of dflt m r] show ?case unfolding ring_inv_def by simp
next
  case (2 s s')
  then show ?case by (rule ring_step_inv)
qed

lemma reachable_good:
  assumes "new_ring dflt m = Some r" and "2 \<le> unat m" and "unat m \<le> 2 ^ 61"
    and "(ring_step dflt)\<^sup>*\<^sup>* (ring_start r) s" and "length (pushed s) + length (cells (rg s)) < 2 ^ 62"
  shows "ring_good s"
  using ring.reachable_inv [of dflt "ring_start r" s] assms
  unfolding ring_starts_def ring_inv_def by blast

text \<open>No operation is between its claim and its publication.\<close>

definition quiescent :: "(nat \<Rightarrow> 'a rpc) \<Rightarrow> bool" where
  "quiescent pcs \<longleftrightarrow> (\<forall>t. push_claim (pcs t) = None \<and> pop_claim (pcs t) = None)"

lemma quiescent_claimed:
  assumes "quiescent pcs"
  shows "claimed push_claim pcs = {}" and "claimed pop_claim pcs = {}" and "claimed move_claim pcs = {}"
proof -
  show 1: "claimed push_claim pcs = {}" "claimed pop_claim pcs = {}"
    using assms unfolding quiescent_def claimed_def by auto
  then show "claimed move_claim pcs = {}"
    using move_claimD unfolding claimed_def by fast
qed

lemma quiescent_cells:
  assumes good: "ring_good s" and q: "quiescent (rpcs s)"
  shows "sq_of (rg s) (length (pushed s) mod length (cells (rg s))) = length (pushed s)
      \<longleftrightarrow> length (pushed s) < taken s + length (cells (rg s))"
    and "sq_of (rg s) (taken s mod length (cells (rg s))) = taken s + 1 \<longleftrightarrow> taken s < length (pushed s)"
proof -
  let ?C = "length (cells (rg s))" and ?T = "length (pushed s)" and ?H = "taken s"
  note ok = ring_coreD(1) [OF ring_goodD(4) [OF good], unfolded quiescent_claimed [OF q]]
  note C = cells_okD [OF ok]
  show "sq_of (rg s) (?T mod ?C) = ?T \<longleftrightarrow> ?T < ?H + ?C"
  proof
    assume lt: "?T < ?H + ?C"
    show "sq_of (rg s) (?T mod ?C) = ?T"
    proof (cases "?C \<le> ?T")
      case True
      then have m: "(?T - ?C) mod ?C = ?T mod ?C" by (simp add: le_mod_geq)
      from C(1) True have "?T - ?C < ?T" "?T \<le> ?T - ?C + ?C" by linarith+
      with ok show ?thesis by (rule cells_ok_status) (use m lt True in auto)
    qed (use C(5) [of ?T] in simp)
  qed (rule cells_next_free(1) [OF ok])
  show "sq_of (rg s) (?H mod ?C) = ?H + 1 \<longleftrightarrow> ?H < ?T"
  proof
    assume "?H < ?T"
    from ok this C(3) show "sq_of (rg s) (?H mod ?C) = ?H + 1"
      by (rule cells_ok_status) auto
  qed (rule cells_next_full(1) [OF ok])
qed

text \<open>An operation that runs alone, at most \<open>n\<close> accesses of it.\<close>

fun solo :: "'a \<Rightarrow> nat \<Rightarrow> 'a ring \<Rightarrow> 'a rpc \<Rightarrow> 'a ring \<times> 'a rpc" where
  "solo dflt 0 r p = (r, p)"
| "solo dflt (Suc n) r p = (case ring_act dflt False r p of (r', p') \<Rightarrow> solo dflt n r' p')"

lemma solo_returned [simp]:
  "solo dflt n r (PushRet b) = (r, PushRet b)" "solo dflt n r (PopRet v) = (r, PopRet v)"
  by (induction n) auto

section \<open>Runs given by a list of commands\<close>

datatype 'a ring_cmd = Push nat 'a | Pop nat | Act nat | Ret nat

fun ring_exec :: "'a \<Rightarrow> 'a ring_cmd \<Rightarrow> 'a rconf \<Rightarrow> 'a rconf" where
  "ring_exec dflt (Push t x) s =
     (case rpcs s t of RIdle \<Rightarrow> s\<lparr>rpcs := (rpcs s)(t := PushPos x (tail (rg s)))\<rparr> | _ \<Rightarrow> s)"
| "ring_exec dflt (Pop t) s =
     (case rpcs s t of RIdle \<Rightarrow> s\<lparr>rpcs := (rpcs s)(t := PopPos (head (rg s)))\<rparr> | _ \<Rightarrow> s)"
| "ring_exec dflt (Act t) s =
     (case ring_act dflt False (rg s) (rpcs s t) of
        (r', p') \<Rightarrow> (ghost_act s (rpcs s t) p')\<lparr>rg := r', rpcs := (rpcs s)(t := p')\<rparr>)"
| "ring_exec dflt (Ret t) s =
     (case rpcs s t of
        PushRet b \<Rightarrow> s\<lparr>rpcs := (rpcs s)(t := RIdle)\<rparr>
      | PopRet v \<Rightarrow> s\<lparr>rpcs := (rpcs s)(t := RIdle)\<rparr>
      | _ \<Rightarrow> s)"

lemma ring_exec_step: "(ring_step dflt)\<^sup>*\<^sup>* s (ring_exec dflt c s)"
proof (cases c)
  case (Act t)
  obtain r' p' where "ring_act dflt False (rg s) (rpcs s t) = (r', p')" by force
  from ring_step.act [OF this] this Act show ?thesis by auto
qed (auto split: rpc.split intro: ring_step.intros)

lemma ring_fold_steps: "(ring_step dflt)\<^sup>*\<^sup>* s (fold (ring_exec dflt) cs s)"
  by (induction cs arbitrary: s) (auto intro: ring_exec_step rtranclp_trans)


fun cmd_thread :: "'a ring_cmd \<Rightarrow> nat" where
  "cmd_thread (Push t x) = t"
| "cmd_thread (Pop t) = t"
| "cmd_thread (Act t) = t"
| "cmd_thread (Ret t) = t"

lemma ring_exec_other:
  assumes "t \<noteq> cmd_thread c"
  shows "rpcs (ring_exec dflt c s) t = rpcs s t"
  using assms by (cases c) (auto split: rpc.split prod.split)

lemma ring_fold_other:
  assumes "t \<notin> cmd_thread ` set cs"
  shows "rpcs (fold (ring_exec dflt) cs s) t = rpcs s t"
  using assms by (induction cs arbitrary: s) (auto simp: ring_exec_other)

text \<open>
  A run of two producers and a consumer on a ring of two cells: thread 1 overtakes thread 0,
  whose CAS fails once, and the consumer finds the ring empty before the first publication.
\<close>

definition ring_cmds :: "nat ring_cmd list" where
  "ring_cmds = [Push 0 7, Push 1 8, Act 0, Act 1, Act 1, Act 0, Act 0, Pop 2, Act 2,
     Act 1, Act 1, Act 0, Act 0, Act 0, Ret 2, Pop 2, Act 2, Act 2, Act 2, Act 2]"

definition ring_run :: "nat rconf" where
  "ring_run = fold (ring_exec 0) ring_cmds (ring_start (the (new_ring 0 2)))"

lemma ring_run_start: "new_ring (0 :: nat) 2 = Some (the (new_ring 0 2))"
  by code_simp

lemma ring_run_result:
  "pushed ring_run = [8, 7]" "taken ring_run = 1" "popped ring_run = [(0, 8)]"
  "length (cells (rg ring_run)) = 2"
  by code_simp+

lemma ring_run_reachable: "(ring_step 0)\<^sup>*\<^sup>* (ring_start (the (new_ring 0 2))) ring_run"
  unfolding ring_run_def by (rule ring_fold_steps)

lemma ring_run_quiescent: "quiescent (rpcs ring_run)"
  unfolding quiescent_def
proof
  fix t
  have "rpcs ring_run 0 = PushRet True" "rpcs ring_run 1 = PushRet True"
    "rpcs ring_run 2 = PopRet (Some 8)"
    by code_simp+
  moreover have "rpcs ring_run t = RIdle" if "t \<notin> {0, 1, 2}"
  proof -
    from that have "t \<notin> cmd_thread ` set ring_cmds" by (simp add: ring_cmds_def)
    from ring_fold_other [OF this] show ?thesis
      unfolding ring_run_def ring_start_def by (simp only: rconf.simps)
  qed
  ultimately show "push_claim (rpcs ring_run t) = None \<and> pop_claim (rpcs ring_run t) = None"
    by (cases "t \<in> {0, 1, 2}") auto
qed

lemma ring_run_bounds:
  "2 \<le> unat (2 :: u64)" "unat (2 :: u64) \<le> 2 ^ 61"
  "length (pushed ring_run) + length (cells (rg ring_run)) < 2 ^ 62"
  by (simp_all add: ring_run_result)

lemmas ring_run_facts = ring_run_start ring_run_reachable ring_run_result ring_run_quiescent

section \<open>The ring is a queue\<close>

text \<open>
  C2. Under every interleaving of any number of producers and consumers, on a ring built for at
  least two items, no item is lost, duplicated or invented: the items moved out carry pairwise
  different positions below the number of claims, each is the item pushed at its position
  (so items are claimed in the order in which they were pushed), at most as many items wait as
  there are cells, and when no operation is half done the items moved out are exactly the
  oldest ones.  The bound of 2^62 pushes keeps the signed differences of the code exact.
\<close>

theorem ring_exactly_once:
  assumes "new_ring dflt m = Some r" and "2 \<le> unat m" and "unat m \<le> 2 ^ 61"
    and "(ring_step dflt)\<^sup>*\<^sup>* (ring_start r) s"
    and "length (pushed s) + length (cells (rg s)) < 2 ^ 62"
  shows "distinct (map fst (popped s)) \<and> (\<forall>(p, x) \<in> set (popped s). p < taken s \<and> x = pushed s ! p) \<and>
    taken s \<le> length (pushed s) \<and> length (pushed s) \<le> taken s + length (cells (rg s)) \<and>
    (quiescent (rpcs s) \<longrightarrow> mset (map snd (popped s)) = mset (take (taken s) (pushed s)))"
proof -
  note G = ring_goodD [OF reachable_good [OF assms]]
  note D = ring_coreD [OF G(4)]
  note P = D(5) [unfolded pops_ok_def] and C = cells_okD [OF D(1)]
  have lt: "p < taken s \<and> x = pushed s ! p" if "(p, x) \<in> set (popped s)" for p x
  proof -
    from that have "p \<in> fst ` set (popped s)" by force
    with P that show ?thesis by auto
  qed
  have "mset (map snd (popped s)) = mset (take (taken s) (pushed s))" if "quiescent (rpcs s)"
  proof -
    from P quiescent_claimed(3) [OF that] have "set (map fst (popped s)) = {..<taken s}" by simp
    with P have "mset (map fst (popped s)) = mset [0..<taken s]"
      by (metis atLeast0LessThan atLeastLessThan_upt distinct_upt set_eq_iff_mset_eq_distinct)
    then have e: "mset (map (nth (pushed s)) (map fst (popped s))) = mset (map (nth (pushed s)) [0..<taken s])"
      by (metis mset_map)
    have l: "map (nth (pushed s)) (map fst (popped s)) = map snd (popped s)"
      using lt by auto
    have t: "map (nth (pushed s)) [0..<taken s] = take (taken s) (pushed s)"
      using C(2) by (intro nth_equalityI) auto
    show ?thesis using e unfolding l t .
  qed
  with lt P C show ?thesis by auto
qed

theorem ring_exactly_once_witness:
  "popped ring_run = [(0, 8)] \<and> pushed ring_run = [8, 7] \<and>
    distinct (map fst (popped ring_run)) \<and>
    0 < taken ring_run \<and> 8 = pushed ring_run ! 0 \<and>
    taken ring_run \<le> length (pushed ring_run) \<and>
    length (pushed ring_run) \<le> taken ring_run + length (cells (rg ring_run)) \<and>
    mset (map snd (popped ring_run)) = mset (take (taken ring_run) (pushed ring_run))"
  using ring_exactly_once [OF ring_run_start ring_run_bounds(1,2) ring_run_reachable ring_run_bounds(3)]
    ring_run_facts(3-) by simp

text \<open>
  When no operation is half done, try\_push running alone returns after at most four
  accesses, with true exactly when fewer items wait than there are cells; try\_pop likewise,
  with the oldest waiting item exactly when there is one.
\<close>

lemma ring_solo_results:
  assumes "new_ring dflt m = Some r" and "2 \<le> unat m" and "unat m \<le> 2 ^ 61"
    and "(ring_step dflt)\<^sup>*\<^sup>* (ring_start r) s"
    and "length (pushed s) + length (cells (rg s)) < 2 ^ 62" and "quiescent (rpcs s)"
  shows "snd (solo dflt 4 (rg s) (PushPos x (tail (rg s)))) =
      PushRet (length (pushed s) < taken s + length (cells (rg s))) \<and>
    snd (solo dflt 4 (rg s) (PopPos (head (rg s)))) =
      PopRet (if taken s < length (pushed s) then Some (pushed s ! taken s) else None)"
proof -
  note good = reachable_good [OF assms(1-5)]
  note G = ring_goodD [OF good] and Q = quiescent_cells [OF good assms(6)]
  note ok = ring_coreD(1) [OF G(4)]
  note C = cells_okD [OF ok]
  let ?C = "length (cells (rg s))"
  have t: "unat (tail (rg s)) < 2 ^ 63" using assms(5) G(2) by simp
  have su: "unat (head (rg s) + 1) = taken s + 1" using assms(5) G(3) C(2) unat_succ [of "head (rg s)"] by simp
  have h: "unat (head (rg s) + 1) < 2 ^ 63" using assms(5) C(2) unfolding su by simp
  have push: "snd (solo dflt 4 (rg s) (PushPos x (tail (rg s)))) =
      PushRet (length (pushed s) < taken s + length (cells (rg s)))"
  proof (cases "length (pushed s) < taken s + ?C")
    case True
    with Q(1) diff_zero [OF good assms(5) t] G(2)
    have "diff (seq (cell_at (rg s) (tail (rg s)))) (tail (rg s)) = 0" by simp
    with True show ?thesis by (simp add: numeral_eq_Suc Let_def)
  next
    case False
    with C(3) have T: "length (pushed s) = taken s + ?C" by simp
    with C(1) Q(2) have "sq_of (rg s) (length (pushed s) mod ?C) = taken s + 1" by auto
    with diff_at [OF good assms(5) t] G(2) T C(1)
    have "diff (seq (cell_at (rg s) (tail (rg s)))) (tail (rg s)) < 0" by simp
    with T show ?thesis by (simp add: numeral_eq_Suc Let_def)
  qed
  have "snd (solo dflt 4 (rg s) (PopPos (head (rg s)))) =
      PopRet (if taken s < length (pushed s) then Some (pushed s ! taken s) else None)"
  proof (cases "taken s < length (pushed s)")
    case True
    with Q(2) have sq: "sq_of (rg s) (taken s mod ?C) = taken s + 1" by simp
    with diff_zero [OF good assms(5) h] G(3) su
    have "diff (seq (cell_at (rg s) (head (rg s)))) (head (rg s) + 1) = 0" by simp
    moreover have "data (cell_at (rg s) (head (rg s))) = pushed s ! taken s"
      using cells_next_full(2) [OF ok sq] G(3) by (simp add: cell_at_data [OF G(1)])
    ultimately show ?thesis using True by (simp add: numeral_eq_Suc Let_def cell_at_def idx_def)
  next
    case False
    with C(2) have H: "taken s = length (pushed s)" by simp
    with C(1) Q(1) have "sq_of (rg s) (taken s mod ?C) = taken s" by auto
    with diff_at [OF good assms(5) h, of "head (rg s)"] G(3) su
    have "diff (seq (cell_at (rg s) (head (rg s)))) (head (rg s) + 1) < 0" by simp
    with H show ?thesis by (simp add: numeral_eq_Suc Let_def)
  qed
  with push show ?thesis by blast
qed

lemma ring_solo_results_witness:
  "snd (solo 0 4 (rg ring_run) (PushPos 9 (tail (rg ring_run)))) = PushRet True \<and>
    snd (solo 0 4 (rg ring_run) (PopPos (head (rg ring_run)))) = PopRet (Some 7)"
  using ring_solo_results [OF ring_run_start ring_run_bounds(1,2) ring_run_reachable
      ring_run_bounds(3) ring_run_quiescent, of 9]
  by (simp add: ring_run_result)

text \<open>
  C39. A ring built for a single item (capacity 1) is broken: with one cell the sequence number
  \<open>pos + 1\<close> of a full cell is also the number of a free cell for the next position.  Two pushes
  in a row both report success, the second overwrites the first item, and a try\_pop after them
  reloads head forever.
\<close>

theorem ring_capacity_one:
  "\<exists>r r1 r2. new_ring dflt 1 = Some r \<and>
     solo dflt 4 r (PushPos a (tail r)) = (r1, PushRet True) \<and>
     solo dflt 4 r1 (PushPos b (tail r1)) = (r2, PushRet True) \<and>
     (\<forall>n v. snd (solo dflt n r2 (PopPos (head r2))) \<noteq> PopRet v)"
proof -
  have c: "cap_loop 1 1 = Some 1" by (subst cap_loop.simps) simp
  define r2 where "r2 = \<lparr>cells = [\<lparr>seq = 2, data = b\<rparr>], mask = 0, tail = 2, head = 0\<rparr>"
  have d: "diff 0 0 = 0" "diff 1 1 = 0" "diff 2 1 = 1" by (simp_all add: diff_def)
  have "snd (solo dflt n r2 (PopPos 0)) \<noteq> PopRet v \<and> snd (solo dflt n r2 PopReload) \<noteq> PopRet v" for n v
    by (induction n) (simp_all add: r2_def cell_at_def idx_def d Let_def)
  moreover have "new_ring dflt 1 = Some \<lparr>cells = [\<lparr>seq = 0, data = dflt\<rparr>], mask = 0, tail = 0, head = 0\<rparr>"
    by (simp add: new_ring_def c)
  ultimately show ?thesis
    by (auto simp: numeral_eq_Suc cell_at_def set_cell_def idx_def d Let_def r2_def)
qed

end
