(* ===== verification/LockFreeTaskQueue.thy ===== *)
theory LockFreeTaskQueue
  imports LockFreeRing
begin

text \<open>
  include/LockFreeTaskQueue.hpp and include/ThreadPool.hpp: the job queue with its wake-up
  handshake, the workers that run the jobs, and shutdown.  Every access to a shared word is one
  step; any number of submitting threads, workers and threads that call shutdown interleave
  (sequentially consistent memory).  The ring below the queue is used through what theory
  LockFreeRing shows of it: positions are claimed in order, published later, and handed out in
  order once published.
\<close>

section \<open>State\<close>

text \<open>A thread inside submit, that is inside LockFreeTaskQueue::push.\<close>

datatype 'a ppc =
    PIdle
  | PCheck 'a      \<comment> \<open>counted in pushersInFlight, shutdown is loaded next\<close>
  | PTry 'a        \<comment> \<open>try\_push is next\<close>
  | PFull 'a       \<comment> \<open>try\_push failed, shutdown is loaded next\<close>
  | PRefuse        \<comment> \<open>shut down, the count is taken back next\<close>
  | PPub nat       \<comment> \<open>a position is claimed, its item is published next\<close>
  | PDec           \<comment> \<open>the count is taken back next\<close>
  | PRmw           \<comment> \<open>sleepers is read next\<close>
  | PSpin          \<comment> \<open>spinners is read next\<close>
  | PLock          \<comment> \<open>the lock is taken and given back next\<close>
  | PNotify

text \<open>A worker inside LockFreeTaskQueue::pop or running a job.\<close>

datatype 'a wpc =
    WTop           \<comment> \<open>spinners is incremented next\<close>
  | WSpin nat      \<comment> \<open>tries left in the spin phase\<close>
  | WGot 'a        \<comment> \<open>popped while spinning, spinners is decremented next\<close>
  | WSpinEnd       \<comment> \<open>spinners is decremented next\<close>
  | WAnnounce      \<comment> \<open>sleepers is incremented next\<close>
  | WCheck         \<comment> \<open>try\_pop once more\<close>
  | WTook 'a       \<comment> \<open>popped, sleepers is decremented next\<close>
  | WShut          \<comment> \<open>shutdown is loaded next\<close>
  | WPushers       \<comment> \<open>pushersInFlight is loaded next\<close>
  | WLeave         \<comment> \<open>sleepers is decremented next\<close>
  | WLast          \<comment> \<open>the last try\_pop\<close>
  | WLock          \<comment> \<open>waits for the mutex\<close>
  | WTail          \<comment> \<open>holds the mutex; tail is loaded next (approx\_size)\<close>
  | WHead nat      \<comment> \<open>head is loaded next\<close>
  | WFlag          \<comment> \<open>the size was 0, shutdown is loaded next\<close>
  | WBlock         \<comment> \<open>the predicate was false, about to release the mutex and wait\<close>
  | WWait          \<comment> \<open>waits on the condition variable\<close>
  | WWake          \<comment> \<open>sleepers is decremented next\<close>
  | WRun 'a        \<comment> \<open>pop returned a job\<close>
  | WExit          \<comment> \<open>pop returned nullopt, the worker has ended\<close>

text \<open>A thread inside ThreadPool::shutdown.\<close>

datatype spc = SIdle | SStore | SLock | SNotify | SJoin | SDone

record 'a pool =
  items :: "'a list"          \<comment> \<open>the items of the claimed positions\<close>
  published :: "nat set"
  hpos :: nat                 \<comment> \<open>head: how many items were popped\<close>
  capacity :: nat
  shut :: bool
  shuttingDown :: bool
  sleepers :: int
  spinners :: int
  pushersInFlight :: int
  maxSpinners :: int
  parkMtx :: "nat option"     \<comment> \<open>the worker that holds the mutex\<close>
  workers :: "'a wpc list"
  pushers :: "'a ppc list"
  closers :: "spc list"
  executed :: "'a list"
  completed :: nat

definition kSpins :: nat where
  "kSpins = 4096"

text \<open>
  A pool on a machine with \<open>hw\<close> hardware threads, used by \<open>m\<close> threads that submit and \<open>k\<close> that
  shut it down.  The capacity is what the constructor of the ring makes of it.
\<close>

definition new_pool :: "u64 \<Rightarrow> nat \<Rightarrow> nat \<Rightarrow> nat \<Rightarrow> nat \<Rightarrow> 'a pool option" where
  "new_pool queueCapacity hw numThreads m k =
     map_option
       (\<lambda>cap. \<lparr>items = [], published = {}, hpos = 0, capacity = unat cap, shut = False, shuttingDown = False,
               sleepers = 0, spinners = 0, pushersInFlight = 0, maxSpinners = max 1 (int (hw div 2)),
               parkMtx = None, workers = replicate (if numThreads = 0 then 1 else numThreads) WTop,
               pushers = replicate m PIdle, closers = replicate k SIdle, executed = [], completed = 0\<rparr>)
       (cap_loop 1 queueCapacity)"

definition queueDepth :: "'a pool \<Rightarrow> nat" where
  "queueDepth s = length (items s) - hpos s"

definition workerCount :: "'a pool \<Rightarrow> nat" where
  "workerCount s = length (workers s)"

definition completedCount :: "'a pool \<Rightarrow> nat" where
  "completedCount s = completed s"

section \<open>Steps\<close>

abbreviation set_worker :: "nat \<Rightarrow> 'a wpc \<Rightarrow> 'a pool \<Rightarrow> 'a pool" where
  "set_worker i p s \<equiv> s\<lparr>workers := (workers s)[i := p]\<rparr>"

abbreviation set_pusher :: "nat \<Rightarrow> 'a ppc \<Rightarrow> 'a pool \<Rightarrow> 'a pool" where
  "set_pusher j p s \<equiv> s\<lparr>pushers := (pushers s)[j := p]\<rparr>"

definition can_pop :: "'a pool \<Rightarrow> bool" where
  "can_pop s \<longleftrightarrow> hpos s < length (items s) \<and> hpos s \<in> published s"

text \<open>A try\_pop of worker \<open>i\<close>, which goes on with \<open>f item\<close> or with \<open>p\<close>.\<close>

definition pop_or :: "nat \<Rightarrow> ('a \<Rightarrow> 'a wpc) \<Rightarrow> 'a wpc \<Rightarrow> 'a pool \<Rightarrow> 'a pool" where
  "pop_or i f p s =
     (if can_pop s then set_worker i (f (items s ! hpos s)) (s\<lparr>hpos := hpos s + 1\<rparr>)
      else set_worker i p s)"

text \<open>
  The body of workerLoop after pop has returned a job: an exception the job throws is caught,
  so the job counts as completed whether it returns or throws.
\<close>

definition run_job :: "nat \<Rightarrow> 'a \<Rightarrow> 'a pool \<Rightarrow> 'a pool" where
  "run_job i x s = set_worker i WTop (s\<lparr>executed := executed s @ [x], completed := completed s + 1\<rparr>)"

declare run_job_def [simp]

text \<open>None: the worker cannot move by itself.\<close>

definition worker_step :: "nat \<Rightarrow> 'a pool \<Rightarrow> 'a pool option" where
  "worker_step i s =
     (case workers s ! i of
        WTop \<Rightarrow> Some (set_worker i (if spinners s < maxSpinners s then WSpin kSpins else WSpinEnd)
                   (s\<lparr>spinners := spinners s + 1\<rparr>))
      | WSpin n \<Rightarrow> Some (case n of 0 \<Rightarrow> set_worker i WSpinEnd s | Suc n' \<Rightarrow> pop_or i WGot (WSpin n') s)
      | WGot x \<Rightarrow> Some (set_worker i (WRun x) (s\<lparr>spinners := spinners s - 1\<rparr>))
      | WSpinEnd \<Rightarrow> Some (set_worker i WAnnounce (s\<lparr>spinners := spinners s - 1\<rparr>))
      | WAnnounce \<Rightarrow> Some (set_worker i WCheck (s\<lparr>sleepers := sleepers s + 1\<rparr>))
      | WCheck \<Rightarrow> Some (pop_or i WTook WShut s)
      | WTook x \<Rightarrow> Some (set_worker i (WRun x) (s\<lparr>sleepers := sleepers s - 1\<rparr>))
      | WShut \<Rightarrow> Some (set_worker i (if shut s then WPushers else WLock) s)
      | WPushers \<Rightarrow> Some (set_worker i (if pushersInFlight s = 0 then WLeave else WLock) s)
      | WLeave \<Rightarrow> Some (set_worker i WLast (s\<lparr>sleepers := sleepers s - 1\<rparr>))
      | WLast \<Rightarrow> Some (pop_or i WRun WExit s)
      | WLock \<Rightarrow> if parkMtx s = None then Some (set_worker i WTail (s\<lparr>parkMtx := Some i\<rparr>)) else None
      | WTail \<Rightarrow> Some (set_worker i (WHead (length (items s))) s)
      | WHead t \<Rightarrow> Some (if hpos s < t then set_worker i WWake (s\<lparr>parkMtx := None\<rparr>) else set_worker i WFlag s)
      | WFlag \<Rightarrow> Some (if shut s then set_worker i WWake (s\<lparr>parkMtx := None\<rparr>) else set_worker i WBlock s)
      | WBlock \<Rightarrow> Some (set_worker i WWait (s\<lparr>parkMtx := None\<rparr>))
      | WWait \<Rightarrow> None
      | WWake \<Rightarrow> Some (set_worker i WTop (s\<lparr>sleepers := sleepers s - 1\<rparr>))
      | WRun x \<Rightarrow> Some (run_job i x s)
      | WExit \<Rightarrow> None)"

text \<open>
  A step of a thread inside submit.  \<open>full\<close> is the answer of try\_push when there is room: it may
  still fail, since a consumer may not have freed the cell yet.
\<close>

definition pusher_step :: "bool \<Rightarrow> nat \<Rightarrow> 'a pool \<Rightarrow> 'a pool option" where
  "pusher_step full j s =
     (case pushers s ! j of
        PIdle \<Rightarrow> None
      | PCheck x \<Rightarrow> Some (set_pusher j (if shut s then PRefuse else PTry x) s)
      | PTry x \<Rightarrow>
          Some (if length (items s) < hpos s + capacity s \<and> \<not> full
                then set_pusher j (PPub (length (items s))) (s\<lparr>items := items s @ [x]\<rparr>)
                else set_pusher j (PFull x) s)
      | PFull x \<Rightarrow> Some (set_pusher j (if shut s then PRefuse else PTry x) s)
      | PRefuse \<Rightarrow> Some (set_pusher j PIdle (s\<lparr>pushersInFlight := pushersInFlight s - 1\<rparr>))
      | PPub p \<Rightarrow> Some (set_pusher j PDec (s\<lparr>published := insert p (published s)\<rparr>))
      | PDec \<Rightarrow> Some (set_pusher j PRmw (s\<lparr>pushersInFlight := pushersInFlight s - 1\<rparr>))
      | PRmw \<Rightarrow> Some (set_pusher j (if 0 < sleepers s then PSpin else PIdle) s)
      | PSpin \<Rightarrow> Some (set_pusher j (if spinners s = 0 then PLock else PIdle) s)
      | PLock \<Rightarrow> if parkMtx s = None then Some (set_pusher j PNotify s) else None
      | PNotify \<Rightarrow> None)"

definition submit :: "nat \<Rightarrow> 'a \<Rightarrow> 'a pool \<Rightarrow> 'a pool" where
  "submit j x s = set_pusher j (PCheck x) (s\<lparr>pushersInFlight := pushersInFlight s + 1\<rparr>)"

text \<open>
  submitWithFuture submits the task and ignores the result of push.  Its future is ready once the
  task was run; when push has refused the task, the last reference to it dies with the job, and
  the future reports a broken promise.
\<close>

definition submitWithFuture :: "nat \<Rightarrow> 'a \<Rightarrow> 'a pool \<Rightarrow> 'a pool" where
  "submitWithFuture j task s = submit j task s"

datatype future_state = Pending | Ready | Broken

definition future_of :: "'a \<Rightarrow> 'a pool \<Rightarrow> future_state" where
  "future_of task s =
     (if task \<in> set (executed s) then Ready
      else if task \<in> set (items s) \<or> PCheck task \<in> set (pushers s) \<or> PTry task \<in> set (pushers s) \<or>
        PFull task \<in> set (pushers s) then Pending
      else Broken)"

fun wake :: "'a wpc \<Rightarrow> 'a wpc" where
  "wake WWait = WLock"
| "wake p = p"

definition closer_step :: "nat \<Rightarrow> 'a pool \<Rightarrow> 'a pool option" where
  "closer_step k s =
     (case closers s ! k of
        SIdle \<Rightarrow>
          Some (if shuttingDown s then s\<lparr>closers := (closers s)[k := SDone]\<rparr>
                else s\<lparr>shuttingDown := True, closers := (closers s)[k := SStore]\<rparr>)
      | SStore \<Rightarrow> Some (s\<lparr>shut := True, closers := (closers s)[k := SLock]\<rparr>)
      | SLock \<Rightarrow> if parkMtx s = None then Some (s\<lparr>closers := (closers s)[k := SNotify]\<rparr>) else None
      | SNotify \<Rightarrow> Some (s\<lparr>workers := map wake (workers s), closers := (closers s)[k := SJoin]\<rparr>)
      | SJoin \<Rightarrow> if \<forall>p \<in> set (workers s). p = WExit then Some (s\<lparr>closers := (closers s)[k := SDone]\<rparr>) else None
      | SDone \<Rightarrow> None)"

text \<open>
  notify\_one wakes one waiting worker, whichever, or nobody when none waits; a waiting worker
  may also wake up by itself.
\<close>

inductive pool_step :: "'a pool \<Rightarrow> 'a pool \<Rightarrow> bool" where
  worker: "i < length (workers s) \<Longrightarrow> worker_step i s = Some s' \<Longrightarrow> pool_step s s'"
| spurious: "i < length (workers s) \<Longrightarrow> workers s ! i = WWait \<Longrightarrow> pool_step s (set_worker i WLock s)"
| submits: "j < length (pushers s) \<Longrightarrow> pushers s ! j = PIdle \<Longrightarrow> pool_step s (submit j x s)"
| pusher: "j < length (pushers s) \<Longrightarrow> pusher_step full j s = Some s' \<Longrightarrow> pool_step s s'"
| notify: "j < length (pushers s) \<Longrightarrow> pushers s ! j = PNotify \<Longrightarrow>
     i < length (workers s) \<Longrightarrow> workers s ! i = WWait \<Longrightarrow>
     pool_step s (set_pusher j PIdle (set_worker i WLock s))"
| notify_none: "j < length (pushers s) \<Longrightarrow> pushers s ! j = PNotify \<Longrightarrow> WWait \<notin> set (workers s) \<Longrightarrow>
     pool_step s (set_pusher j PIdle s)"
| closer: "k < length (closers s) \<Longrightarrow> closer_step k s = Some s' \<Longrightarrow> pool_step s s'"

text \<open>A thread can go on by itself: without a new call of submit or shutdown and without a spurious wake-up.\<close>

definition can_move :: "'a pool \<Rightarrow> bool" where
  "can_move s \<longleftrightarrow>
     (\<exists>i < length (workers s). worker_step i s \<noteq> None) \<or>
     (\<exists>j < length (pushers s). pusher_step False j s \<noteq> None \<or> pushers s ! j = PNotify) \<or>
     (\<exists>k < length (closers s). closers s ! k \<noteq> SIdle \<and> closer_step k s \<noteq> None)"

text \<open>Commands, to run the pool along a given interleaving.\<close>

datatype 'a pool_cmd = Submit nat 'a | Pusher nat | Worker nat | Notify nat nat | Closer nat

fun pool_exec :: "'a pool_cmd \<Rightarrow> 'a pool \<Rightarrow> 'a pool" where
  "pool_exec (Submit j x) s = (if j < length (pushers s) \<and> pushers s ! j = PIdle then submit j x s else s)"
| "pool_exec (Pusher j) s =
     (if j < length (pushers s) then case pusher_step False j s of None \<Rightarrow> s | Some s' \<Rightarrow> s' else s)"
| "pool_exec (Worker i) s =
     (if i < length (workers s) then case worker_step i s of None \<Rightarrow> s | Some s' \<Rightarrow> s' else s)"
| "pool_exec (Notify j i) s =
     (if j < length (pushers s) \<and> pushers s ! j = PNotify \<and> i < length (workers s) \<and> workers s ! i = WWait
      then set_pusher j PIdle (set_worker i WLock s) else s)"
| "pool_exec (Closer k) s =
     (if k < length (closers s) then case closer_step k s of None \<Rightarrow> s | Some s' \<Rightarrow> s' else s)"

lemma pool_exec_steps: "pool_step\<^sup>*\<^sup>* s (pool_exec c s)"
proof (cases c)
  case (Notify j i)
  then show ?thesis using pool_step.notify [of j s i] by (auto intro: r_into_rtranclp)
qed (auto split: option.split intro: pool_step.intros)

lemma pool_run_steps: "pool_step\<^sup>*\<^sup>* s (fold pool_exec cs s)"
  by (induction cs arbitrary: s) (auto intro: pool_exec_steps rtranclp_trans)

end
