(* ===== verification/ThreadPool.thy ===== *)
theory ThreadPool
  imports LockFreeTaskQueue
begin

text \<open>
  include/ThreadPool.hpp: what holds in every interleaving of the threads of the pool.  The
  invariants say what the counters of the queue count, who holds the mutex, which positions of
  the ring are published, when a worker may leave, which jobs were run, what shutdown has done,
  and that a waiting item is never left alone with sleeping workers.
\<close>

lemma pusher_frame:
  assumes "pusher_step full j s = Some s'"
  shows "workers s' = workers s" "closers s' = closers s" "shut s' = shut s" "hpos s' = hpos s"
    "parkMtx s' = parkMtx s" "executed s' = executed s" "completed s' = completed s"
  using assms unfolding pusher_step_def by (auto split: ppc.splits if_splits)

lemma closer_frame:
  assumes "closer_step k s = Some s'"
  shows "workers s' = workers s \<or> workers s' = map wake (workers s)" "shut s \<Longrightarrow> shut s'"
    "pushers s' = pushers s" "hpos s' = hpos s" "items s' = items s"
  using assms unfolding closer_step_def by (auto split: spc.splits if_splits)

section \<open>Counters\<close>

fun slp :: "'a wpc \<Rightarrow> int" where
  "slp WTop = 0" | "slp (WSpin n) = 0" | "slp (WGot x) = 0" | "slp WSpinEnd = 0" | "slp WAnnounce = 0"
| "slp WLast = 0" | "slp (WRun x) = 0" | "slp WExit = 0" | "slp _ = 1"

fun spn :: "'a wpc \<Rightarrow> int" where
  "spn (WSpin n) = 1" | "spn (WGot x) = 1" | "spn WSpinEnd = 1" | "spn _ = 0"

fun inflight :: "'a ppc \<Rightarrow> int" where
  "inflight PIdle = 0" | "inflight PRmw = 0" | "inflight PSpin = 0" | "inflight PLock = 0"
| "inflight PNotify = 0" | "inflight _ = 1"

definition counts_ok :: "'a pool \<Rightarrow> bool" where
  "counts_ok s \<longleftrightarrow> sleepers s = sum_list (map slp (workers s)) \<and> spinners s = sum_list (map spn (workers s)) \<and>
     pushersInFlight s = sum_list (map inflight (pushers s))"

lemma wake_weights: "slp (wake p) = slp p" "spn (wake p) = spn p"
  by (cases p; simp)+

lemma counts_step:
  assumes "counts_ok s" and "pool_step s s'"
  shows "counts_ok s'"
  using assms(2)
proof cases
  case (worker i)
  with assms(1) show ?thesis
    by (cases "workers s ! i")
      (auto simp: worker_step_def pop_or_def counts_ok_def sum_upd_int split: if_splits nat.splits)
next
  case (pusher j full)
  with assms(1) show ?thesis
    by (cases "pushers s ! j")
      (auto simp: pusher_step_def counts_ok_def sum_upd_int split: if_splits)
next
  case (closer k)
  with assms(1) show ?thesis
    by (cases "closers s ! k")
      (auto simp: closer_step_def counts_ok_def comp_def wake_weights split: if_splits)
qed (use assms(1) in \<open>auto simp: counts_ok_def sum_upd_int submit_def\<close>)

section \<open>The mutex\<close>

fun holds :: "'a wpc \<Rightarrow> bool" where
  "holds WTail = True" | "holds (WHead t) = True" | "holds WFlag = True" | "holds WBlock = True"
| "holds _ = False"

definition lock_ok :: "'a pool \<Rightarrow> bool" where
  "lock_ok s \<longleftrightarrow> (\<forall>i < length (workers s). holds (workers s ! i) \<longleftrightarrow> parkMtx s = Some i) \<and>
     (\<forall>i. parkMtx s = Some i \<longrightarrow> i < length (workers s))"

lemma holds_wake [simp]: "holds (wake p) = holds p"
  by (cases p) auto

lemma lock_step:
  assumes "lock_ok s" and "pool_step s s'"
  shows "lock_ok s'"
  using assms(2)
proof cases
  case (worker i)
  have "holds (workers s ! i) \<longleftrightarrow> parkMtx s = Some i" using assms(1) worker(1) by (simp add: lock_ok_def)
  with worker assms(1) show ?thesis
    by (cases "workers s ! i")
      (auto simp: worker_step_def pop_or_def lock_ok_def nth_list_update split: if_splits nat.splits)
next
  case (pusher j full)
  with assms(1) show ?thesis by (simp add: lock_ok_def pusher_frame [OF pusher(2)])
next
  case (closer k)
  with assms(1) show ?thesis
    by (cases "closers s ! k") (auto simp: closer_step_def lock_ok_def split: if_splits)
qed (use assms(1) in \<open>auto simp: lock_ok_def nth_list_update submit_def\<close>)

section \<open>Publication\<close>

definition position_ok :: "'a pool \<Rightarrow> bool" where
  "position_ok s \<longleftrightarrow> hpos s \<le> length (items s) \<and> length (items s) \<le> hpos s + capacity s \<and>
     (\<forall>p < length (items s). p \<notin> published s \<longrightarrow> PPub p \<in> set (pushers s)) \<and>
     (\<forall>p. PPub p \<in> set (pushers s) \<longrightarrow> p < length (items s))"

lemma position_step:
  assumes "position_ok s" and "pool_step s s'"
  shows "position_ok s'"
  using assms(2)
proof cases
  case (worker i)
  with assms(1) show ?thesis
    by (cases "workers s ! i")
      (auto simp: worker_step_def pop_or_def position_ok_def can_pop_def split: if_splits nat.splits)
next
  case (pusher j full)
  show ?thesis
  proof (cases "pushers s ! j")
    case (PTry x)
    with pusher assms(1) show ?thesis
      by (auto simp: pusher_step_def position_ok_def less_Suc_eq mem_upd split: if_splits dest: in_set_update)
  next
    case (PPub p)
    have "q = p \<or> PPub q \<in> set ((pushers s)[j := PDec])" if "PPub q \<in> set (pushers s)" for q
      using that PPub mem_upd_other [OF pusher(1), of "PPub q" PDec] by auto
    moreover have "PPub q \<in> set (pushers s)" if "PPub q \<in> set ((pushers s)[j := PDec])" for q
      using in_set_update [OF that] by simp
    moreover have "s' = set_pusher j PDec (s\<lparr>published := insert p (published s)\<rparr>)"
      using PPub pusher(2) by (simp add: pusher_step_def)
    ultimately show ?thesis using assms(1) unfolding position_ok_def by simp metis
  qed (use pusher assms(1) in \<open>auto simp: pusher_step_def position_ok_def mem_upd split: if_splits\<close>)
next
  case (closer k)
  with assms(1) show ?thesis
    by (cases "closers s ! k") (auto simp: closer_step_def position_ok_def split: if_splits)
qed (use assms(1) in \<open>auto simp: position_ok_def submit_def mem_upd\<close>)


section \<open>Leaving\<close>

fun leaving :: "'a wpc \<Rightarrow> bool" where
  "leaving WLeave = True" | "leaving WLast = True" | "leaving WExit = True" | "leaving _ = False"

fun open_push :: "'a ppc \<Rightarrow> bool" where
  "open_push (PTry x) = True" | "open_push (PFull x) = True" | "open_push (PPub p) = True"
| "open_push PDec = True" | "open_push _ = False"

definition drain_ok :: "'a pool \<Rightarrow> bool" where
  "drain_ok s \<longleftrightarrow>
     (WPushers \<in> set (workers s) \<longrightarrow> shut s) \<and>
     ((\<exists>w \<in> set (workers s). leaving w) \<longrightarrow> shut s \<and> (\<forall>p \<in> set (pushers s). \<not> open_push p)) \<and>
     (WExit \<in> set (workers s) \<longrightarrow> hpos s = length (items s))"

lemma no_inflight:
  assumes "counts_ok s" and "pushersInFlight s = 0"
  shows "\<forall>p \<in> set (pushers s). \<not> open_push p"
proof
  fix p assume p: "p \<in> set (pushers s)"
  have "0 \<le> inflight q" for q :: "'a ppc" by (cases q) auto
  then have "inflight p \<le> sum_list (map inflight (pushers s))"
    using p by (intro member_le_sum_list) auto
  with assms have "inflight p \<le> 0" by (simp add: counts_ok_def)
  then show "\<not> open_push p" by (cases p) auto
qed

lemma leaving_wake [simp]: "leaving (wake p) = leaving p"
  by (cases p) auto

lemma wake_eq: "wake p = WPushers \<longleftrightarrow> p = WPushers" "wake p = WExit \<longleftrightarrow> p = WExit" "wake p = WBlock \<longleftrightarrow> p = WBlock"
  "wake p \<noteq> WWait"
  by (cases p; simp)+

lemma wake_mem:
  "WPushers \<in> wake ` A \<longleftrightarrow> WPushers \<in> A" "WExit \<in> wake ` A \<longleftrightarrow> WExit \<in> A"
  "WBlock \<in> wake ` A \<longleftrightarrow> WBlock \<in> A" "WWait \<notin> wake ` A"
  using wake_eq by (metis image_iff)+

lemma drain_worker:
  assumes d: "drain_ok s" and c: "counts_ok s" and r: "position_ok s"
    and i: "i < length (workers s)" and st: "worker_step i s = Some s'"
  shows "drain_ok s'"
proof -
  have mem: "workers s ! i \<in> set (workers s)" using i by simp
  define w where "w = workers s' ! i"
  have w': "workers s' = (workers s)[i := w]" "pushers s' = pushers s" "shut s' = shut s" "items s' = items s"
    using st i unfolding w_def worker_step_def pop_or_def by (auto split: wpc.splits if_splits nat.splits)
  have sh: "w = WPushers \<Longrightarrow> shut s"
    using st i unfolding w_def worker_step_def pop_or_def by (auto split: wpc.splits if_splits nat.splits)
  have lv: "leaving w \<Longrightarrow> leaving (workers s ! i) \<or> workers s ! i = WPushers \<and> pushersInFlight s = 0"
    using st i unfolding w_def worker_step_def pop_or_def by (auto split: wpc.splits if_splits nat.splits)
  have ex: "w = WExit \<Longrightarrow> workers s ! i = WLast \<and> \<not> can_pop s \<or> workers s ! i = WExit"
    using st i unfolding w_def worker_step_def pop_or_def by (auto split: wpc.splits if_splits nat.splits)
  have hp: "hpos s' = hpos s \<or> can_pop s"
    using st i unfolding w_def worker_step_def pop_or_def by (auto split: wpc.splits if_splits nat.splits)
  have A: "shut s \<and> (\<forall>p \<in> set (pushers s). \<not> open_push p)" if "\<exists>u \<in> set (workers s'). leaving u"
    using ex_upd [OF that [unfolded w'(1)]] lv d no_inflight [OF c] mem unfolding drain_ok_def by metis
  have hx: "hpos s' = hpos s \<and> hpos s = length (items s)" if e: "WExit \<in> set (workers s')"
  proof -
    from A e have np: "\<forall>p \<in> set (pushers s). \<not> open_push p" by force
    have "hpos s = length (items s)"
    proof (rule ccontr)
      assume ne: "hpos s \<noteq> length (items s)"
      with d e w' in_set_update [of WExit "workers s" i w] have "w = WExit" by (auto simp: drain_ok_def)
      with ex d mem ne have "\<not> can_pop s" by (auto simp: drain_ok_def)
      with ne r have "PPub (hpos s) \<in> set (pushers s)" by (auto simp: can_pop_def position_ok_def)
      with np show False by force
    qed
    with hp show ?thesis by (auto simp: can_pop_def)
  qed
  have "shut s" if "WPushers \<in> set (workers s')"
    using in_set_update [OF that [unfolded w'(1)]] sh d by (auto simp: drain_ok_def)
  with A hx show ?thesis unfolding drain_ok_def w'(2-4) by auto
qed

lemma drain_step:
  assumes d: "drain_ok s" and c: "counts_ok s" and r: "position_ok s" and st: "pool_step s s'"
  shows "drain_ok s'"
  using st
proof cases
  case (worker i)
  with drain_worker [OF d c r] show ?thesis by blast
next
  case (spurious i)
  then have "\<And>w. w \<in> set ((workers s)[i := WLock]) \<Longrightarrow> w \<noteq> WLock \<Longrightarrow> w \<in> set (workers s)"
    using in_set_update by fast
  with spurious d show ?thesis unfolding drain_ok_def by fastforce
next
  case (submits j x)
  have "\<not> open_push p" if "p \<in> set ((pushers s)[j := PCheck x])" "\<forall>p \<in> set (pushers s). \<not> open_push p" for p
    using in_set_update [OF that(1)] that(2) by auto
  with submits d show ?thesis by (auto simp: drain_ok_def submit_def)
next
  case (pusher j full)
  have mem: "pushers s ! j \<in> set (pushers s)" using pusher(1) by simp
  define p where "p = pushers s' ! j"
  have p': "pushers s' = (pushers s)[j := p]" "workers s' = workers s" "shut s' = shut s" "hpos s' = hpos s"
    using pusher unfolding p_def pusher_step_def by (auto split: ppc.splits if_splits)
  have op: "open_push p \<Longrightarrow> open_push (pushers s ! j) \<or> \<not> shut s"
    using pusher unfolding p_def pusher_step_def by (auto split: ppc.splits if_splits)
  have it: "items s' = items s \<or> open_push (pushers s ! j)"
    using pusher unfolding p_def pusher_step_def by (auto split: ppc.splits if_splits)
  have "\<forall>q \<in> set (pushers s'). \<not> open_push q" "items s' = items s" if "\<exists>w \<in> set (workers s). leaving w"
    using that d op it mem in_set_update [of _ "pushers s" j p] unfolding p'(1) drain_ok_def by blast+
  with d p' show ?thesis unfolding drain_ok_def by (metis leaving.simps(3))
next
  case (notify j i)
  then have "\<And>w. w \<in> set ((workers s)[i := WLock]) \<Longrightarrow> w \<noteq> WLock \<Longrightarrow> w \<in> set (workers s)"
    "\<And>p. p \<in> set ((pushers s)[j := PIdle]) \<Longrightarrow> p \<noteq> PIdle \<Longrightarrow> p \<in> set (pushers s)"
    using in_set_update by fast+
  with notify d show ?thesis unfolding drain_ok_def by fastforce
next
  case (notify_none j)
  then have "\<And>p. p \<in> set ((pushers s)[j := PIdle]) \<Longrightarrow> p \<noteq> PIdle \<Longrightarrow> p \<in> set (pushers s)"
    using in_set_update by fast
  with notify_none d show ?thesis unfolding drain_ok_def by fastforce
next
  case (closer k)
  note fr = closer_frame [OF closer(2)]
  have "WPushers \<in> set (workers s') \<longleftrightarrow> WPushers \<in> set (workers s)"
    "WExit \<in> set (workers s') \<longleftrightarrow> WExit \<in> set (workers s)"
    "(\<exists>w \<in> set (workers s'). leaving w) \<longleftrightarrow> (\<exists>w \<in> set (workers s). leaving w)"
    using fr(1) by (elim disjE; simp add: wake_mem)+
  with d fr(2-5) show ?thesis unfolding drain_ok_def by metis
qed


section \<open>Executed jobs\<close>

fun held :: "'a wpc \<Rightarrow> 'a multiset" where
  "held (WGot x) = {#x#}" | "held (WTook x) = {#x#}" | "held (WRun x) = {#x#}" | "held _ = {#}"

definition exec_ok :: "'a pool \<Rightarrow> bool" where
  "exec_ok s \<longleftrightarrow> completed s = length (executed s) \<and>
     mset (take (hpos s) (items s)) = mset (executed s) + sum_list (map held (workers s))"

lemma held_wake [simp]: "held (wake p) = held p"
  by (cases p) auto

lemma nobody_holds: "\<forall>w \<in> set ws. held w = {#} \<Longrightarrow> sum_list (map held ws) = {#}"
  by (induction ws) auto

lemma held_upd:
  assumes "i < length ws" and "M = E + sum_list (map held ws)" and "M' + E + held (ws ! i) = M + E' + held v"
  shows "M' = E' + sum_list (map held (ws[i := v]))"
proof -
  have "M' + E + held (ws ! i) = E + (E' + (sum_list (map held ws) + held v))"
    unfolding assms(3) assms(2) by (simp only: ac_simps)
  also have "\<dots> = E + (E' + (sum_list (map held (ws[i := v])) + held (ws ! i)))"
    using sum_list_map_update [OF assms(1), of held v] by simp
  finally show ?thesis by (simp add: ac_simps)
qed

lemma exec_step:
  assumes e: "exec_ok s" and r: "position_ok s" and st: "pool_step s s'"
  shows "exec_ok s'"
  using st
proof cases
  case (worker i)
  have M: "mset (take (hpos s) (items s)) = mset (executed s) + sum_list (map held (workers s))"
    "completed s = length (executed s)" using e by (simp_all add: exec_ok_def)
  have pop: "mset (take (Suc (hpos s)) (items s)) = mset (take (hpos s) (items s)) + {#items s ! hpos s#}"
    if "can_pop s" using that by (simp add: can_pop_def take_Suc_conv_app_nth)
  define w where "w = workers s' ! i"
  have w': "workers s' = (workers s)[i := w]" "items s' = items s" "completed s' = length (executed s')"
    using worker M(2) unfolding w_def worker_step_def pop_or_def by (auto split: wpc.splits if_splits nat.splits)
  have "mset (take (hpos s') (items s)) + mset (executed s) + held (workers s ! i) =
      mset (take (hpos s) (items s)) + mset (executed s') + held w"
    using worker pop unfolding w_def worker_step_def pop_or_def by (auto split: wpc.splits if_splits nat.splits)
  from held_upd [OF worker(1) M(1) this] w' show ?thesis by (simp add: exec_ok_def)
next
  case (pusher j full)
  with e r show ?thesis
    by (cases "pushers s ! j") (auto simp: pusher_step_def exec_ok_def position_ok_def split: if_splits)
next
  case (closer k)
  with e show ?thesis
    by (cases "closers s ! k") (auto simp: closer_step_def exec_ok_def comp_def split: if_splits)
next
  case (spurious i)
  with e sum_list_map_update [of i "workers s" held WLock] show ?thesis
    by (simp add: exec_ok_def)
next
  case (notify j i)
  with e sum_list_map_update [of i "workers s" held WLock] show ?thesis
    by (simp add: exec_ok_def)
qed (use e in \<open>auto simp: exec_ok_def submit_def\<close>)

section \<open>Shutdown wakes everybody\<close>

definition close_ok :: "'a pool \<Rightarrow> bool" where
  "close_ok s \<longleftrightarrow>
     (SLock \<in> set (closers s) \<or> SNotify \<in> set (closers s) \<or> SJoin \<in> set (closers s) \<longrightarrow> shut s) \<and>
     (SNotify \<in> set (closers s) \<or> SJoin \<in> set (closers s) \<longrightarrow> WBlock \<notin> set (workers s)) \<and>
     (SJoin \<in> set (closers s) \<longrightarrow> WWait \<notin> set (workers s))"

lemma no_holder:
  assumes "lock_ok s" and "parkMtx s = None"
  shows "\<forall>w \<in> set (workers s). \<not> holds w"
  using assms by (auto simp: lock_ok_def in_set_conv_nth)

lemma close_step:
  assumes c: "close_ok s" and l: "lock_ok s" and st: "pool_step s s'"
  shows "close_ok s'"
  using st
proof cases
  case (worker i)
  define w where "w = workers s' ! i"
  have mem: "workers s ! i \<in> set (workers s)" using worker(1) by simp
  have w': "workers s' = (workers s)[i := w]" "closers s' = closers s" "shut s' = shut s"
    "w = WBlock \<Longrightarrow> \<not> shut s" "w = WWait \<Longrightarrow> workers s ! i = WBlock"
    using worker unfolding w_def worker_step_def pop_or_def by (auto split: wpc.splits if_splits nat.splits)
  have up: "p = w \<or> p \<in> set (workers s)" if "p \<in> set (workers s')" for p
    using in_set_update that w'(1) by metis
  have "WBlock \<in> set (workers s) \<or> \<not> shut s" if "WBlock \<in> set (workers s')"
    using up [OF that] w'(4) by auto
  moreover have "WWait \<in> set (workers s) \<or> WBlock \<in> set (workers s)" if "WWait \<in> set (workers s')"
    using up [OF that] w'(5) mem by auto
  ultimately show ?thesis using c unfolding close_ok_def w'(2,3) by (intro conjI impI; simp; metis)
next
  case (pusher j full)
  with c show ?thesis by (simp add: close_ok_def pusher_frame [OF pusher(2)])
next
  case (closer k)
  have mem: "closers s ! k \<in> set (closers s)" using closer(1) by simp
  note up = mem_upd [OF closer(1)]
  show ?thesis
  proof (cases "closers s ! k")
    case SIdle
    with closer(2) have "s' = s\<lparr>closers := (closers s)[k := SDone]\<rparr> \<or>
        s' = s\<lparr>shuttingDown := True, closers := (closers s)[k := SStore]\<rparr>"
      by (cases "shuttingDown s") (simp_all add: closer_step_def)
    with SIdle c show ?thesis by (elim disjE) (simp_all add: close_ok_def up)
  next
    case SStore
    with closer(2) have "s' = s\<lparr>shut := True, closers := (closers s)[k := SLock]\<rparr>" by (simp add: closer_step_def)
    with SStore c show ?thesis by (simp add: close_ok_def up)
  next
    case SLock
    then have l': "parkMtx s = None" "s' = s\<lparr>closers := (closers s)[k := SNotify]\<rparr>"
      using closer(2) by (auto simp: closer_step_def split: if_splits)
    have "WBlock \<notin> set (workers s)" using no_holder [OF l l'(1)] by force
    moreover have "shut s" using c mem SLock by (simp add: close_ok_def)
    ultimately show ?thesis using c SLock by (simp add: l'(2) close_ok_def up)
  next
    case SNotify
    then have "s' = s\<lparr>workers := map wake (workers s), closers := (closers s)[k := SJoin]\<rparr>"
      using closer(2) by (simp add: closer_step_def)
    moreover have "shut s" "WBlock \<notin> set (workers s)" using c mem SNotify by (simp_all add: close_ok_def)
    ultimately show ?thesis by (simp add: close_ok_def wake_mem)
  next
    case SJoin
    then have "s' = s\<lparr>closers := (closers s)[k := SDone]\<rparr>"
      using closer(2) by (auto simp: closer_step_def split: if_splits)
    moreover have "shut s" "WBlock \<notin> set (workers s)" "WWait \<notin> set (workers s)"
      using c mem SJoin by (simp_all add: close_ok_def)
    ultimately show ?thesis by (simp add: close_ok_def)
  qed (use closer(2) in \<open>simp add: closer_step_def\<close>)
next
  case (spurious i)
  have "WWait \<in> set (workers s)" using spurious(2,3) by (metis nth_mem)
  with spurious c show ?thesis by (simp add: close_ok_def mem_upd)
next
  case (notify j i)
  have "WWait \<in> set (workers s)" using notify(4,5) by (metis nth_mem)
  with notify c show ?thesis by (simp add: close_ok_def mem_upd)
qed (use c in \<open>simp_all add: close_ok_def submit_def\<close>)


section \<open>No lost wake-up\<close>

fun blind :: "nat \<Rightarrow> 'a wpc \<Rightarrow> bool" where
  "blind h WWait = True" | "blind h WBlock = True" | "blind h WFlag = True" | "blind h (WHead t) = (t \<le> h)"
| "blind h _ = False"

definition awake :: "nat \<Rightarrow> 'a wpc \<Rightarrow> bool" where
  "awake h w \<longleftrightarrow> w \<noteq> WExit \<and> \<not> blind h w"

fun pending :: "'a ppc \<Rightarrow> bool" where
  "pending (PPub p) = True" | "pending PDec = True" | "pending PRmw = True" | "pending PSpin = True"
| "pending PLock = True" | "pending _ = False"

definition somebody_comes :: "'a pool \<Rightarrow> bool" where
  "somebody_comes s \<longleftrightarrow>
     (\<exists>w \<in> set (workers s). awake (hpos s) w) \<or> (\<exists>p \<in> set (pushers s). pending p) \<or>
     (\<forall>w \<in> set (workers s). \<not> (holds w \<and> blind (hpos s) w)) \<and> PNotify \<in> set (pushers s) \<and> WWait \<in> set (workers s)"

definition wake_ok :: "'a pool \<Rightarrow> bool" where
  "wake_ok s \<longleftrightarrow> (hpos s < length (items s) \<and> (\<exists>w \<in> set (workers s). w \<noteq> WExit) \<longrightarrow> somebody_comes s)"

lemma awake_comes: "w \<in> set (workers s) \<Longrightarrow> awake (hpos s) w \<Longrightarrow> somebody_comes s"
  unfolding somebody_comes_def by blast

lemma pending_comes: "p \<in> set (pushers s) \<Longrightarrow> pending p \<Longrightarrow> somebody_comes s"
  unfolding somebody_comes_def by blast

lemma blind_slp: "blind h w \<Longrightarrow> slp w = 1"
  by (cases w) auto

lemma weights_nonneg: "0 \<le> slp w" "0 \<le> spn w"
  by (cases w; simp)+

lemma no_sleeper:
  assumes "counts_ok s" and "\<not> 0 < sleepers s" and "w \<in> set (workers s)"
  shows "\<not> blind h w"
proof
  assume "blind h w"
  moreover have "slp w \<le> sum_list (map slp (workers s))"
    using assms(3) by (intro member_le_sum_list) (auto simp: weights_nonneg)
  ultimately show False using assms(1,2) blind_slp [of h w] by (simp add: counts_ok_def)
qed

lemma a_spinner:
  assumes "counts_ok s" and "spinners s \<noteq> 0"
  shows "\<exists>w \<in> set (workers s). awake h w"
proof -
  have "\<exists>w \<in> set (workers s). spn w \<noteq> 0"
  proof (rule ccontr)
    assume "\<not> ?thesis"
    then have "map spn (workers s) = map (\<lambda>_. 0) (workers s)" by (intro map_cong) auto
    with assms show False by (simp add: counts_ok_def sum_list_triv)
  qed
  moreover have "awake h w" if "spn w \<noteq> 0" for w :: "'a wpc" using that by (cases w) (auto simp: awake_def)
  ultimately show ?thesis by blast
qed

lemma asleep_step:
  assumes "i < length (workers s)" and "worker_step i s = Some s'"
    and "hpos s' < length (items s')" and "\<not> awake (hpos s') (workers s' ! i)" and "workers s' ! i \<noteq> WExit"
  shows "holds (workers s ! i) \<and> blind (hpos s) (workers s ! i) \<and> hpos s' = hpos s"
  using assms unfolding worker_step_def pop_or_def can_pop_def awake_def
  by (auto split: wpc.splits if_splits nat.splits)

lemma worker_frame:
  assumes "i < length (workers s)" and "worker_step i s = Some s'"
  shows "workers s' = (workers s)[i := workers s' ! i]" "pushers s' = pushers s" "items s' = items s"
    "hpos s \<le> hpos s'" "workers s ! i \<noteq> WExit"
  using assms unfolding worker_step_def pop_or_def by (auto split: wpc.splits if_splits nat.splits)

lemma wake_worker:
  assumes w: "wake_ok s" and d: "drain_ok s'" and i: "i < length (workers s)" and st: "worker_step i s = Some s'"
  shows "wake_ok s'"
  unfolding wake_ok_def
proof (intro impI; elim conjE)
  assume lt: "hpos s' < length (items s')"
  note fr = worker_frame [OF i st]
  have mem': "workers s' ! i \<in> set (workers s')" using i fr(1) by (metis length_list_update nth_mem)
  have mem: "workers s ! i \<in> set (workers s)" using i by simp
  show "somebody_comes s'"
  proof (cases "awake (hpos s') (workers s' ! i)")
    case True
    with awake_comes mem' show ?thesis by blast
  next
    case False
    have nx: "workers s' ! i \<noteq> WExit" using d lt mem' unfolding drain_ok_def by force
    note o = asleep_step [OF i st lt False nx]
    have "somebody_comes s" using w mem fr(3,5) lt o unfolding wake_ok_def by metis
    then consider u where "u \<in> set (workers s)" "awake (hpos s) u" | p where "p \<in> set (pushers s)" "pending p"
      using o mem unfolding somebody_comes_def by blast
    then show ?thesis
    proof cases
      case 1
      then obtain k where k: "k < length (workers s)" "workers s ! k = u" by (auto simp: in_set_conv_nth)
      with 1 o have "k \<noteq> i" by (auto simp: awake_def)
      with k have "workers s' ! k = u" "k < length (workers s')" using fr(1) by (metis nth_list_update_neq length_list_update)+
      with 1 o show ?thesis using awake_comes nth_mem by metis
    next
      case 2
      with fr(2) pending_comes show ?thesis by metis
    qed
  qed
qed

lemma wake_pusher:
  assumes w: "wake_ok s" and c: "counts_ok s" and l: "lock_ok s"
    and j: "j < length (pushers s)" and st: "pusher_step full j s = Some s'"
  shows "wake_ok s'"
  unfolding wake_ok_def
proof (intro impI; elim conjE)
  assume lt: "hpos s' < length (items s')" and al: "\<exists>w \<in> set (workers s'). w \<noteq> WExit"
  note fr = pusher_frame [OF st]
  define p where "p = pushers s' ! j"
  have p': "pushers s' = (pushers s)[j := p]"
    using j st unfolding p_def pusher_step_def by (auto split: ppc.splits if_splits)
  have mem: "p \<in> set (pushers s')" using p' j by (simp add: mem_upd_self)
  obtain u where u: "u \<in> set (workers s)" "u \<noteq> WExit" using al fr(1) by auto
  have aw: "somebody_comes s'" if "u' \<in> set (workers s)" "awake (hpos s) u'" for u'
    using awake_comes [of u' s'] that fr by simp
  show "somebody_comes s'"
  proof (cases "pending p")
    case True
    with mem pending_comes show ?thesis by blast
  next
    case np: False
    show ?thesis
    proof (cases "pending (pushers s ! j)")
      case True
      with np j st consider "\<not> 0 < sleepers s" | "spinners s \<noteq> 0" | "parkMtx s = None" "p = PNotify"
        unfolding p_def pusher_step_def by (auto split: ppc.splits if_splits)
      then show ?thesis
      proof cases
        case 1
        then show ?thesis using aw [OF u(1)] no_sleeper [OF c 1 u(1)] u(2) by (simp add: awake_def)
      next
        case 2
        then show ?thesis using a_spinner [OF c 2] aw by blast
      next
        case 3
        have nh: "\<forall>w \<in> set (workers s). \<not> holds w" using no_holder [OF l 3(1)] .
        show ?thesis
        proof (cases "awake (hpos s) u")
          case False
          then have "u = WWait" using nh u by (cases u) (auto simp: awake_def)
          then show ?thesis using nh mem 3 u(1) unfolding somebody_comes_def fr by blast
        qed (use aw u(1) in blast)
      qed
    next
      case False
      have same: "items s' = items s" "pushers s ! j \<noteq> PNotify" "p \<noteq> PNotify"
        using np j st False unfolding p_def pusher_step_def by (auto split: ppc.splits if_splits)
      have "q \<in> set (pushers s')" if "q \<in> set (pushers s)" "pending q" for q
        using mem_upd_other [OF j, of q p] that False np p' by metis
      moreover have "PNotify \<in> set (pushers s') \<longleftrightarrow> PNotify \<in> set (pushers s)"
        unfolding p' by (rule mem_upd_other [OF j same(2,3)])
      moreover have "somebody_comes s" using w lt u same(1) fr unfolding wake_ok_def by metis
      ultimately show ?thesis unfolding somebody_comes_def fr by blast
    qed
  qed
qed

lemma comes_pusher:
  assumes "j < length (pushers s)" and "\<not> pending (pushers s ! j)" and "\<not> pending p"
    and "workers t = workers s" and "hpos t = hpos s" and "items t = items s" and "pushers t = (pushers s)[j := p]"
    and "pushers s ! j = PNotify \<Longrightarrow> WWait \<notin> set (workers s)" and "p \<noteq> PNotify"
    and "wake_ok s"
  shows "wake_ok t"
proof -
  have a: "q \<in> set (pushers t)" if "q \<in> set (pushers s)" "pending q" for q
    using mem_upd_other [OF assms(1), of q p] that assms(2,3,7) by metis
  have b: "PNotify \<in> set (pushers t)" if "PNotify \<in> set (pushers s)" "WWait \<in> set (workers s)"
    using mem_upd_other [OF assms(1), of PNotify p] that assms(7-9) by metis
  have "somebody_comes t" if "somebody_comes s"
    using that a b unfolding somebody_comes_def assms(4,5) by blast
  with assms(10) show ?thesis unfolding wake_ok_def assms(4-6) by blast
qed

lemma awake_WLock [simp]: "awake h WLock"
  by (simp add: awake_def)

lemma woken_ok:
  assumes "i < length (workers s)" and "workers t = (workers s)[i := WLock]"
  shows "wake_ok t"
  unfolding wake_ok_def using awake_comes [of WLock t] assms by (simp add: mem_upd_self)

lemma awake_wake: "awake h u \<or> u = WWait \<Longrightarrow> awake h (wake u)"
  by (cases u) (auto simp: awake_def)

lemma comes_closer:
  assumes "somebody_comes s" and "pushers t = pushers s" and "hpos t = hpos s" and "workers t = map wake (workers s)"
  shows "somebody_comes t"
proof -
  consider u where "u \<in> set (workers s)" "awake (hpos s) u \<or> u = WWait" | p where "p \<in> set (pushers s)" "pending p"
    using assms(1) unfolding somebody_comes_def by blast
  then show ?thesis
  proof cases
    case 1
    then show ?thesis using awake_comes [of "wake u" t] awake_wake [OF 1(2)] assms(3,4) by simp
  next
    case 2
    then show ?thesis using pending_comes [of p t] assms(2) by simp
  qed
qed

lemma wake_closer:
  assumes w: "wake_ok s" and st: "closer_step k s = Some s'"
  shows "wake_ok s'"
  using closer_frame(1) [OF st]
proof
  note fr = closer_frame(3-5) [OF st]
  assume "workers s' = workers s"
  with w fr show ?thesis by (simp add: wake_ok_def somebody_comes_def)
next
  note fr = closer_frame(3-5) [OF st]
  assume ws: "workers s' = map wake (workers s)"
  have "\<exists>u \<in> set (workers s). u \<noteq> WExit" if "\<exists>u \<in> set (workers s'). u \<noteq> WExit"
    using that wake_eq(2) unfolding ws by auto
  with w comes_closer [OF _ fr(1,2) ws] show ?thesis unfolding wake_ok_def fr(2,3) by blast
qed

lemma wake_step:
  assumes w: "wake_ok s" and c: "counts_ok s" and l: "lock_ok s" and d: "drain_ok s'" and st: "pool_step s s'"
  shows "wake_ok s'"
  using st
proof cases
  case (worker i)
  from wake_worker [OF w d this] show ?thesis .
next
  case (spurious i)
  then show ?thesis by (intro woken_ok [of i s]) simp_all
next
  case (submits j x)
  show ?thesis
    by (rule comes_pusher [of j s "PCheck x"]) (use submits w in \<open>simp_all add: submit_def\<close>)
next
  case (pusher j full)
  from wake_pusher [OF w c l this] show ?thesis .
next
  case (notify j i)
  then show ?thesis by (intro woken_ok [of i s]) simp_all
next
  case (notify_none j)
  show ?thesis
    by (rule comes_pusher [of j s PIdle]) (use notify_none w in simp_all)
next
  case (closer k)
  from wake_closer [OF w this(2)] show ?thesis .
qed


section \<open>The end\<close>

definition end_ok :: "'a pool \<Rightarrow> bool" where
  "end_ok s \<longleftrightarrow> workers s \<noteq> [] \<and>
     (shut s \<longrightarrow> (\<exists>c \<in> {SLock, SNotify, SJoin}. c \<in> set (closers s)) \<or> (\<forall>w \<in> set (workers s). w = WExit))"

lemma all_exit_step:
  assumes "\<forall>w \<in> set (workers s). w = WExit" and "i < length (workers s)"
  shows "worker_step i s = None"
proof -
  have "workers s ! i = WExit" using assms by simp
  then show ?thesis by (simp add: worker_step_def)
qed

lemma end_closer:
  assumes e: "end_ok s" and k: "k < length (closers s)" and st: "closer_step k s = Some s'"
  shows "end_ok s'"
proof -
  have up: "c \<in> set ((closers s)[k := c'])" if "c \<in> set (closers s)" "c \<noteq> closers s ! k" for c c'
    using that mem_upd [OF k] by metis
  have ne: "workers s' \<noteq> []" using e closer_frame(1) [OF st] by (auto simp: end_ok_def)
  show ?thesis
  proof (cases "closers s ! k")
    case SIdle
    with st have "s' = s\<lparr>closers := (closers s)[k := SDone]\<rparr> \<or>
        s' = s\<lparr>shuttingDown := True, closers := (closers s)[k := SStore]\<rparr>"
      by (cases "shuttingDown s") (simp_all add: closer_step_def)
    with e up SIdle show ?thesis unfolding end_ok_def by (elim disjE; simp; blast)
  next
    case SJoin
    with st ne show ?thesis by (auto simp: closer_step_def end_ok_def split: if_splits)
  qed (use st ne mem_upd_self [OF k] in \<open>auto simp: closer_step_def end_ok_def split: if_splits\<close>)
qed

lemma end_step:
  assumes e: "end_ok s" and st: "pool_step s s'"
  shows "end_ok s'"
  using st
proof cases
  case (worker i)
  then have "\<not> (\<forall>w \<in> set (workers s). w = WExit)" using all_exit_step by force
  moreover have "closers s' = closers s" "shut s' = shut s" "length (workers s') = length (workers s)"
    using worker unfolding worker_step_def pop_or_def by (auto split: wpc.splits if_splits nat.splits)
  ultimately show ?thesis using e unfolding end_ok_def by (metis length_0_conv)
next
  case (spurious i)
  then have "WWait \<in> set (workers s)" by (metis nth_mem)
  with spurious e show ?thesis by (auto simp: end_ok_def)
next
  case (notify j i)
  then have "WWait \<in> set (workers s)" by (metis nth_mem)
  with notify e show ?thesis by (auto simp: end_ok_def)
next
  case (pusher j full)
  with e show ?thesis by (simp add: end_ok_def pusher_frame [OF pusher(2)])
next
  case (closer k)
  from end_closer [OF e this] show ?thesis .
qed (use e in \<open>simp_all add: end_ok_def submit_def\<close>)

section \<open>The invariant of the pool\<close>

definition pool_inv :: "'a pool \<Rightarrow> bool" where
  "pool_inv s \<longleftrightarrow> counts_ok s \<and> lock_ok s \<and> position_ok s \<and> drain_ok s \<and> exec_ok s \<and> close_ok s \<and> wake_ok s \<and> end_ok s"

definition pool_starts :: "'a pool \<Rightarrow> bool" where
  "pool_starts s \<longleftrightarrow> (\<exists>c hw n m k. new_pool c hw n m k = Some s)"

lemma pool_inv_start:
  assumes "pool_starts s"
  shows "pool_inv s"
proof -
  obtain c hw n m k where new: "new_pool c hw n m k = Some s" using assms unfolding pool_starts_def by blast
  define r where "r = (if n = 0 then 1 else n)"
  have s: "items s = []" "published s = {}" "hpos s = 0" "\<not> shut s"
      "sleepers s = 0" "spinners s = 0" "pushersInFlight s = 0" "parkMtx s = None" "executed s = []" "completed s = 0"
    and r: "workers s = replicate r WTop" "pushers s = replicate m PIdle" "closers s = replicate k SIdle"
    using new unfolding new_pool_def r_def by auto
  have "0 < r" unfolding r_def by simp
  moreover have "sum_list (map held (workers s)) = {#}" by (rule nobody_holds) (simp add: r(1))
  ultimately show ?thesis
    unfolding pool_inv_def counts_ok_def lock_ok_def position_ok_def drain_ok_def exec_ok_def close_ok_def
      wake_ok_def end_ok_def
    by (simp add: s r sum_list_replicate)
qed

interpretation tp: invariant_system pool_starts pool_step pool_inv
proof
  show "pool_inv s" if "pool_starts s" for s :: "'a pool" using that by (rule pool_inv_start)
  show "pool_inv t" if i: "pool_inv s" and st: "pool_step s t" for s t :: "'a pool"
  proof -
    have s: "counts_ok s" "lock_ok s" "position_ok s" "drain_ok s" "exec_ok s" "close_ok s" "wake_ok s" "end_ok s"
      using i by (simp_all add: pool_inv_def)
    have d: "drain_ok t" by (rule drain_step [OF s(4,1,3) st])
    show ?thesis unfolding pool_inv_def
      using counts_step [OF s(1) st] lock_step [OF s(2) st] position_step [OF s(3) st] d
        exec_step [OF s(5,3) st] close_step [OF s(6,2) st] wake_step [OF s(7,1,2) d st] end_step [OF s(8) st]
      by blast
  qed
qed

lemma pool_reachable:
  assumes "new_pool c hw n m k = Some s0" and "pool_step\<^sup>*\<^sup>* s0 s"
  shows "counts_ok s" "lock_ok s" "position_ok s" "drain_ok s" "exec_ok s" "close_ok s" "wake_ok s" "end_ok s"
proof -
  have "pool_starts s0" using assms(1) unfolding pool_starts_def by blast
  from tp.reachable_inv [OF this assms(2)]
  show "counts_ok s" "lock_ok s" "position_ok s" "drain_ok s" "exec_ok s" "close_ok s" "wake_ok s" "end_ok s"
    by (simp_all add: pool_inv_def)
qed

section \<open>Quiescence\<close>

lemma stuck_mutex:
  assumes "lock_ok s" and "\<not> can_move s"
  shows "parkMtx s = None"
proof (rule ccontr)
  assume "parkMtx s \<noteq> None"
  then obtain i where "parkMtx s = Some i" by blast
  with assms(1) have "i < length (workers s)" "holds (workers s ! i)" by (auto simp: lock_ok_def)
  moreover from this have "worker_step i s \<noteq> None" by (cases "workers s ! i") (auto simp: worker_step_def)
  ultimately show False using assms(2) unfolding can_move_def by blast
qed

lemma stuck_worker:
  assumes "lock_ok s" and "\<not> can_move s" and "w \<in> set (workers s)"
  shows "w = WWait \<or> w = WExit"
proof -
  obtain i where i: "i < length (workers s)" "workers s ! i = w" using assms(3) by (auto simp: in_set_conv_nth)
  with assms(2) have "worker_step i s = None" unfolding can_move_def by blast
  with i stuck_mutex [OF assms(1,2)] show ?thesis by (cases w) (auto simp: worker_step_def split: if_splits)
qed

lemma stuck_pusher:
  assumes "lock_ok s" and "\<not> can_move s" and "p \<in> set (pushers s)"
  shows "p = PIdle"
proof -
  obtain j where j: "j < length (pushers s)" "pushers s ! j = p" using assms(3) by (auto simp: in_set_conv_nth)
  with assms(2) have "pusher_step False j s = None" "p \<noteq> PNotify" unfolding can_move_def by blast+
  with j stuck_mutex [OF assms(1,2)] show ?thesis by (cases p) (auto simp: pusher_step_def split: if_splits)
qed

lemma stuck_closer:
  assumes "lock_ok s" and "\<not> can_move s" and "c \<in> set (closers s)" and "close_ok s"
  shows "c = SIdle \<or> c = SDone"
proof -
  obtain k where k: "k < length (closers s)" "closers s ! k = c" using assms(3) by (auto simp: in_set_conv_nth)
  with assms(2) have n: "c = SIdle \<or> closer_step k s = None" unfolding can_move_def by blast
  have "w = WExit" if "w \<in> set (workers s)" "c = SJoin" for w
    using stuck_worker [OF assms(1,2) that(1)] assms(3,4) that by (auto simp: close_ok_def)
  with n k stuck_mutex [OF assms(1,2)] show ?thesis by (cases c) (auto simp: closer_step_def split: if_splits)
qed

text \<open>
  C5. No wake-up is lost: in every interleaving, when a job waits in the queue, no submit is
  half done and some worker has not ended, then some worker is not asleep.  So a job is never
  left in the queue with every worker waiting for a notification.  The queueCapacity \<open>c\<close> is at
  least 2, because a ring of one cell does not keep the interface of the queue (C39).
\<close>

theorem no_lost_wakeup:
  assumes "new_pool c hw n m k = Some s0" and "pool_step\<^sup>*\<^sup>* s0 s"
    and "0 < queueDepth s" and "\<forall>p \<in> set (pushers s). p = PIdle" and "\<exists>w \<in> set (workers s). w \<noteq> WExit"
    and "2 \<le> c"
  shows "\<exists>w \<in> set (workers s). w \<noteq> WExit \<and> w \<noteq> WWait \<and> w \<noteq> WBlock"
proof -
  have "somebody_comes s" using pool_reachable(7) [OF assms(1,2)] assms(3,5) by (simp add: wake_ok_def queueDepth_def)
  then have "\<exists>w \<in> set (workers s). awake (hpos s) w" using assms(4) by (force simp: somebody_comes_def)
  then show ?thesis by (auto simp: awake_def)
qed

lemma stuck_facts:
  assumes "new_pool c hw n m k = Some s0" and "pool_step\<^sup>*\<^sup>* s0 s" and "\<not> can_move s"
  shows "queueDepth s = 0 \<and> mset (executed s) = mset (items s) \<and> completedCount s = length (items s) \<and>
    set (pushers s) \<subseteq> {PIdle} \<and> set (closers s) \<subseteq> {SIdle, SDone} \<and>
    set (workers s) \<subseteq> (if shut s then {WExit} else {WWait, WExit})"
proof -
  note I = pool_reachable [OF assms(1,2)]
  note W = stuck_worker [OF I(2) assms(3)] and P = stuck_pusher [OF I(2) assms(3)]
    and C = stuck_closer [OF I(2) assms(3) _ I(6)]
  have none: "\<not> somebody_comes s" unfolding somebody_comes_def using W P by (force simp: awake_def)
  have empty: "hpos s = length (items s)"
  proof (cases "\<forall>w \<in> set (workers s). w = WExit")
    case True
    then have "WExit \<in> set (workers s)" using I(8) by (cases "workers s") (auto simp: end_ok_def)
    with I(4) show ?thesis by (simp add: drain_ok_def)
  next
    case False
    with none I(3,7) show ?thesis unfolding wake_ok_def position_ok_def by auto
  qed
  have "sum_list (map held (workers s)) = {#}" by (rule nobody_holds) (use W in force)
  with I(5) empty have ex: "mset (executed s) = mset (items s)" "completed s = length (executed s)"
    by (simp_all add: exec_ok_def)
  have "w = WExit" if "shut s" "w \<in> set (workers s)" for w
    using I(8) that C by (force simp: end_ok_def)
  with empty ex size_mset [of "executed s"] W P C show ?thesis
    by (auto simp: queueDepth_def completedCount_def simp flip: size_mset)
qed

text \<open>
  C4. The pool cannot get stuck with work left: when no worker, no submitting thread and no
  thread in shutdown can go on by itself, every accepted job has been run exactly once and
  counted, every submit has returned, and the workers wait or have ended; after shutdown was
  begun, all of them have ended and every call of shutdown has returned.  The queueCapacity \<open>c\<close> of
  the constructor is at least 2 here and in the other properties of the pool: a ring of one cell
  does not keep the interface its queue relies on (C39).
\<close>

theorem pool_quiescence:
  assumes "new_pool c hw n m k = Some s0" and "pool_step\<^sup>*\<^sup>* s0 s" and "\<not> can_move s" and "2 \<le> c"
  shows "queueDepth s = 0 \<and> mset (executed s) = mset (items s) \<and> completedCount s = length (items s) \<and>
    set (pushers s) \<subseteq> {PIdle} \<and> set (closers s) \<subseteq> {SIdle, SDone} \<and>
    set (workers s) \<subseteq> (if shut s then {WExit} else {WWait, WExit})"
  by (rule stuck_facts [OF assms(1-3)])

text \<open>
  A thread that waits for the future of a submitted task is not left waiting: when nothing can go
  on any more, the future of every task is ready or reports a broken promise, and it is the
  latter only for a task that was not accepted.
\<close>

lemma futures_resolve:
  assumes "new_pool c hw n m k = Some s0" and "pool_step\<^sup>*\<^sup>* s0 s" and "\<not> can_move s"
  shows "future_of x s = (if x \<in> set (items s) then Ready else Broken)"
proof -
  note S = stuck_facts [OF assms]
  have "set (executed s) = set (items s)" using S mset_eq_setD by blast
  moreover have "p \<notin> set (pushers s)" if "p \<noteq> PIdle" for p using S that by blast
  ultimately show ?thesis by (simp add: future_of_def)
qed

text \<open>
  C20. Shutdown drops nothing: when one worker has ended, shutdown was called, no submit can
  still be accepted and the queue is empty; when all workers have ended, which is what shutdown
  waits for, the jobs that were run are exactly the accepted ones, each once.  The queueCapacity
  \<open>c\<close> is at least 2, see C4: in a ring of one cell an accepted job can be overwritten (C39).
\<close>

theorem shutdown_drops_nothing:
  assumes "new_pool c hw n m k = Some s0" and "pool_step\<^sup>*\<^sup>* s0 s" and "WExit \<in> set (workers s)" and "2 \<le> c"
  shows "shut s \<and> queueDepth s = 0 \<and> (\<forall>p \<in> set (pushers s). \<not> open_push p) \<and>
    (set (workers s) = {WExit} \<longrightarrow> mset (executed s) = mset (items s) \<and> completedCount s = length (items s))"
proof -
  note I = pool_reachable [OF assms(1,2)]
  have lv: "\<exists>w \<in> set (workers s). leaving w" using assms(3) by force
  have d: "shut s" "\<forall>p \<in> set (pushers s). \<not> open_push p" "hpos s = length (items s)"
    using I(4) lv assms(3) unfolding drain_ok_def by blast+
  have "mset (executed s) = mset (items s)" "completed s = length (items s)" if "set (workers s) = {WExit}"
  proof -
    have "sum_list (map held (workers s)) = {#}" by (rule nobody_holds) (use that in simp)
    with I(5) d(3) show e: "mset (executed s) = mset (items s)" by (simp add: exec_ok_def)
    from mset_eq_length [OF this] I(5) show "completed s = length (items s)" by (simp add: exec_ok_def)
  qed
  with d show ?thesis by (simp add: queueDepth_def completedCount_def)
qed

section \<open>Two runs\<close>

text \<open>Two workers on a machine with two hardware threads, so that one worker may spin at a time.\<close>

definition two_workers :: "nat pool" where
  "two_workers = the (new_pool 2 2 2 1 1)"

lemma two_workers_start: "new_pool 2 2 2 1 1 = Some two_workers"
  by code_simp

text \<open>The second worker is asleep when a job is submitted; the first one spins, so nobody is notified.\<close>

definition sleepy_run :: "nat pool" where
  "sleepy_run = fold pool_exec
     ([Worker 0] @ replicate 10 (Worker 1) @ [Submit 0 7] @ replicate 6 (Pusher 0)) two_workers"

text \<open>A job is taken, the pool is shut down, and both workers end.\<close>

definition last_run :: "nat pool" where
  "last_run = fold pool_exec
     ([Worker 0, Submit 0 7] @ replicate 5 (Pusher 0) @ [Worker 0] @ replicate 4 (Closer 0) @
      [Worker 1, Worker 0, Worker 0, Worker 0] @ replicate 7 (Worker 1) @ replicate 7 (Worker 0) @ [Closer 0])
     two_workers"

lemma run_steps: "pool_step\<^sup>*\<^sup>* two_workers sleepy_run" "pool_step\<^sup>*\<^sup>* two_workers last_run"
  unfolding sleepy_run_def last_run_def by (rule pool_run_steps)+

lemma sleepy_run_facts:
  "workers sleepy_run = [WSpin kSpins, WWait] \<and> pushers sleepy_run = [PIdle] \<and> queueDepth sleepy_run = 1"
  by code_simp

lemma last_run_facts:
  "workers last_run = [WExit, WExit] \<and> items last_run = [7] \<and> pushers last_run = [PIdle] \<and>
   closers last_run = [SDone] \<and> shut last_run \<and> \<not> can_move last_run"
  by code_simp

theorem no_lost_wakeup_witness:
  "workers sleepy_run ! 1 = WWait \<and> 0 < queueDepth sleepy_run \<and>
   (\<exists>w \<in> set (workers sleepy_run). w \<noteq> WExit \<and> w \<noteq> WWait \<and> w \<noteq> WBlock)"
  using no_lost_wakeup [OF two_workers_start run_steps(1)] sleepy_run_facts by simp

theorem pool_quiescence_witness:
  "mset (executed last_run) = {#7#} \<and> completedCount last_run = 1 \<and> set (workers last_run) \<subseteq> {WExit}"
  using pool_quiescence [OF two_workers_start run_steps(2)] last_run_facts by simp

theorem shutdown_drops_nothing_witness:
  "shut last_run \<and> queueDepth last_run = 0 \<and> mset (executed last_run) = {#7#}"
  using shutdown_drops_nothing [OF two_workers_start run_steps(2)] last_run_facts by simp

end
