(* ===== verification/Positions.thy ===== *)
theory Positions
  imports ThreadPool
begin

text \<open>
  The interface between the ring and the queue that uses it: positions are claimed in order up to
  the capacity, published by their claimants in any order, and handed out in order once they are
  published.  The ring of include/LockFreeRing.hpp implements it, access by access, and the steps
  of the pool use nothing else of the ring.
\<close>

section \<open>The interface\<close>

record 'a positions =
  entries :: "'a list"
  readable :: "nat set"
  front :: nat

definition ready :: "'a positions \<Rightarrow> bool" where
  "ready q \<longleftrightarrow> front q < length (entries q) \<and> front q \<in> readable q"

inductive pos_step :: "nat \<Rightarrow> 'a positions \<Rightarrow> 'a positions \<Rightarrow> bool" for cap :: nat where
  same: "pos_step cap q q"
| claim: "length (entries q) < front q + cap \<Longrightarrow> pos_step cap q (q\<lparr>entries := entries q @ [x]\<rparr>)"
| publish: "p < length (entries q) \<Longrightarrow> pos_step cap q (q\<lparr>readable := insert p (readable q)\<rparr>)"
| take: "ready q \<Longrightarrow> pos_step cap q (q\<lparr>front := front q + 1\<rparr>)"

definition pos_ok :: "nat \<Rightarrow> 'a positions \<Rightarrow> bool" where
  "pos_ok cap q \<longleftrightarrow> front q \<le> length (entries q) \<and> length (entries q) \<le> front q + cap \<and>
     readable q \<subseteq> {..<length (entries q)} \<and> {..<front q} \<subseteq> readable q"

lemma pos_step_ok: "pos_step cap q q' \<Longrightarrow> pos_ok cap q \<Longrightarrow> pos_ok cap q'"
  by (induction rule: pos_step.induct) (auto simp: pos_ok_def ready_def lessThan_Suc)

lemma pos_step_grows:
  "pos_step cap q q' \<Longrightarrow> (\<exists>xs. entries q' = entries q @ xs) \<and> readable q \<subseteq> readable q' \<and> front q \<le> front q'"
  by (induction rule: pos_step.induct) auto

text \<open>A component whose steps are steps of a position queue.\<close>

locale position_queue =
  fixes step :: "'s \<Rightarrow> 's \<Rightarrow> bool"
    and good :: "'s \<Rightarrow> bool"
    and abs :: "'s \<Rightarrow> 'a positions"
    and cap :: "'s \<Rightarrow> nat"
  assumes good_step: "good s \<Longrightarrow> step s t \<Longrightarrow> good t"
    and sim: "good s \<Longrightarrow> step s t \<Longrightarrow> pos_step (cap s) (abs s) (abs t)"
    and cap_const: "good s \<Longrightarrow> step s t \<Longrightarrow> cap t = cap s"
begin

lemma run_simulated:
  assumes "step\<^sup>*\<^sup>* s t" and "good s"
  shows "good t \<and> cap t = cap s \<and> (pos_step (cap s))\<^sup>*\<^sup>* (abs s) (abs t)"
  using assms
proof (induction rule: rtranclp_induct)
  case (step u v)
  then have u: "good u" "cap u = cap s" "(pos_step (cap s))\<^sup>*\<^sup>* (abs s) (abs u)" by simp_all
  with good_step sim cap_const step(2) show ?case by (metis rtranclp.rtrancl_into_rtrancl)
qed simp

lemma run_ok: "step\<^sup>*\<^sup>* s t \<Longrightarrow> good s \<Longrightarrow> pos_ok (cap s) (abs s) \<Longrightarrow> pos_ok (cap t) (abs t)"
proof (induction rule: rtranclp_induct)
  case (step u v)
  have "good u" using run_simulated [OF step(1,4)] by simp
  with step pos_step_ok [OF sim] cap_const show ?case by metis
qed simp

lemma run_grows:
  assumes "step\<^sup>*\<^sup>* s t" and "good s"
  shows "(\<exists>xs. entries (abs t) = entries (abs s) @ xs) \<and> readable (abs s) \<subseteq> readable (abs t) \<and>
    front (abs s) \<le> front (abs t)"
  using assms
proof (induction rule: rtranclp_induct)
  case (step u v)
  have "good u" using run_simulated [OF step(1,4)] by simp
  from pos_step_grows [OF sim [OF this step(2)]] step.IH [OF step(4)] show ?case by fastforce
qed simp

end

section \<open>The ring\<close>

definition ring_positions :: "'a rconf \<Rightarrow> 'a positions" where
  "ring_positions s =
     \<lparr>entries = pushed s, readable = {..<length (pushed s)} - claimed push_claim (rpcs s), front = taken s\<rparr>"

definition ring_small :: "'a rconf \<Rightarrow> bool" where
  "ring_small s \<longleftrightarrow> length (pushed s) + length (cells (rg s)) < 2 ^ 62"

lemma representative:
  fixes q T C :: nat
  assumes "q < T" and "0 < C"
  obtains p where "q \<le> p" "p < T" "T \<le> p + C" "p mod C = q mod C" "p = q \<or> q + C \<le> p"
proof
  let ?k = "(T - 1 - q) div C" and ?r = "(T - 1 - q) mod C"
  have e: "T - 1 - q = C * ?k + ?r" by (simp only: mult_div_mod_eq)
  have "?r < C" using assms(2) by simp
  show "q \<le> q + C * ?k" "(q + C * ?k) mod C = q mod C" by simp_all
  show "q + C * ?k < T" using e assms(1) by linarith
  show "T \<le> q + C * ?k + C" using e assms(1) \<open>?r < C\<close> by linarith
  show "q + C * ?k = q \<or> q + C \<le> q + C * ?k" by (cases ?k) simp_all
qed

text \<open>A sequence number below its reader's expectation: the position is not published.\<close>

lemma cells_seq_lower:
  assumes ok: "cells_ok C T H sq dt pu wr rd" and q: "q < T" and f: "q < H \<or> q \<notin> wr"
  shows "q + 1 \<le> sq (q mod C)"
proof -
  note D = cells_okD [OF ok]
  obtain p where p: "q \<le> p" "p < T" "T \<le> p + C" "p mod C = q mod C" "p = q \<or> q + C \<le> p"
    using representative [OF q, of C] D(1) by auto
  from ok p(2,3) show ?thesis
    by (rule cells_ok_status) (use p D(1) D(6) [of p] f in auto)
qed

lemma empty_answer:
  assumes good: "ring_good s" and small: "ring_small s"
    and act: "ring_act dflt spurious (rg s) (rpcs s t) = (r', PopRet None)" and n: "rpcs s t \<noteq> PopRet None"
  shows "\<not> ready (ring_positions s)"
proof
  assume rd: "ready (ring_positions s)"
  note D = ring_coreD [OF ring_goodD(4) [OF good]]
  note C = cells_okD [OF D(1)] and pc = D(2) [of t]
  from act n obtain pos where pos: "rpcs s t = PopPos pos" "diff (seq (cell_at (rg s) pos)) (pos + 1) < 0"
    by (cases "rpcs s t") (auto simp: Let_def split: if_splits)
  with pc have le: "unat pos \<le> taken s" by simp
  have H: "taken s < length (pushed s)" "taken s \<notin> claimed push_claim (rpcs s)"
    using rd by (simp_all add: ready_def ring_positions_def)
  have succ: "unat (pos + 1) = unat pos + 1" using small le H by (intro unat_succ) (simp add: ring_small_def)
  have "unat pos + 1 \<le> sq_of (rg s) (unat pos mod length (cells (rg s)))"
    by (rule cells_seq_lower [OF D(1)]) (use le H in \<open>auto simp: le_less\<close>)
  moreover have "unat (pos + 1) < 2 ^ 63" using succ small le H by (simp add: ring_small_def)
  from diff_at [OF good small [unfolded ring_small_def] this, of pos] pos(2)
  have "int (sq_of (rg s) (unat pos mod length (cells (rg s)))) < int (unat (pos + 1))" by linarith
  then have "sq_of (rg s) (unat pos mod length (cells (rg s))) < unat pos + 1" unfolding succ by (simp only: of_nat_less_iff)
  ultimately show False by simp
qed

lemma same_claims:
  assumes "claims_unique push_claim (rpcs s)" and "push_claim q = push_claim (rpcs s t)"
    and "pushed s' = pushed s" and "taken s' = taken s" and "rpcs s' = (rpcs s)(t := q)"
  shows "ring_positions s' = ring_positions s"
  using claimed_upd [OF assms(1), of t q] claims_subset [of push_claim "rpcs s" t] assms
  by (auto simp: ring_positions_def)

lemma ring_act_positions:
  assumes good: "ring_good s" and act: "ring_act dflt spurious (rg s) (rpcs s t) = (r', p')"
    and s': "s' = (ghost_act s (rpcs s t) p')\<lparr>rg := r', rpcs := (rpcs s)(t := p')\<rparr>"
  shows "pos_step (length (cells (rg s))) (ring_positions s) (ring_positions s')"
proof -
  note G = ring_goodD [OF good] and D = ring_coreD [OF ring_goodD(4) [OF good]]
  note C = cells_okD [OF D(1)] and pc = D(2) [of t] and cl = claimed_upd [OF D(3), of t]
  have same: "pos_step (length (cells (rg s))) (ring_positions s) (ring_positions s')"
    if "push_claim p' = push_claim (rpcs s t)" "pushed s' = pushed s" "taken s' = taken s"
    using same_claims [OF D(3) that] s' by (simp add: pos_step.same)
  show ?thesis
  proof (cases "rpcs s t")
    case (PushCas x pos)
    show ?thesis
    proof (cases "tail (rg s) = pos \<and> \<not> spurious")
      case True
      have p': "p' = PushOwn x pos" "unat pos = length (pushed s)" using act PushCas True G(2) by auto
      have T: "length (pushed s) < taken s + length (cells (rg s))"
        using pc PushCas p'(2) cells_next_free(1) [OF D(1)] by simp
      have "ring_positions s' = (ring_positions s)\<lparr>entries := entries (ring_positions s) @ [x]\<rparr>"
        using cl [of p'] PushCas p' C(6) unfolding s' ring_positions_def ghost_act_def by auto
      then show ?thesis by (simp only:) (rule pos_step.claim, use T in \<open>simp add: ring_positions_def\<close>)
    next
      case False
      with act PushCas s' show ?thesis by (intro same) (auto simp: ghost_act_def)
    qed
  next
    case (PopCas pos)
    show ?thesis
    proof (cases "head (rg s) = pos \<and> \<not> spurious")
      case True
      have p': "p' = PopOwn pos" "unat pos = taken s" using act PopCas True G(3) by auto
      have sq: "sq_of (rg s) (taken s mod length (cells (rg s))) = taken s + 1" using pc PopCas p'(2) by simp
      then have "taken s \<notin> claimed push_claim (rpcs s)" using C(6) [of "taken s"] by auto
      with cells_next_full(1) [OF D(1) sq] have "ready (ring_positions s)"
        by (simp add: ready_def ring_positions_def)
      moreover have "ring_positions s' = (ring_positions s)\<lparr>front := front (ring_positions s) + 1\<rparr>"
        using cl [of p'] PopCas p' unfolding s' ring_positions_def ghost_act_def by auto
      ultimately show ?thesis by (simp only: pos_step.take)
    next
      case False
      with act PopCas s' show ?thesis by (intro same) (auto simp: ghost_act_def)
    qed
  next
    case (PushPub pos)
    have p': "p' = PushRet True" using act PushPub by auto
    have lt: "unat pos < length (pushed s)" using claim_bound [OF good, of t] PushPub by simp
    have "ring_positions s' = (ring_positions s)\<lparr>readable := insert (unat pos) (readable (ring_positions s))\<rparr>"
      using cl [of p'] PushPub p' lt unfolding s' ring_positions_def ghost_act_def by auto
    then show ?thesis by (simp only:) (rule pos_step.publish, use lt in \<open>simp add: ring_positions_def\<close>)
  qed (rule same; use act s' in \<open>auto simp: ghost_act_def Let_def split: if_splits rpc.splits\<close>)+
qed

lemma ring_step_positions:
  assumes good: "ring_good s" and st: "ring_step dflt s s'"
  shows "pos_step (length (cells (rg s))) (ring_positions s) (ring_positions s')"
    and "length (cells (rg s')) = length (cells (rg s))"
proof -
  note D = ring_coreD [OF ring_goodD(4) [OF good]]
  have same: "pos_step (length (cells (rg s))) (ring_positions s) (ring_positions s')"
    if "s' = s\<lparr>rpcs := (rpcs s)(t := q)\<rparr>" "push_claim q = push_claim (rpcs s t)" for t q
    using same_claims [OF D(3) that(2), of s'] that(1) by (simp add: pos_step.same)
  from st show "pos_step (length (cells (rg s))) (ring_positions s) (ring_positions s')"
  proof cases
    case (act spurious t r' p')
    from ring_act_positions [OF good act(2,1)] show ?thesis .
  next
    case (call_push t x)
    then show ?thesis by (intro same [of t "PushPos x (tail (rg s))"]) simp_all
  next
    case (call_pop t)
    then show ?thesis by (intro same [of t "PopPos (head (rg s))"]) simp_all
  next
    case (ret t)
    then show ?thesis by (intro same [of t RIdle]) auto
  qed
  from st show "length (cells (rg s')) = length (cells (rg s))"
  proof cases
    case (act spurious t r' p')
    have "length (cells r') = length (cells (rg s))"
      using act(2) by (cases "rpcs s t") (auto simp: Let_def split: if_splits)
    with act(1) show ?thesis by simp
  qed simp_all
qed

definition bounded_ring_step :: "'a \<Rightarrow> 'a rconf \<Rightarrow> 'a rconf \<Rightarrow> bool" where
  "bounded_ring_step dflt s t \<longleftrightarrow> ring_step dflt s t \<and> ring_small t"

interpretation rq: position_queue "bounded_ring_step dflt" "\<lambda>s. ring_good s \<and> ring_small s" ring_positions
  "\<lambda>s. length (cells (rg s))" for dflt
proof (unfold_locales, goal_cases)
  case (1 s t)
  then show ?case using ring_step_inv [of s dflt t] by (simp add: bounded_ring_step_def ring_inv_def ring_small_def)
next
  case (2 s t)
  then show ?case unfolding bounded_ring_step_def by (elim conjE) (rule ring_step_positions(1))
next
  case (3 s t)
  then show ?case unfolding bounded_ring_step_def by (elim conjE) (rule ring_step_positions(2))
qed

section \<open>The pool\<close>

definition pool_positions :: "'a pool \<Rightarrow> 'a positions" where
  "pool_positions s = \<lparr>entries = items s, readable = published s, front = hpos s\<rparr>"

lemma pool_ready: "can_pop s \<longleftrightarrow> ready (pool_positions s)"
  by (simp add: can_pop_def ready_def pool_positions_def)

lemma pool_step_positions:
  assumes ok: "position_ok s" and st: "pool_step s t"
  shows "pos_step (capacity s) (pool_positions s) (pool_positions t)" and "capacity t = capacity s"
proof -
  have same: "pos_step (capacity s) (pool_positions s) (pool_positions t)"
    if "items t = items s" "published t = published s" "hpos t = hpos s"
    using that by (simp add: pool_positions_def pos_step.same)
  from st show "pos_step (capacity s) (pool_positions s) (pool_positions t)"
  proof cases
    case (worker i)
    have i: "items t = items s" "published t = published s" "hpos t = hpos s \<or> can_pop s \<and> hpos t = hpos s + 1"
      using worker unfolding worker_step_def pop_or_def by (auto split: wpc.splits if_splits nat.splits)
    then show ?thesis
      using pos_step.take [of "pool_positions s" "capacity s"] same by (auto simp: pool_ready pool_positions_def)
  next
    case (pusher j full)
    have mem: "pushers s ! j \<in> set (pushers s)" using pusher(1) by simp
    show ?thesis
    proof (cases "pushers s ! j")
      case (PTry x)
      with pusher pos_step.claim [of "pool_positions s" "capacity s" x] show ?thesis
        by (auto simp: pusher_step_def pool_positions_def intro: pos_step.same split: if_splits)
    next
      case (PPub p)
      with mem ok have "p < length (items s)" by (simp add: position_ok_def)
      with PPub pusher pos_step.publish [of p "pool_positions s" "capacity s"] show ?thesis
        by (auto simp: pusher_step_def pool_positions_def)
    qed (rule same; use pusher in \<open>auto simp: pusher_step_def split: if_splits\<close>)+
  next
    case (closer k)
    then show ?thesis unfolding closer_step_def by (intro same) (auto split: spc.splits if_splits)
  qed (rule same; simp add: submit_def)+
  from st show "capacity t = capacity s"
  proof cases
    case (worker i)
    then show ?thesis unfolding worker_step_def pop_or_def by (auto split: wpc.splits if_splits nat.splits)
  next
    case (pusher j full)
    then show ?thesis unfolding pusher_step_def by (auto split: ppc.splits if_splits)
  next
    case (closer k)
    then show ?thesis unfolding closer_step_def by (auto split: spc.splits if_splits)
  qed (simp_all add: submit_def)
qed

interpretation pq: position_queue pool_step pool_inv pool_positions capacity
proof (unfold_locales, goal_cases)
  case (1 s t)
  then show ?case by (rule tp.step_inv)
next
  case (2 s t)
  then show ?case using pool_step_positions(1) unfolding pool_inv_def by blast
next
  case (3 s t)
  then show ?case using pool_step_positions(2) unfolding pool_inv_def by blast
qed

section \<open>The ring implements the interface\<close>

lemma ring_small_back:
  assumes "ring_step dflt s t" and "ring_small t"
  shows "ring_small s"
  using assms(1)
proof cases
  case (act spurious k r' p')
  have "length (cells r') = length (cells (rg s))"
    using act(2) by (cases "rpcs s k") (auto simp: Let_def split: if_splits)
  with act(1) assms(2) show ?thesis by (auto simp: ring_small_def ghost_act_def split: rpc.splits)
qed (use assms(2) in \<open>simp_all add: ring_small_def\<close>)

lemma bounded_run:
  assumes "(ring_step dflt)\<^sup>*\<^sup>* s t" and "ring_small t"
  shows "ring_small s \<and> (bounded_ring_step dflt)\<^sup>*\<^sup>* s t"
  using assms
proof (induction rule: converse_rtranclp_induct)
  case (step u v)
  then have "ring_small v" "(bounded_ring_step dflt)\<^sup>*\<^sup>* v t" by simp_all
  moreover from this step(1) have "bounded_ring_step dflt u v" by (simp add: bounded_ring_step_def)
  ultimately show ?case using ring_small_back [OF step(1)] by (meson converse_rtranclp_into_rtranclp)
qed simp

text \<open>
  C3. The ring implements the interface the pool relies on: every access of every thread either
  changes nothing that can be seen, or claims the next position while there is room, publishes a
  claimed position, or hands out the front position once it is published; and try\_pop reports
  that the ring is empty only at a moment when the front position is not published.
\<close>

theorem ring_refines_positions:
  assumes "new_ring dflt m = Some r" and "2 \<le> unat m" and "unat m \<le> 2 ^ 61"
    and "(ring_step dflt)\<^sup>*\<^sup>* (ring_start r) s" and "ring_step dflt s t"
    and "length (pushed t) + length (cells (rg t)) < 2 ^ 62"
  shows "pos_step (length (cells r)) (ring_positions s) (ring_positions t) \<and>
    pos_ok (length (cells r)) (ring_positions s) \<and>
    (\<forall>k. rpcs t k = PopRet None \<and> rpcs s k \<noteq> PopRet None \<longrightarrow> \<not> ready (ring_positions s))"
proof -
  have small: "ring_small s" using ring_small_back [OF assms(5)] assms(6) by (simp add: ring_small_def)
  have good: "ring_good s" using reachable_good [OF assms(1-4)] small by (simp add: ring_small_def)
  have run: "(bounded_ring_step dflt)\<^sup>*\<^sup>* (ring_start r) s" "ring_small (ring_start r)"
    using bounded_run [OF assms(4) small] by simp_all
  have start: "ring_good (ring_start r) \<and> ring_small (ring_start r)" using start_good(1) [OF assms(1-3)] run(2) by simp
  have C: "length (cells (rg s)) = length (cells r)"
    using rq.run_simulated [OF run(1) start] by (simp add: ring_start_def)
  have "pos_ok (length (cells (rg (ring_start r)))) (ring_positions (ring_start r))"
    by (simp add: pos_ok_def ring_positions_def ring_start_def claimed_def)
  from rq.run_ok [OF run(1) start this] have "pos_ok (length (cells r)) (ring_positions s)" unfolding C .
  moreover have "\<not> ready (ring_positions s)" if k: "rpcs t k = PopRet None" "rpcs s k \<noteq> PopRet None" for k
    using assms(5)
  proof cases
    case (act spurious u r' p')
    from k act(1) have "u = k" "p' = PopRet None" by (auto split: if_splits)
    with act(2) k(2) empty_answer [OF good small, of dflt spurious k r'] show ?thesis by simp
  qed (use k in \<open>auto split: if_splits\<close>)
  ultimately show ?thesis using ring_step_positions(1) [OF good assms(5)] unfolding C by blast
qed

text \<open>On a fresh ring, a try\_pop that has read the sequence number of its cell answers that it is empty.\<close>

definition fresh_ring :: "nat ring" where
  "fresh_ring = the (new_ring 0 2)"

definition asked :: "nat rconf" where
  "asked = ring_exec 0 (Pop 0) (ring_start fresh_ring)"

definition answered_empty :: "nat rconf" where
  "answered_empty = ring_exec 0 (Act 0) asked"

lemma asked_facts:
  "rpcs asked 0 = PopPos 0" "rpcs answered_empty 0 = PopRet None" "pushed answered_empty = []"
  "length (cells (rg answered_empty)) = 2" "length (cells fresh_ring) = 2"
  by code_simp+

lemma asked_step: "ring_step 0 asked answered_empty"
proof -
  obtain r' p' where a: "ring_act 0 False (rg asked) (rpcs asked 0) = (r', p')" by force
  from ring_step.act [OF a] a show ?thesis by (simp add: answered_empty_def)
qed

theorem ring_refines_positions_witness:
  "rpcs answered_empty 0 = PopRet None \<and> \<not> ready (ring_positions asked) \<and>
   pos_step 2 (ring_positions asked) (ring_positions answered_empty)"
proof -
  have new: "new_ring 0 2 = Some fresh_ring" unfolding fresh_ring_def by (rule ring_run_start)
  have "(ring_step 0)\<^sup>*\<^sup>* (ring_start fresh_ring) asked" unfolding asked_def by (rule ring_exec_step)
  from ring_refines_positions [OF new ring_run_bounds(1,2) this asked_step]
  have "pos_step 2 (ring_positions asked) (ring_positions answered_empty)"
    and empty: "\<forall>k. rpcs answered_empty k = PopRet None \<and> rpcs asked k \<noteq> PopRet None \<longrightarrow> \<not> ready (ring_positions asked)"
    by (simp_all add: asked_facts)
  with spec [OF empty, of 0] show ?thesis by (simp add: asked_facts)
qed

end
