(* ===== verification/InlineJob.thy ===== *)
theory InlineJob
  imports Prelude "HOL-Library.Multiset" "HOL-Library.Monad_Syntax"
begin

text \<open>
  include/InlineJob.hpp: the move-only callable with inline storage.  The memory holds InlineJob
  objects, each with its \<open>ops\_\<close> pointer, and the callables that live in their buffers.  Every
  operation yields None where the C++ code would have undefined behaviour: a null \<open>ops\_\<close> is
  called through, a buffer is accessed as a callable of another type or while nothing lives in
  it, or a callable is constructed over a living one.
\<close>

section \<open>Memory\<close>

text \<open>A callable: its type Fn with the properties the constructor asserts, and what it captured.\<close>

record fn_type =
  type_id :: nat
  type_size :: nat
  type_align :: nat
  nothrow_move :: bool

record callable =
  fn :: fn_type
  captured :: nat

type_synonym addr = nat

text \<open>
  \<open>ops\<close>: the living InlineJob objects with their \<open>ops\_\<close>, None being nullptr and Some f being
  \<open>&kOpsFor<f>\<close>.  \<open>buf\<close>: the callables that live in buffers.  For the proofs, \<open>made\<close>, \<open>called\<close>
  and \<open>destroyed\<close> list the callables handed to a job, invoked, and destroyed while they still
  owned what they captured.
\<close>

record job_memory =
  ops :: "addr \<rightharpoonup> fn_type option"
  buf :: "addr \<rightharpoonup> callable"
  made :: "callable list"
  called :: "callable list"
  destroyed :: "callable list"

definition empty_memory :: job_memory where
  "empty_memory = \<lparr>ops = Map.empty, buf = Map.empty, made = [], called = [], destroyed = []\<rparr>"

definition kBufSize :: nat where
  "kBufSize = 128"

definition max_align :: nat where
  "max_align = 16"

definition fits :: "fn_type \<Rightarrow> bool" where
  "fits f \<longleftrightarrow> type_size f \<le> kBufSize \<and> type_align f \<le> max_align \<and> nothrow_move f"

section \<open>The table of a callable type\<close>

text \<open>The callable at \<open>p\<close>, accessed as an \<open>f\<close>.\<close>

definition cast :: "fn_type \<Rightarrow> addr \<Rightarrow> job_memory \<Rightarrow> callable option" where
  "cast f p h = (case buf h p of Some c \<Rightarrow> if fn c = f then Some c else None | None \<Rightarrow> None)"

definition place :: "addr \<Rightarrow> callable \<Rightarrow> job_memory \<Rightarrow> job_memory option" where
  "place p c h = (if buf h p = None then Some (h\<lparr>buf := (buf h)(p \<mapsto> c)\<rparr>) else None)"

definition ops_call :: "fn_type \<Rightarrow> addr \<Rightarrow> job_memory \<Rightarrow> job_memory option" where
  "ops_call f p h = do { c \<leftarrow> cast f p h; Some (h\<lparr>called := called h @ [c]\<rparr>) }"

definition ops_move :: "fn_type \<Rightarrow> addr \<Rightarrow> addr \<Rightarrow> job_memory \<Rightarrow> job_memory option" where
  "ops_move f dst src h = do {
     c \<leftarrow> cast f src h;
     h \<leftarrow> place dst c h;
     Some (h\<lparr>buf := (buf h)(src := None)\<rparr>) }"

definition ops_destroy :: "fn_type \<Rightarrow> addr \<Rightarrow> job_memory \<Rightarrow> job_memory option" where
  "ops_destroy f p h = do {
     c \<leftarrow> cast f p h;
     Some (h\<lparr>buf := (buf h)(p := None), destroyed := destroyed h @ [c]\<rparr>) }"

section \<open>Operations\<close>

definition moveFrom :: "addr \<Rightarrow> addr \<Rightarrow> job_memory \<Rightarrow> job_memory option" where
  "moveFrom this other h = do {
     t \<leftarrow> ops h other;
     let h = h\<lparr>ops := (ops h)(this \<mapsto> t)\<rparr>;
     case t of None \<Rightarrow> Some h
     | Some f \<Rightarrow> do {
         h \<leftarrow> ops_move f this other h;
         Some (h\<lparr>ops := (ops h)(other \<mapsto> None)\<rparr>) } }"

definition reset :: "addr \<Rightarrow> job_memory \<Rightarrow> job_memory option" where
  "reset this h = do {
     t \<leftarrow> ops h this;
     case t of None \<Rightarrow> Some h
     | Some f \<Rightarrow> do {
         h \<leftarrow> ops_destroy f this h;
         Some (h\<lparr>ops := (ops h)(this \<mapsto> None)\<rparr>) } }"

text \<open>\<open>InlineJob()\<close>\<close>

definition job_default :: "addr \<Rightarrow> job_memory \<Rightarrow> job_memory option" where
  "job_default this h = (if ops h this = None then Some (h\<lparr>ops := (ops h)(this \<mapsto> None)\<rparr>) else None)"

text \<open>\<open>InlineJob(F&& f)\<close>; it does not compile for a callable that does not fit.\<close>

definition job_make :: "addr \<Rightarrow> callable \<Rightarrow> job_memory \<Rightarrow> job_memory option" where
  "job_make this c h =
     (if fits (fn c) \<and> ops h this = None then do {
        h \<leftarrow> place this c h;
        Some (h\<lparr>ops := (ops h)(this \<mapsto> Some (fn c)), made := made h @ [c]\<rparr>) }
      else None)"

text \<open>\<open>InlineJob(InlineJob&& other)\<close>\<close>

definition job_move :: "addr \<Rightarrow> addr \<Rightarrow> job_memory \<Rightarrow> job_memory option" where
  "job_move this other h = (if ops h this = None then moveFrom this other h else None)"

text \<open>\<open>operator=(InlineJob&& other)\<close>\<close>

definition job_assign :: "addr \<Rightarrow> addr \<Rightarrow> job_memory \<Rightarrow> job_memory option" where
  "job_assign this other h =
     (if this \<noteq> other then do { h \<leftarrow> reset this h; moveFrom this other h } else Some h)"

definition job_destroy :: "addr \<Rightarrow> job_memory \<Rightarrow> job_memory option" where
  "job_destroy this h = do { h \<leftarrow> reset this h; Some (h\<lparr>ops := (ops h)(this := None)\<rparr>) }"

text \<open>\<open>operator()\<close>\<close>

definition job_call :: "addr \<Rightarrow> job_memory \<Rightarrow> job_memory option" where
  "job_call this h = do { t \<leftarrow> ops h this; f \<leftarrow> t; ops_call f this h }"

section \<open>Programs over jobs\<close>

datatype job_cmd =
    Default addr
  | Make addr callable
  | Move addr addr
  | Assign addr addr
  | Destroy addr
  | Call addr

fun job_exec :: "job_cmd \<Rightarrow> job_memory \<Rightarrow> job_memory option" where
  "job_exec (Default a) h = job_default a h"
| "job_exec (Make a c) h = job_make a c h"
| "job_exec (Move a b) h = job_move a b h"
| "job_exec (Assign a b) h = job_assign a b h"
| "job_exec (Destroy a) h = job_destroy a h"
| "job_exec (Call a) h = job_call a h"

fun job_run :: "job_cmd list \<Rightarrow> job_memory \<Rightarrow> job_memory option" where
  "job_run [] h = Some h"
| "job_run (k # ks) h = do { h \<leftarrow> job_exec k h; job_run ks h }"

text \<open>
  What C++ asks of the caller: objects are constructed where none lives and used where one
  lives; the arguments fit; only a job that holds a callable is called.
\<close>

fun legal :: "job_cmd \<Rightarrow> job_memory \<Rightarrow> bool" where
  "legal (Default a) h = (ops h a = None)"
| "legal (Make a c) h = (ops h a = None \<and> fits (fn c))"
| "legal (Move a b) h = (ops h a = None \<and> ops h b \<noteq> None)"
| "legal (Assign a b) h = (ops h a \<noteq> None \<and> ops h b \<noteq> None)"
| "legal (Destroy a) h = (ops h a \<noteq> None)"
| "legal (Call a) h = (case ops h a of Some (Some f) \<Rightarrow> True | _ \<Rightarrow> False)"

fun legal_run :: "job_cmd list \<Rightarrow> job_memory \<Rightarrow> bool" where
  "legal_run [] h = True"
| "legal_run (k # ks) h = (legal k h \<and> (case job_exec k h of None \<Rightarrow> True | Some h' \<Rightarrow> legal_run ks h'))"

text \<open>
  The trip of a job through the pool.  submit makes the job in the parameter of push, try\_push
  moves it into the cell, the parameter dies; pop has a local job, into which try\_pop moves the
  cell before it assigns an empty job to the cell; the local job is moved into the optional that
  pop returns, which workerLoop calls and destroys.
\<close>

definition push_cmds :: "addr \<Rightarrow> addr \<Rightarrow> callable \<Rightarrow> job_cmd list" where
  "push_cmds cell item c = [Make item c, Assign cell item, Destroy item]"

definition pop_cmds :: "addr \<Rightarrow> addr \<Rightarrow> addr \<Rightarrow> addr \<Rightarrow> job_cmd list" where
  "pop_cmds cell item tmp job =
     [Default item, Assign item cell, Default tmp, Assign cell tmp, Destroy tmp, Move job item, Destroy item,
      Call job, Destroy job]"

text \<open>The operations unfolded, to evaluate a program.\<close>

lemmas job_defs = job_make_def job_default_def job_assign_def job_move_def job_destroy_def job_call_def reset_def
  moveFrom_def ops_call_def ops_move_def ops_destroy_def cast_def place_def

section \<open>Well-formed memories\<close>

text \<open>
  A callable lives in the buffer of a job exactly when its \<open>ops\_\<close> is not null, and then
  \<open>ops\_\<close> is the table of its type; and every callable that was handed to a job either lives in
  one buffer or was destroyed once.
\<close>

fun slot_ok :: "fn_type option option \<Rightarrow> callable option \<Rightarrow> bool" where
  "slot_ok (Some (Some f)) b = (map_option fn b = Some f \<and> fits f)"
| "slot_ok _ b = (b = None)"

definition typed :: "job_memory \<Rightarrow> bool" where
  "typed h \<longleftrightarrow> (\<forall>a. slot_ok (ops h a) (buf h a))"

definition live :: "job_memory \<Rightarrow> callable multiset" where
  "live h = image_mset (\<lambda>a. the (buf h a)) (mset_set (dom (buf h)))"

definition owned :: "job_memory \<Rightarrow> bool" where
  "owned h \<longleftrightarrow> finite (dom (buf h)) \<and> mset (made h) = live h + mset (destroyed h)"

lemma typedD:
  assumes "typed h"
  shows "ops h a = Some (Some f) \<Longrightarrow> \<exists>c. buf h a = Some c \<and> fn c = f \<and> fits f"
    and "ops h a = None \<Longrightarrow> buf h a = None" and "ops h a = Some None \<Longrightarrow> buf h a = None"
  using assms spec [of "\<lambda>a. slot_ok (ops h a) (buf h a)" a] unfolding typed_def by auto

lemma live_add: "finite (dom (buf h)) \<Longrightarrow> buf h a = None \<Longrightarrow> buf h' = (buf h)(a \<mapsto> c) \<Longrightarrow> live h' = add_mset c (live h)"
  unfolding live_def by (auto simp: domIff intro!: image_mset_cong)

lemma live_del:
  assumes "finite (dom (buf h))" and "buf h a = Some c" and "buf h' = (buf h)(a := None)"
  shows "live h = add_mset c (live h')"
proof -
  have "buf h = (buf h')(a \<mapsto> c)" "buf h' a = None" "finite (dom (buf h'))" using assms by auto
  from live_add [OF this(3,2,1)] show ?thesis .
qed

lemma live_cong: "buf h' = buf h \<Longrightarrow> live h' = live h"
  by (simp add: live_def)

section \<open>The operations on a typed memory\<close>

lemma cast_typed: "typed h \<Longrightarrow> ops h a = Some (Some f) \<Longrightarrow> cast f a h = buf h a"
  using typedD(1) [of h a f] by (auto simp: cast_def)

lemma reset_typed:
  assumes "typed h" and "ops h a = Some t"
  shows "reset a h = Some (h\<lparr>ops := (ops h)(a \<mapsto> None), buf := (buf h)(a := None),
    destroyed := destroyed h @ (case buf h a of None \<Rightarrow> [] | Some c \<Rightarrow> [c])\<rparr>)"
proof (cases t)
  case None
  with assms typedD(3) [OF assms(1)] show ?thesis
    by (simp add: reset_def fun_upd_idem)
next
  case (Some f)
  with assms typedD(1) [OF assms(1)] cast_typed [OF assms(1)] show ?thesis
    by (fastforce simp: reset_def ops_destroy_def)
qed

lemma moveFrom_typed:
  assumes "typed h" and "ops h b = Some t" and "a \<noteq> b" and "buf h a = None"
  shows "moveFrom a b h = Some (h\<lparr>ops := (ops h)(a \<mapsto> t, b \<mapsto> None), buf := (buf h)(a := buf h b, b := None)\<rparr>)"
proof (cases t)
  case None
  with assms typedD(3) [OF assms(1)] show ?thesis
    by (auto simp: moveFrom_def fun_upd_idem)
next
  case (Some f)
  obtain c where "buf h b = Some c" "fn c = f" using typedD(1) [OF assms(1)] assms(2) Some by blast
  with assms Some show ?thesis
    by (simp add: moveFrom_def ops_move_def cast_def place_def)
qed

lemma typed_reset: "typed h \<Longrightarrow> typed (h\<lparr>ops := (ops h)(a \<mapsto> None), buf := (buf h)(a := None), destroyed := d\<rparr>)"
  by (simp add: typed_def)

lemma typed_move:
  assumes "typed h" and "ops h b = Some t" and "a \<noteq> b"
  shows "typed (h\<lparr>ops := (ops h)(a \<mapsto> t, b \<mapsto> None), buf := (buf h)(a := buf h b, b := None)\<rparr>)"
  using assms typedD(1,3) [OF assms(1), of b] by (cases t) (auto simp: typed_def)

lemma owned_reset:
  assumes "owned h" and "buf h' = (buf h)(a := None)" and "made h' = made h"
    and "destroyed h' = destroyed h @ (case buf h a of None \<Rightarrow> [] | Some c \<Rightarrow> [c])"
  shows "owned h'"
proof (cases "buf h a")
  case None
  with assms show ?thesis using live_cong [of h' h] by (simp add: owned_def fun_upd_idem)
next
  case (Some c)
  with assms show ?thesis using live_del [of h a c h'] by (auto simp: owned_def)
qed

lemma owned_move:
  assumes "owned h" and "buf h' = (buf h)(a := buf h b, b := None)" and "a \<noteq> b" and "buf h a = None"
    and "made h' = made h" and "destroyed h' = destroyed h"
  shows "owned h'"
proof (cases "buf h b")
  case None
  with assms show ?thesis using live_cong [of h' h] by (simp add: owned_def fun_upd_idem)
next
  case (Some c)
  define g where "g = h\<lparr>buf := (buf h)(b := None)\<rparr>"
  have fin: "finite (dom (buf h))" using assms(1) by (simp add: owned_def)
  have "live h = add_mset c (live g)" using live_del [OF fin Some, of g] by (simp add: g_def)
  moreover have "live h' = add_mset c (live g)"
    using live_add [of g a h' c] fin assms(2-4) Some by (simp add: g_def fun_upd_twist)
  moreover have "finite (dom (buf h'))" using fin assms(2) by (simp add: Some)
  ultimately show ?thesis using assms(1,5,6) by (simp add: owned_def)
qed

lemma reset_ok:
  assumes "typed h" and "owned h" and "ops h a = Some t"
  shows "\<exists>h'. reset a h = Some h' \<and> typed h' \<and> owned h' \<and> ops h' = (ops h)(a \<mapsto> None) \<and> buf h' a = None"
  using assms by (simp add: reset_typed typed_reset) (rule owned_reset [OF assms(2)]; simp)

lemma moveFrom_ok:
  assumes "typed h" and "owned h" and "ops h b = Some t" and "a \<noteq> b" and "buf h a = None"
  shows "\<exists>h'. moveFrom a b h = Some h' \<and> typed h' \<and> owned h'"
  using assms by (simp add: moveFrom_typed typed_move) (rule owned_move [OF assms(2) _ assms(4,5)]; simp)

lemma job_exec_ok:
  assumes t: "typed h" and o: "owned h" and l: "legal k h"
  shows "\<exists>h'. job_exec k h = Some h' \<and> typed h' \<and> owned h'"
proof (cases k)
  case (Default a)
  with t o l typedD(2) [OF t, of a] show ?thesis
    by (auto simp: job_default_def typed_def owned_def live_def)
next
  case (Make a c)
  with l have a: "ops h a = None" "fits (fn c)" by auto
  with typedD(2) [OF t] have b: "buf h a = None" by simp
  define h' where "h' = h\<lparr>ops := (ops h)(a \<mapsto> Some (fn c)), buf := (buf h)(a \<mapsto> c), made := made h @ [c]\<rparr>"
  have "typed h'" using t a by (simp add: typed_def h'_def)
  moreover have "owned h'" using o live_add [of h a h' c] b by (simp add: owned_def h'_def)
  moreover have "job_exec k h = Some h'" using Make a b by (simp add: job_make_def place_def h'_def)
  ultimately show ?thesis by blast
next
  case (Move a b)
  with l have m: "ops h a = None" "a \<noteq> b" by auto
  moreover obtain t' where "ops h b = Some t'" using Move l by auto
  ultimately show ?thesis using moveFrom_ok [OF t o _ m(2)] typedD(2) [OF t m(1)] Move by (simp add: job_move_def)
next
  case (Assign a b)
  with l obtain u v where uv: "ops h a = Some u" "ops h b = Some v" by auto
  obtain g where g: "reset a h = Some g" "typed g" "owned g" "ops g = (ops h)(a \<mapsto> None)" "buf g a = None"
    using reset_ok [OF t o uv(1)] by blast
  show ?thesis
  proof (cases "a = b")
    case False
    with uv g(4) have "ops g b = Some v" by simp
    from moveFrom_ok [OF g(2,3) this False g(5)] show ?thesis using False Assign g(1) by (simp add: job_assign_def)
  qed (use Assign t o in \<open>simp add: job_assign_def\<close>)
next
  case (Destroy a)
  with l obtain u where "ops h a = Some u" by auto
  then obtain g where g: "reset a h = Some g" "typed g" "owned g" "buf g a = None" using reset_ok [OF t o] by blast
  then have "typed (g\<lparr>ops := (ops g)(a := None)\<rparr>)" "owned (g\<lparr>ops := (ops g)(a := None)\<rparr>)"
    by (auto simp: typed_def owned_def live_def)
  with g Destroy show ?thesis by (simp add: job_destroy_def)
next
  case (Call a)
  with l obtain f where f: "ops h a = Some (Some f)" by (auto split: option.splits)
  then obtain c where "buf h a = Some c" "fn c = f" using typedD(1) [OF t] by blast
  with Call f t o show ?thesis by (simp add: job_call_def ops_call_def cast_def typed_def owned_def live_def)
qed

lemma job_run_append: "job_run (ks @ ls) h = job_run ks h \<bind> job_run ls"
proof (induction ks arbitrary: h)
  case (Cons k ks)
  then show ?case by (cases "job_exec k h") simp_all
qed simp

lemma job_run_ok:
  assumes "typed h" and "owned h" and "legal_run ks h"
  shows "\<exists>h'. job_run ks h = Some h' \<and> typed h' \<and> owned h'"
  using assms
proof (induction ks arbitrary: h)
  case (Cons k ks)
  then obtain g where "job_exec k h = Some g" "typed g" "owned g" using job_exec_ok [of h k] by auto
  with Cons show ?case by simp
qed simp

lemma empty_memory_ok: "typed empty_memory" "owned empty_memory"
  by (simp_all add: empty_memory_def typed_def owned_def live_def)

text \<open>
  C22. InlineJob is type safe and leaks nothing: a program that constructs jobs where none lives,
  uses only living jobs and calls only jobs that hold a callable has no undefined behaviour,
  whatever it moves and assigns, self-assignment included; a job's buffer always holds a
  callable of exactly the type its \<open>ops\_\<close> is the table of; and when all jobs are gone, every
  callable that was put into one was destroyed exactly once.
\<close>

theorem inline_job_type_safe:
  assumes "legal_run ks empty_memory"
  shows "\<exists>h. job_run ks empty_memory = Some h \<and>
    (\<forall>a. slot_ok (ops h a) (buf h a)) \<and>
    (ops h = Map.empty \<longrightarrow> mset (destroyed h) = mset (made h))"
proof -
  obtain h where h: "job_run ks empty_memory = Some h" "typed h" "owned h"
    using job_run_ok [OF empty_memory_ok assms] by blast
  have "buf h = Map.empty" if "ops h = Map.empty" using typedD(2) [OF h(2)] that by auto
  then have "mset (destroyed h) = mset (made h)" if "ops h = Map.empty" using h(3) that by (simp add: owned_def live_def)
  moreover have "\<forall>a. slot_ok (ops h a) (buf h a)" using h(2) unfolding typed_def .
  ultimately show ?thesis using h(1) by blast
qed

text \<open>
  C23. A job's trip through the queue: from the submit that makes it to the worker that runs it,
  the callable is moved four times, called exactly once and destroyed exactly once, and the cell
  it went through is empty again, so nothing it captured stays behind in the ring.
\<close>

theorem job_trip:
  assumes "typed h" and "ops h cell = Some None" and "fits (fn c)"
    and "ops h a = None" and "ops h b = None" and "ops h t = None" and "ops h j = None"
    and "distinct [a, b, t, j]"
  shows "job_run (push_cmds cell a c @ pop_cmds cell b t j) h =
    Some (h\<lparr>made := made h @ [c], called := called h @ [c], destroyed := destroyed h @ [c]\<rparr>)"
proof -
  have ne: "cell \<noteq> a" "cell \<noteq> b" "cell \<noteq> t" "cell \<noteq> j" "t \<noteq> b" "j \<noteq> b" "j \<noteq> t"
    using assms(2,4-8) by auto
  have bu: "buf h a = None" "buf h b = None" "buf h t = None" "buf h j = None" "buf h cell = None"
    using assms(2,4-7) typedD(2,3) [OF assms(1)] by simp_all
  have push: "job_run (push_cmds cell a c) h =
      Some (h\<lparr>ops := (ops h)(cell \<mapsto> Some (fn c)), buf := (buf h)(cell \<mapsto> c), made := made h @ [c]\<rparr>)"
    using assms(2-4) ne bu unfolding push_cmds_def
    by (simp add: job_defs fun_upd_idem fun_upd_twist)
  have pop: "job_run (pop_cmds cell b t j)
      (h\<lparr>ops := (ops h)(cell \<mapsto> Some (fn c)), buf := (buf h)(cell \<mapsto> c), made := made h @ [c]\<rparr>) =
      Some (h\<lparr>made := made h @ [c], called := called h @ [c], destroyed := destroyed h @ [c]\<rparr>)"
    using assms(2,5-8) ne bu unfolding pop_cmds_def
    by (simp add: job_defs fun_upd_idem fun_upd_twist)
  show ?thesis using push pop by (simp add: job_run_append)
qed

section \<open>Two programs\<close>

definition demo_fn :: fn_type where
  "demo_fn = \<lparr>type_id = 0, type_size = 96, type_align = 8, nothrow_move = True\<rparr>"

definition demo_job :: callable where
  "demo_job = \<lparr>fn = demo_fn, captured = 5\<rparr>"

text \<open>A job is made, assigned to itself, moved, called, and everything is destroyed.\<close>

definition demo_prog :: "job_cmd list" where
  "demo_prog = [Make 0 demo_job, Assign 0 0, Default 1, Assign 1 0, Call 1, Destroy 1, Destroy 0]"

lemma demo_fits: "fits (fn demo_job)"
  by (simp add: fits_def demo_job_def demo_fn_def kBufSize_def max_align_def)

lemma demo_prog_legal: "legal_run demo_prog empty_memory"
  by (simp add: demo_prog_def empty_memory_def job_defs demo_fits)

lemma demo_prog_result:
  "job_run demo_prog empty_memory =
     Some (empty_memory\<lparr>made := [demo_job], called := [demo_job], destroyed := [demo_job]\<rparr>)"
  by (simp add: demo_prog_def empty_memory_def job_defs demo_fits fun_upd_idem fun_upd_twist)

lemma empty_ops: "ops empty_memory = Map.empty"
  by (simp add: empty_memory_def)

theorem inline_job_type_safe_witness:
  "legal_run demo_prog empty_memory \<and>
   (\<exists>h. job_run demo_prog empty_memory = Some h \<and> made h = [demo_job] \<and> mset (destroyed h) = mset (made h))"
  using inline_job_type_safe [OF demo_prog_legal] demo_prog_legal
  by (simp add: demo_prog_result empty_ops)

theorem job_trip_witness:
  "job_run (push_cmds 9 0 demo_job @ pop_cmds 9 1 2 3) (empty_memory\<lparr>ops := [9 \<mapsto> None]\<rparr>) =
    Some (empty_memory\<lparr>ops := [9 \<mapsto> None], made := [demo_job], called := [demo_job], destroyed := [demo_job]\<rparr>)"
  using job_trip [of "empty_memory\<lparr>ops := [9 \<mapsto> None]\<rparr>" 9 demo_job 0 1 2 3] demo_fits
  by (simp add: typed_def empty_memory_def)

end
