(* ===== verification/Connection.thy ===== *)
theory Connection
  imports Prelude "HOL-Library.Multiset"
begin

text \<open>
  include/EventLoop.hpp, the life of one connection: the event loop thread that receives,
  dispatches and finally gives the connection up (handleReadable, stop), the jobs on the worker
  threads that answer (the lambda of dispatchToWorker with safeSend), and tryFinalize, which
  both run.  Every load, store and read-modify-write of a shared word is one step, and the
  threads interleave (sequentially consistent memory).  What a message contains is the
  business of theory EventLoop; here it is an opaque string.
\<close>

section \<open>What safeSend is to put on the wire\<close>

text \<open>
  The send loop as one function of the results of send, which the steps of a job below implement
  (lemma \<open>send_rounds_loop\<close>): \<open>rs\<close> are the results of the calls of send.  The result is what went out.  The
  loop has returned when a result was not positive or nothing is left.
\<close>

definition transferred :: "string \<Rightarrow> nat \<Rightarrow> int \<Rightarrow> string" where
  "transferred data sent n = take (nat n) (drop sent data)"

fun send_loop :: "string \<Rightarrow> nat \<Rightarrow> int list \<Rightarrow> string" where
  "send_loop data sent [] = []"
| "send_loop data sent (n # rs) =
     (if sent < length data then
        if n \<le> 0 then []
        else transferred data sent n @ send_loop data (sent + nat n) rs
      else [])"

definition safeSend :: "bool \<Rightarrow> string \<Rightarrow> int list \<Rightarrow> string" where
  "safeSend is_alive data rs = (if \<not> is_alive then [] else send_loop data 0 rs)"

section \<open>State\<close>

text \<open>The points of tryFinalize: before each of its accesses, and after it has returned.\<close>

datatype fin = FPeer | FPend | FCas | FAlive | FClose | FDone

text \<open>
  A job: before its alive check in safeSend, in the send loop with its message, its answer and
  the bytes sent so far, before the decrement, in tryFinalize.
\<close>

datatype jpc = JWork string | JSend string string nat | JDec | JFin fin

text \<open>The event loop with respect to this connection.\<close>

datatype lpc =
    LIdle
  | LDisp bool "string list"          \<comment> \<open>peerClosed flag of the call, messages still to dispatch\<close>
  | LSub bool string "string list"    \<comment> \<open>counted in pendingJobs, submit is next\<close>
  | LFin fin                          \<comment> \<open>tryFinalize at the end of handleReadable\<close>
  | LGone                             \<comment> \<open>given up after the end of the stream\<close>
  | LStopAlive | LStopClose | LStopped  \<comment> \<open>the body of the loop in stop\<close>

text \<open>
  The fields of Connection; \<open>closes\<close> counts the calls of close on its fd.  For the proofs,
  \<open>arrived\<close> lists the messages submitted, \<open>puts\<close> the calls of send that put bytes on the fd, with
  the message that is answered, the bytes and whether the fd was still open, \<open>answered\<close> the
  messages whose answer went out to its last byte, with whether the fd was still open, \<open>failed\<close>
  the jobs that gave up their answer because a call of send returned no positive number, and
  \<open>dropped\<close> the messages whose answer was given up because the connection was not alive.
\<close>

record connection =
  alive :: bool
  pendingJobs :: int
  peerClosed :: bool
  fdClosed :: bool
  closes :: nat
  writeMutex :: "nat option"
  jobs :: "jpc list"
  loop :: lpc
  arrived :: "string list"
  puts :: "(string \<times> string \<times> bool) list"
  answered :: "(string \<times> bool) list"
  failed :: "(nat \<times> string) list"
  dropped :: "string list"

definition new_connection :: connection where
  "new_connection = \<lparr>alive = True, pendingJobs = 0, peerClosed = False, fdClosed = False, closes = 0,
     writeMutex = None, jobs = [], loop = LIdle, arrived = [], puts = [], answered = [],
     failed = [], dropped = []\<rparr>"

section \<open>Steps\<close>

fun tryFinalize :: "fin \<Rightarrow> connection \<Rightarrow> connection \<times> fin" where
  "tryFinalize FPeer c = (c, if peerClosed c then FPend else FDone)"
| "tryFinalize FPend c = (c, if pendingJobs c = 0 then FCas else FDone)"
| "tryFinalize FCas c = (if fdClosed c then (c, FDone) else (c\<lparr>fdClosed := True\<rparr>, FAlive))"
| "tryFinalize FAlive c = (c\<lparr>alive := False\<rparr>, FClose)"
| "tryFinalize FClose c = (c\<lparr>closes := closes c + 1\<rparr>, FDone)"
| "tryFinalize FDone c = (c, FDone)"

text \<open>
  Job \<open>i\<close> enters safeSend: it takes the lock, when that is free, and looks at alive; without it, it
  leaves at once and the lock is free again.
\<close>

definition send_enter :: "nat \<Rightarrow> string \<Rightarrow> string \<Rightarrow> connection \<Rightarrow> connection option" where
  "send_enter i m data c =
     (if writeMutex c \<noteq> None then None
      else if alive c then Some (c\<lparr>writeMutex := Some i, jobs := (jobs c)[i := JSend m data 0]\<rparr>)
      else Some (c\<lparr>dropped := dropped c @ [m], jobs := (jobs c)[i := JDec]\<rparr>))"

text \<open>
  The loop of safeSend has ended for job \<open>i\<close>: the lock is released, the answer is out or given up.
\<close>

definition sent_all :: "nat \<Rightarrow> string \<Rightarrow> connection \<Rightarrow> connection" where
  "sent_all i m c =
     c\<lparr>writeMutex := None, answered := answered c @ [(m, closes c = 0)], jobs := (jobs c)[i := JDec]\<rparr>"

definition send_failed :: "nat \<Rightarrow> string \<Rightarrow> connection \<Rightarrow> connection" where
  "send_failed i m c =
     c\<lparr>writeMutex := None, failed := failed c @ [(i, m)], jobs := (jobs c)[i := JDec]\<rparr>"

text \<open>
  One round of the send loop of job \<open>i\<close>, in which send returns \<open>n\<close>.  Nothing has to be assumed of \<open>n\<close>:
  the code gives up when it is not positive, and it goes on after it when it is too small.
\<close>

definition send_round :: "int \<Rightarrow> nat \<Rightarrow> string \<Rightarrow> string \<Rightarrow> nat \<Rightarrow> connection \<Rightarrow> connection" where
  "send_round n i m data sent c =
     (if length data \<le> sent then sent_all i m c
      else if n \<le> 0 then send_failed i m c
      else let c = c\<lparr>puts := puts c @ [(m, transferred data sent n, closes c = 0)]\<rparr>; sent = sent + nat n
           in if sent < length data then c\<lparr>jobs := (jobs c)[i := JSend m data sent]\<rparr>
              else sent_all i m c)"

text \<open>
  A step of job \<open>i\<close>; None: it has to wait for writeMutex or has ended.  \<open>data\<close> is the answer with
  which it calls safeSend, \<open>n\<close> the result of send in a round of the loop.
\<close>

definition job_step :: "string \<Rightarrow> int \<Rightarrow> nat \<Rightarrow> connection \<Rightarrow> connection option" where
  "job_step data n i c =
     (case jobs c ! i of
        JWork m \<Rightarrow> send_enter i m data c
      | JSend m answer sent \<Rightarrow> Some (send_round n i m answer sent c)
      | JDec \<Rightarrow> Some (c\<lparr>pendingJobs := pendingJobs c - 1, jobs := (jobs c)[i := JFin FPeer]\<rparr>)
      | JFin f \<Rightarrow>
          (if f = FDone then None
           else case tryFinalize f c of (c', f') \<Rightarrow> Some (c'\<lparr>jobs := (jobs c)[i := JFin f']\<rparr>)))"

text \<open>
  A step of the event loop.  handleReadable is called with the messages \<open>ms\<close> that the buffer
  then holds and with whether the peer has closed (\<open>receive\<close> in theory EventLoop gives them).
\<close>

definition handleReadable :: "bool \<Rightarrow> string list \<Rightarrow> connection \<Rightarrow> connection" where
  "handleReadable eof ms c = (if eof then c\<lparr>peerClosed := True\<rparr> else c)\<lparr>loop := LDisp eof ms\<rparr>"

fun loop_step :: "lpc \<Rightarrow> connection \<Rightarrow> connection" where
  "loop_step (LDisp eof (m # ms)) c =
     c\<lparr>pendingJobs := pendingJobs c + 1, loop := LSub eof m ms\<rparr>"
| "loop_step (LSub eof m ms) c =
     c\<lparr>jobs := jobs c @ [JWork m], arrived := arrived c @ [m], loop := LDisp eof ms\<rparr>"
| "loop_step (LDisp eof []) c = c\<lparr>loop := if eof then LFin FPeer else LIdle\<rparr>"
| "loop_step (LFin f) c =
     (if f = FDone then c\<lparr>loop := LGone\<rparr>
      else case tryFinalize f c of (c', f') \<Rightarrow> c'\<lparr>loop := LFin f'\<rparr>)"
| "loop_step LStopAlive c = c\<lparr>alive := False, loop := LStopClose\<rparr>"
| "loop_step LStopClose c = c\<lparr>closes := closes c + 1, loop := LStopped\<rparr>"
| "loop_step _ c = c"

inductive conn_step :: "connection \<Rightarrow> connection \<Rightarrow> bool" where
  readable: "loop c = LIdle \<Longrightarrow> conn_step c (handleReadable eof ms c)"
| stop: "loop c = LIdle \<Longrightarrow> conn_step c (c\<lparr>loop := LStopAlive\<rparr>)"
| loop: "conn_step c (loop_step (loop c) c)"
| job: "i < length (jobs c) \<Longrightarrow> job_step data n i c = Some c' \<Longrightarrow> conn_step c c'"

text \<open>
  Commands, to run the connection along a given interleaving: \<open>Job\<close> is the step of a job that
  answers with one byte, which send takes, \<open>JobSend\<close> any step of a job.
\<close>

datatype conn_cmd = Readable bool "string list" | Stop | Loop | Job nat | JobSend string int nat

fun conn_exec :: "conn_cmd \<Rightarrow> connection \<Rightarrow> connection" where
  "conn_exec (Readable eof ms) c = (if loop c = LIdle then handleReadable eof ms c else c)"
| "conn_exec Stop c = (if loop c = LIdle then c\<lparr>loop := LStopAlive\<rparr> else c)"
| "conn_exec Loop c = loop_step (loop c) c"
| "conn_exec (Job i) c =
     (if i < length (jobs c) then case job_step ''8'' 1 i c of None \<Rightarrow> c | Some c' \<Rightarrow> c' else c)"
| "conn_exec (JobSend data n i) c =
     (if i < length (jobs c) then case job_step data n i c of None \<Rightarrow> c | Some c' \<Rightarrow> c' else c)"

lemma conn_exec_steps: "conn_step\<^sup>*\<^sup>* c (conn_exec k c)"
  by (cases k) (auto split: option.split intro: conn_step.intros)

lemma conn_run_steps: "conn_step\<^sup>*\<^sup>* c (fold conn_exec ks c)"
  by (induction ks arbitrary: c) (auto intro: conn_exec_steps rtranclp_trans)


section \<open>What the send loop changes\<close>

lemmas send_defs = send_round_def sent_all_def send_failed_def Let_def

lemma send_round_frame [simp]:
  "alive (send_round n i m data sent c) = alive c" "pendingJobs (send_round n i m data sent c) = pendingJobs c"
  "peerClosed (send_round n i m data sent c) = peerClosed c" "fdClosed (send_round n i m data sent c) = fdClosed c"
  "closes (send_round n i m data sent c) = closes c" "loop (send_round n i m data sent c) = loop c"
  "arrived (send_round n i m data sent c) = arrived c" "dropped (send_round n i m data sent c) = dropped c"
  by (simp_all add: send_defs)

text \<open>A round goes on with the same answer, or the job leaves the loop: answered or failed.\<close>

lemma send_round_cases:
  obtains (more) "sent < length data" "0 < n" "sent + nat n < length data"
      "jobs (send_round n i m data sent c) = (jobs c)[i := JSend m data (sent + nat n)]"
      "writeMutex (send_round n i m data sent c) = writeMutex c"
      "answered (send_round n i m data sent c) = answered c" "failed (send_round n i m data sent c) = failed c"
      "puts (send_round n i m data sent c) = puts c @ [(m, transferred data sent n, closes c = 0)]"
  | (all) "length data \<le> sent \<or> 0 < n \<and> length data \<le> sent + nat n"
      "jobs (send_round n i m data sent c) = (jobs c)[i := JDec]" "writeMutex (send_round n i m data sent c) = None"
      "answered (send_round n i m data sent c) = answered c @ [(m, closes c = 0)]"
      "failed (send_round n i m data sent c) = failed c"
      "puts (send_round n i m data sent c) =
         puts c @ (if length data \<le> sent then [] else [(m, transferred data sent n, closes c = 0)])"
  | (failed) "sent < length data" "n \<le> 0"
      "jobs (send_round n i m data sent c) = (jobs c)[i := JDec]" "writeMutex (send_round n i m data sent c) = None"
      "answered (send_round n i m data sent c) = answered c" "failed (send_round n i m data sent c) = failed c @ [(i, m)]"
      "puts (send_round n i m data sent c) = puts c"
proof -
  consider "length data \<le> sent" | "sent < length data" "n \<le> 0"
    | "sent < length data" "0 < n" "sent + nat n < length data"
    | "sent < length data" "0 < n" "length data \<le> sent + nat n" by linarith
  then show thesis
  proof cases
    case 1
    then show thesis by (intro all) (simp_all add: send_defs)
  next
    case 2
    then show thesis by (intro failed) (simp_all add: send_defs)
  next
    case 3
    then show thesis by (intro more) (simp_all add: send_defs)
  next
    case 4
    then show thesis by (intro all) (simp_all add: send_defs)
  qed
qed


text \<open>What a step of a job does: it takes the lock, finds the connection not alive, makes a round of the loop, or goes on after it.\<close>

lemma job_step_cases:
  assumes "job_step data n i c = Some c'"
  obtains (lock) m where "jobs c ! i = JWork m" "writeMutex c = None" "jobs c' = (jobs c)[i := JSend m data 0]"
      "writeMutex c' = Some i" "answered c' = answered c" "failed c' = failed c" "dropped c' = dropped c" "puts c' = puts c"
  | (dead) m where "jobs c ! i = JWork m" "writeMutex c' = writeMutex c" "jobs c' = (jobs c)[i := JDec]"
      "answered c' = answered c" "failed c' = failed c" "dropped c' = dropped c @ [m]" "puts c' = puts c"
  | (round) m answer sent where "jobs c ! i = JSend m answer sent" "c' = send_round n i m answer sent c"
  | (after) f where "jobs c ! i = JDec \<or> (\<exists>g. jobs c ! i = JFin g)" "jobs c' = (jobs c)[i := JFin f]"
      "writeMutex c' = writeMutex c" "answered c' = answered c" "failed c' = failed c" "dropped c' = dropped c" "puts c' = puts c"
proof (cases "jobs c ! i")
  case (JWork m)
  show thesis
  proof (cases "alive c")
    case True
    with JWork assms show thesis by (intro lock [of m]) (auto simp: job_step_def send_enter_def split: if_splits)
  next
    case False
    with JWork assms show thesis by (intro dead [of m]) (auto simp: job_step_def send_enter_def split: if_splits)
  qed
next
  case (JSend m answer sent)
  with assms show thesis by (intro round [of m answer sent]) (simp_all add: job_step_def send_enter_def)
next
  case JDec
  with assms show thesis by (intro after [of FPeer]) (auto simp: job_step_def send_enter_def)
next
  case (JFin g)
  have fin: "writeMutex (fst (tryFinalize g c)) = writeMutex c" "answered (fst (tryFinalize g c)) = answered c"
    "failed (fst (tryFinalize g c)) = failed c" "dropped (fst (tryFinalize g c)) = dropped c"
    "puts (fst (tryFinalize g c)) = puts c" by (cases g; simp)+
  have "c' = (fst (tryFinalize g c))\<lparr>jobs := (jobs c)[i := JFin (snd (tryFinalize g c))]\<rparr>"
    using assms JFin by (auto simp: job_step_def send_enter_def split: if_splits prod.splits)
  with JFin fin show thesis by (intro after [of "snd (tryFinalize g c)"]) simp_all
qed

section \<open>The invariant\<close>

text \<open>The connection is over: given up or stopped, and every job has ended.\<close>

definition finished :: "connection \<Rightarrow> bool" where
  "finished c \<longleftrightarrow> (loop c = LGone \<or> loop c = LStopped) \<and> (\<forall>j \<in> set (jobs c). j = JFin FDone)"

fun busy :: "jpc \<Rightarrow> int" where
  "busy (JFin f) = 0"
| "busy _ = 1"

fun counted :: "lpc \<Rightarrow> int" where
  "counted (LSub eof m ms) = 1"
| "counted _ = 0"

fun fin_closing :: "fin \<Rightarrow> nat" where
  "fin_closing FAlive = 1"
| "fin_closing FClose = 1"
| "fin_closing _ = 0"

fun closing :: "jpc \<Rightarrow> nat" where
  "closing (JFin f) = fin_closing f"
| "closing _ = 0"

fun loop_closing :: "lpc \<Rightarrow> nat" where
  "loop_closing (LFin f) = fin_closing f"
| "loop_closing _ = 0"

fun unsent :: "jpc \<Rightarrow> string multiset" where
  "unsent (JWork m) = {#m#}"
| "unsent (JSend m data sent) = {#m#}"
| "unsent _ = {#}"

fun loop_peer :: "lpc \<Rightarrow> bool" where
  "loop_peer (LDisp eof ms) = eof"
| "loop_peer (LSub eof m ms) = eof"
| "loop_peer (LFin f) = True"
| "loop_peer LGone = True"
| "loop_peer _ = False"

text \<open>The loop has made its own attempt to close.\<close>

fun loop_past :: "lpc \<Rightarrow> bool" where
  "loop_past (LFin f) = (f \<in> {FAlive, FClose, FDone})"
| "loop_past LGone = True"
| "loop_past _ = False"

definition trying :: "jpc set" where
  "trying = {JFin FPeer, JFin FPend, JFin FCas}"

text \<open>writeMutex is held by the one job that is in the send loop.\<close>

fun sending :: "jpc \<Rightarrow> bool" where
  "sending (JSend m data sent) = True"
| "sending _ = False"

definition lock_inv :: "connection \<Rightarrow> bool" where
  "lock_inv c \<longleftrightarrow> (\<forall>i. i < length (jobs c) \<and> sending (jobs c ! i) \<longleftrightarrow> writeMutex c = Some i)"

lemma lock_inv_frame [simp]:
  "lock_inv (c\<lparr>alive := a\<rparr>) = lock_inv c" "lock_inv (c\<lparr>pendingJobs := p\<rparr>) = lock_inv c"
  "lock_inv (c\<lparr>peerClosed := a\<rparr>) = lock_inv c" "lock_inv (c\<lparr>fdClosed := a\<rparr>) = lock_inv c"
  "lock_inv (c\<lparr>closes := k\<rparr>) = lock_inv c" "lock_inv (c\<lparr>loop := l\<rparr>) = lock_inv c"
  "lock_inv (c\<lparr>arrived := ms\<rparr>) = lock_inv c"
  by (simp_all add: lock_inv_def)

lemma lock_inv_append [simp]: "lock_inv c \<Longrightarrow> lock_inv (c\<lparr>jobs := jobs c @ [JWork m]\<rparr>)"
proof -
  have "(i < length (jobs c @ [JWork m]) \<and> sending ((jobs c @ [JWork m]) ! i)) = (i < length (jobs c) \<and> sending (jobs c ! i))" for i
    by (cases "i < length (jobs c)"; cases "i = length (jobs c)") (simp_all add: nth_append)
  then show "lock_inv c \<Longrightarrow> ?thesis" by (simp add: lock_inv_def)
qed

lemma lock_inv_job:
  assumes inv: "lock_inv c" and i: "i < length (jobs c)" and c': "jobs c' = (jobs c)[i := v]"
    and m: "writeMutex c' = (if sending v then Some i else if sending (jobs c ! i) then None else writeMutex c)"
    and f: "sending v \<Longrightarrow> \<not> sending (jobs c ! i) \<Longrightarrow> writeMutex c = None"
  shows "lock_inv c'"
proof -
  have I: "(j < length (jobs c) \<and> sending (jobs c ! j)) = (writeMutex c = Some j)" for j
    using inv unfolding lock_inv_def by blast
  have "(j < length (jobs c') \<and> sending (jobs c' ! j)) = (writeMutex c' = Some j)" for j
  proof (cases "j = i")
    case True
    with i have "(j < length (jobs c') \<and> sending (jobs c' ! j)) = sending v" by (simp add: c')
    with True m I [of i] i show ?thesis by (cases "sending v"; cases "sending (jobs c ! i)") simp_all
  next
    case False
    then have "(j < length (jobs c') \<and> sending (jobs c' ! j)) = (writeMutex c = Some j)" using I [of j] by (simp add: c')
    with False m f I [of i] i show ?thesis by (cases "sending v"; cases "sending (jobs c ! i)") simp_all
  qed
  then show ?thesis unfolding lock_inv_def by blast
qed

text \<open>The messages whose jobs have left safeSend.\<close>

definition over :: "connection \<Rightarrow> string multiset" where
  "over c = mset (map fst (answered c)) + mset (dropped c) + mset (map snd (failed c))"

definition conn_inv :: "connection \<Rightarrow> bool" where
  "conn_inv c \<longleftrightarrow>
     pendingJobs c = sum_list (map busy (jobs c)) + counted (loop c) \<and>
     closes c + sum_list (map closing (jobs c)) + loop_closing (loop c) =
       of_bool (fdClosed c) + of_bool (loop c = LStopped) \<and>
     mset (arrived c) = over c + sum_list (map unsent (jobs c)) \<and>
     peerClosed c = loop_peer (loop c) \<and> (fdClosed c \<longrightarrow> peerClosed c) \<and>
     (\<forall>f \<in> {FPend, FCas, FAlive, FClose}. JFin f \<in> set (jobs c) \<longrightarrow> peerClosed c) \<and>
     (loop_past (loop c) \<and> pendingJobs c = 0 \<and> \<not> fdClosed c \<longrightarrow> (\<exists>j \<in> set (jobs c). j \<in> trying)) \<and>
     lock_inv c"

lemma conn_inv_start: "conn_inv new_connection"
  by (simp add: conn_inv_def over_def lock_inv_def new_connection_def)

lemma conn_invD:
  assumes "conn_inv c"
  shows "pendingJobs c = sum_list (map busy (jobs c)) + counted (loop c)"
    and "closes c + sum_list (map closing (jobs c)) + loop_closing (loop c) =
       of_bool (fdClosed c) + of_bool (loop c = LStopped)"
    and "mset (arrived c) = over c + sum_list (map unsent (jobs c))"
    and "peerClosed c = loop_peer (loop c)" and "fdClosed c \<Longrightarrow> peerClosed c"
    and "\<And>f. f \<in> {FPend, FCas, FAlive, FClose} \<Longrightarrow> JFin f \<in> set (jobs c) \<Longrightarrow> peerClosed c"
    and "loop_past (loop c) \<Longrightarrow> pendingJobs c = 0 \<Longrightarrow> \<not> fdClosed c \<Longrightarrow> \<exists>j \<in> set (jobs c). j \<in> trying"
    and "lock_inv c"
  using assms unfolding conn_inv_def by auto

text \<open>The attempts to close survive the step of another job.\<close>

lemma trying_update:
  assumes "\<exists>j \<in> set xs. j \<in> P" and "i < length xs" and "xs ! i \<in> P \<Longrightarrow> v \<in> P"
  shows "\<exists>j \<in> set (xs[i := v]). j \<in> P"
proof -
  from assms(1) obtain k where k: "k < length xs" "xs ! k \<in> P" by (auto simp: in_set_conv_nth)
  show ?thesis
  proof (cases "k = i")
    case True
    with k assms(2,3) show ?thesis by (auto intro!: bexI [of _ v] set_update_memI)
  next
    case False
    with k have "xs[i := v] ! k = xs ! k" by simp
    with k show ?thesis by (metis length_list_update nth_mem)
  qed
qed

lemma loop_step_inv:
  assumes inv: "conn_inv c"
  shows "conn_inv (loop_step (loop c) c)"
proof -
  note D = conn_invD [OF inv]
  show ?thesis
  proof (cases "loop c")
    case (LDisp eof ms)
    then show ?thesis using D by (cases ms) (auto simp: conn_inv_def over_def)
  next
    case (LFin f)
    show ?thesis
      by (cases f) (use D LFin in \<open>auto simp: conn_inv_def over_def\<close>)
  qed (use D in \<open>auto simp: conn_inv_def over_def\<close>)
qed


text \<open>A job step that leaves the three flags, the counter and the loop alone.\<close>

lemma job_inv_local:
  assumes inv: "conn_inv c" and i: "i < length (jobs c)" and c': "jobs c' = (jobs c)[i := v]"
    and same: "pendingJobs c' = pendingJobs c" "peerClosed c' = peerClosed c" "fdClosed c' = fdClosed c"
      "loop c' = loop c" "arrived c' = arrived c"
    and b: "busy v = busy (jobs c ! i)" and cl: "closes c' + closing v = closes c + closing (jobs c ! i)"
    and m: "over c' + unsent v = over c + unsent (jobs c ! i)"
    and f: "\<And>f. v = JFin f \<Longrightarrow> f \<in> {FPend, FCas, FAlive, FClose} \<Longrightarrow> peerClosed c"
    and t: "jobs c ! i \<in> trying \<Longrightarrow> peerClosed c \<Longrightarrow> pendingJobs c = 0 \<Longrightarrow> \<not> fdClosed c \<Longrightarrow> v \<in> trying"
    and l: "writeMutex c' = (if sending v then Some i else if sending (jobs c ! i) then None else writeMutex c)"
      "sending v \<Longrightarrow> \<not> sending (jobs c ! i) \<Longrightarrow> writeMutex c = None"
  shows "conn_inv c'"
proof -
  note D = conn_invD [OF inv] and S = sum_list_map_update [OF i, where v = v]
  have "mset (arrived c) = over c' + sum_list (map unsent ((jobs c)[i := v]))"
  proof -
    let ?A = "over c" and ?A' = "over c'"
    have "?A' + sum_list (map unsent ((jobs c)[i := v])) + unsent (jobs c ! i) =
        (?A' + unsent v) + sum_list (map unsent (jobs c))"
      using S [of unsent] by (metis add.assoc add.commute)
    also have "\<dots> = ?A + sum_list (map unsent (jobs c)) + unsent (jobs c ! i)"
      unfolding m by (simp only: ac_simps)
    finally show ?thesis using D(3) by simp
  qed
  moreover have "closes c' + sum_list (map closing ((jobs c)[i := v])) = closes c + sum_list (map closing (jobs c))"
    using S [of closing] cl by simp
  moreover have "sum_list (map busy ((jobs c)[i := v])) = sum_list (map busy (jobs c))"
    using S [of busy] b by simp
  moreover have "\<exists>j \<in> set ((jobs c)[i := v]). j \<in> trying"
    if "loop_past (loop c)" "pendingJobs c = 0" "\<not> fdClosed c"
  proof (rule trying_update [OF D(7) [OF that] i])
    have "peerClosed c" using that(1) D(4) by (cases "loop c") auto
    with t that show "jobs c ! i \<in> trying \<Longrightarrow> v \<in> trying" by blast
  qed
  moreover have "peerClosed c" if "JFin g \<in> set ((jobs c)[i := v])" "g \<in> {FPend, FCas, FAlive, FClose}" for g
    using in_set_update [OF that(1)] that(2) f [of g] D(6) [of g] by auto
  ultimately show ?thesis
    unfolding conn_inv_def c' same using D(1,2,4,5) lock_inv_job [OF D(8) i c' l] by simp
qed

lemma job_step_inv:
  assumes inv: "conn_inv c" and i: "i < length (jobs c)" and step: "job_step data n i c = Some c'"
  shows "conn_inv c'"
proof -
  note D = conn_invD [OF inv] and S = sum_list_map_update [OF i]
  have mem: "jobs c ! i \<in> set (jobs c)" using i by simp
  note loc = job_inv_local [OF inv i]
  show ?thesis
  proof (cases "jobs c ! i")
    case (JWork m)
    with step show ?thesis
      by (auto simp: job_step_def send_enter_def trying_def over_def split: if_splits intro!: loc)
  next
    case (JSend m answer sent)
    then have c': "c' = send_round n i m answer sent c" using step by (simp add: job_step_def send_enter_def)
    have "writeMutex c = Some i" using D(8) i JSend unfolding lock_inv_def by (metis sending.simps(1))
    note c' = c' this
    show ?thesis
    proof (cases rule: send_round_cases [of sent answer n i m c])
      case more
      then show ?thesis
        by (intro loc [where v = "JSend m answer (sent + nat n)"]) (use JSend c' in \<open>simp_all add: over_def trying_def\<close>)
    next
      case all
      then show ?thesis by (intro loc [where v = JDec]) (use JSend c' in \<open>simp_all add: over_def trying_def\<close>)
    next
      case failed
      then show ?thesis by (intro loc [where v = JDec]) (use JSend c' in \<open>simp_all add: over_def trying_def\<close>)
    qed
  next
    case JDec
    then have c': "c' = c\<lparr>pendingJobs := pendingJobs c - 1, jobs := (jobs c)[i := JFin FPeer]\<rparr>"
      using step by (simp add: job_step_def send_enter_def)
    have "JFin FPeer \<in> set ((jobs c)[i := JFin FPeer])" using i by (rule set_update_memI)
    moreover have "peerClosed c" if "JFin g \<in> set ((jobs c)[i := JFin FPeer])" "g \<in> {FPend, FCas, FAlive, FClose}" for g
      using in_set_update [OF that(1)] that(2) D(6) [of g] by auto
    moreover have "lock_inv c'"
      by (rule lock_inv_job [OF D(8) i, where v = "JFin FPeer"]) (simp_all add: c' JDec)
    ultimately show ?thesis
      unfolding conn_inv_def c' trying_def over_def
      using D(1-2) D(3) [unfolded over_def] D(4-5) S [of busy "JFin FPeer"] S [of closing "JFin FPeer"] S [of unsent "JFin FPeer"] JDec
      by auto
  next
    case (JFin f)
    define v where "v = snd (tryFinalize f c)"
    have c': "c' = (fst (tryFinalize f c))\<lparr>jobs := (jobs c)[i := JFin v]\<rparr>" "f \<noteq> FDone"
      using step JFin by (auto simp: job_step_def send_enter_def v_def split: prod.splits if_splits)
    show ?thesis
    proof (cases "f = FCas \<and> \<not> fdClosed c")
      case True
      with c' have c': "c' = c\<lparr>fdClosed := True, jobs := (jobs c)[i := JFin FAlive]\<rparr>"
        by (simp add: v_def)
      have p: "peerClosed c" using D(6) [of FCas] mem JFin True by simp
      then have "loop c \<noteq> LStopped" using D(4) by auto
      moreover have "lock_inv c'"
        by (rule lock_inv_job [OF D(8) i, where v = "JFin FAlive"]) (simp_all add: c' JFin)
      ultimately show ?thesis
        unfolding conn_inv_def c' over_def
        using D(1-2) D(3) [unfolded over_def] D(4-5) S [of busy "JFin FAlive"] S [of closing "JFin FAlive"] S [of unsent "JFin FAlive"]
          JFin True p by auto
    next
      case False
      show ?thesis
        by (rule loc [where v = "JFin v"])
          (use False c' JFin D(6) [of f] mem in \<open>cases f; auto simp: v_def over_def trying_def split: if_splits\<close>)+
    qed
  qed
qed

interpretation conn: invariant_system "\<lambda>c. c = new_connection" conn_step conn_inv
proof (unfold_locales, goal_cases)
  case (1 c)
  then show ?case by (simp add: conn_inv_start)
next
  case (2 c c')
  from 2(2) show ?case
  proof cases
    case (readable eof ms)
    then show ?thesis
      using conn_invD [OF 2(1)] by (auto simp: conn_inv_def over_def handleReadable_def)
  next
    case stop
    then show ?thesis using conn_invD [OF 2(1)] by (auto simp: conn_inv_def over_def)
  next
    case loop
    then show ?thesis using loop_step_inv [OF 2(1)] by simp
  next
    case (job i)
    then show ?thesis using job_step_inv [OF 2(1)] by simp
  qed
qed

lemma sum_zero_fin:
  assumes "\<forall>j \<in> set js. j = JFin FDone"
  shows "sum_list (map busy js) = 0" and "sum_list (map closing js) = 0" and "sum_list (map unsent js) = {#}"
  using assms by (induction js) auto

section \<open>Ends of the stream without a race\<close>

text \<open>
  The runs in which the end of the stream is read with no complete message before it in the
  buffer, or with a single one while no job of the connection is active, and stop is not called.
\<close>

definition all_done :: "connection \<Rightarrow> bool" where
  "all_done c \<longleftrightarrow> (\<forall>j \<in> set (jobs c). j = JFin FDone)"

fun quiet_loop :: "bool \<Rightarrow> lpc \<Rightarrow> bool" where
  "quiet_loop don (LDisp eof ms) = (eof \<longrightarrow> ms = [] \<or> length ms = 1 \<and> don)"
| "quiet_loop don (LSub eof m ms) = (eof \<longrightarrow> ms = [] \<and> don)"
| "quiet_loop don LStopAlive = False"
| "quiet_loop don LStopClose = False"
| "quiet_loop don LStopped = False"
| "quiet_loop don _ = True"

definition quiet :: "connection \<Rightarrow> bool" where
  "quiet c \<longleftrightarrow> quiet_loop (all_done c) (loop c)"

fun settled :: "lpc \<Rightarrow> bool" where
  "settled (LDisp eof ms) = (eof \<and> ms = [])"
| "settled (LFin f) = True"
| "settled LGone = True"
| "settled _ = False"

definition quiet_inv :: "connection \<Rightarrow> bool" where
  "quiet_inv c \<longleftrightarrow> conn_inv c \<and> quiet c \<and>
     (fdClosed c \<or> JFin FCas \<in> set (jobs c) \<or> loop c = LFin FCas \<longrightarrow> pendingJobs c = 0 \<and> settled (loop c)) \<and>
     (JFin FPend \<in> set (jobs c) \<longrightarrow> settled (loop c)) \<and> (\<not> alive c \<longrightarrow> fdClosed c) \<and>
     dropped c = [] \<and> (\<forall>a \<in> set (answered c). snd a) \<and> (\<forall>p \<in> set (puts c). snd (snd p))"

lemma quiet_invD:
  assumes "quiet_inv c"
  shows "conn_inv c" and "quiet_loop (all_done c) (loop c)"
    and "fdClosed c \<or> JFin FCas \<in> set (jobs c) \<or> loop c = LFin FCas \<Longrightarrow> pendingJobs c = 0 \<and> settled (loop c)"
    and "JFin FPend \<in> set (jobs c) \<Longrightarrow> settled (loop c)" and "\<not> alive c \<Longrightarrow> fdClosed c"
    and "dropped c = []" and "\<And>a. a \<in> set (answered c) \<Longrightarrow> snd a" and "\<And>p. p \<in> set (puts c) \<Longrightarrow> snd (snd p)"
  using assms unfolding quiet_inv_def quiet_def by auto

lemma busy_pending:
  assumes inv: "conn_inv c" and j: "j \<in> set (jobs c)" "busy j \<noteq> 0"
  shows "0 < pendingJobs c"
proof -
  have "0 \<le> busy x" for x by (cases x) auto
  then have "busy j \<le> sum_list (map busy (jobs c))"
    using j(1) by (intro member_le_sum_list) auto
  moreover have "0 < busy j" using j(2) by (cases j) auto
  moreover have "0 \<le> counted (loop c)" by (cases "loop c") auto
  ultimately show ?thesis using conn_invD(1) [OF inv] by linarith
qed

lemma closing_closed:
  assumes inv: "conn_inv c" and "\<not> loop c = LStopped"
    and j: "j \<in> set (jobs c) \<and> closing j \<noteq> 0 \<or> loop_closing (loop c) \<noteq> 0"
  shows "fdClosed c"
proof -
  have "closing j \<le> sum_list (map closing (jobs c))" if "j \<in> set (jobs c)"
    using that by (intro member_le_sum_list) auto
  with j conn_invD(2) [OF inv] assms(2) show ?thesis by (cases "fdClosed c") auto
qed

lemma quiet_loop_step:
  assumes inv: "quiet_inv c" and q: "quiet (loop_step (loop c) c)"
  shows "quiet_inv (loop_step (loop c) c)"
proof -
  note D = quiet_invD [OF inv] and C = conn_invD [OF quiet_invD(1) [OF inv]]
  show ?thesis
  proof (cases "loop c")
    case (LDisp eof ms)
    show ?thesis
      unfolding quiet_inv_def using loop_step_inv [OF D(1)] q D LDisp
      by (cases ms) (auto simp: all_done_def)
  next
    case (LSub eof m ms)
    then show ?thesis
      unfolding quiet_inv_def using loop_step_inv [OF D(1)] q D by (auto simp: all_done_def)
  next
    case (LFin f)
    show ?thesis
      unfolding quiet_inv_def using loop_step_inv [OF D(1)] q D LFin closing_closed [OF D(1)]
      by (cases f) auto
  qed (use inv D in auto)
qed

lemma quiet_job_step:
  assumes inv: "quiet_inv c" and i: "i < length (jobs c)" and step: "job_step data n i c = Some c'" and q: "quiet c'"
  shows "quiet_inv c'"
proof -
  note D = quiet_invD [OF inv] and C = conn_invD [OF quiet_invD(1) [OF inv]]
  have mem: "jobs c ! i \<in> set (jobs c)" using i by simp
  have inv': "conn_inv c'" by (rule job_step_inv [OF D(1) i step])
  have live: "\<not> fdClosed c \<and> alive c \<and> closes c = 0 \<and> JFin FCas \<notin> set (jobs c) \<and> loop c \<noteq> LFin FCas"
    if "busy (jobs c ! i) \<noteq> 0"
  proof -
    from busy_pending [OF D(1) mem that] have p: "pendingJobs c \<noteq> 0" by simp
    with D(3,5) have "\<not> fdClosed c" "alive c" "JFin FCas \<notin> set (jobs c)" "loop c \<noteq> LFin FCas" by blast+
    with C(2) D(2) show ?thesis by (cases "loop c") auto
  qed
  have settled: "settled (loop c)" if "peerClosed c" "jobs c ! i \<noteq> JFin FDone"
    using that D(2) C(4) mem by (cases "loop c") (auto simp: all_done_def)
  have dead: "fdClosed c" if "closing (jobs c ! i) \<noteq> 0"
    using closing_closed [OF D(1)] that mem D(2) by (cases "loop c = LStopped") auto
  have old: "JFin f \<in> set (jobs c)" if "JFin f \<in> set ((jobs c)[i := v])" "v \<noteq> JFin f" for f v
    using in_set_update [OF that(1)] that(2) by auto
  show ?thesis
  proof (cases "jobs c ! i")
    case (JWork m)
    with step live D(1-4,6-8) q inv' old [of FPend "JSend m data 0"] old [of FCas "JSend m data 0"] show ?thesis
      by (auto simp: job_step_def send_enter_def quiet_inv_def split: if_splits)
  next
    case (JSend m answer sent)
    then have c': "c' = send_round n i m answer sent c" using step by (simp add: job_step_def send_enter_def)
    have l: "\<not> fdClosed c" "alive c" "closes c = 0" "JFin FCas \<notin> set (jobs c)" "loop c \<noteq> LFin FCas"
      using live JSend by simp_all
    have f: "JFin FCas \<notin> set (jobs c')" "JFin FPend \<in> set (jobs c') \<Longrightarrow> settled (loop c)"
      unfolding c' by (rule send_round_cases [of sent answer n i m c];
          use l(4) D(4) old [of _ "JSend m answer (sent + nat n)"] old [of _ JDec] in fastforce)+
    have a: "(\<forall>a \<in> set (answered c'). snd a) \<and> (\<forall>p \<in> set (puts c'). snd (snd p))"
      unfolding c' by (rule send_round_cases [of sent answer n i m c]) (use l(3) D(7,8) in auto)
    show ?thesis using inv' q f a l D(6) unfolding quiet_inv_def c' by simp
  next
    case JDec
    with step live D q inv' old [of FPend "JFin FPeer"] old [of FCas "JFin FPeer"] show ?thesis
      by (auto simp: job_step_def send_enter_def quiet_inv_def)
  next
    case (JFin f)
    with step D settled dead mem q inv' old [of FPend] old [of FCas] show ?thesis
      by (cases f) (auto simp: job_step_def send_enter_def quiet_inv_def split: if_splits)
  qed
qed


definition quiet_step :: "connection \<Rightarrow> connection \<Rightarrow> bool" where
  "quiet_step c c' \<longleftrightarrow> conn_step c c' \<and> quiet c'"

interpretation quiet: invariant_system "\<lambda>c. c = new_connection" quiet_step quiet_inv
proof (unfold_locales, goal_cases)
  case (1 c)
  then show ?case using conn_inv_start by (simp add: quiet_inv_def quiet_def new_connection_def)
next
  case (2 c c')
  note D = quiet_invD [OF 2(1)] and C = conn_invD [OF quiet_invD(1) [OF 2(1)]]
  from 2(2) have step: "conn_step c c'" and q: "quiet c'" unfolding quiet_step_def by auto
  have inv': "conn_inv c'" by (rule conn.step_inv [OF D(1) step])
  from step show ?case
  proof cases
    case (readable eof ms)
    with C(4,5) have np: "\<not> peerClosed c" "\<not> fdClosed c" by auto
    with D(3,4) readable have "JFin FCas \<notin> set (jobs c)" "JFin FPend \<notin> set (jobs c)" by fastforce+
    with readable q inv' D np show ?thesis
      by (auto simp: quiet_inv_def handleReadable_def)
  next
    case stop
    with q show ?thesis by (simp add: quiet_def)
  next
    case loop
    with quiet_loop_step [OF 2(1)] q show ?thesis by simp
  next
    case (job i)
    with quiet_job_step [OF 2(1)] q show ?thesis by simp
  qed
qed

section \<open>Properties\<close>

lemma send_loop_take:
  "send_loop data sent rs = take (nat (sum_list (takeWhile (\<lambda>n. 0 < n) rs))) (drop sent data)"
proof (induction rs arbitrary: sent)
  case (Cons n rs)
  have "0 \<le> sum_list (takeWhile (\<lambda>n. 0 < n) rs)"
    by (intro sum_list_nonneg) (auto dest: set_takeWhileD)
  then show ?case
    using Cons by (auto simp: transferred_def nat_add_distrib take_add add.commute)
qed simp

text \<open>
  However the kernel splits the transfer, safeSend puts a prefix of the answer on the wire,
  in order and without a repeated byte: as many bytes as the calls of send before the first
  failure report together, and nothing on a connection that is not alive.
\<close>

lemma safeSend_prefix:
  "safeSend is_alive data rs =
     (if is_alive then take (nat (sum_list (takeWhile (\<lambda>n. 0 < n) rs))) data else [])"
  by (simp add: safeSend_def send_loop_take)

text \<open>The rounds of a job in the send loop, as the results of send come in.\<close>

fun send_rounds :: "int list \<Rightarrow> nat \<Rightarrow> connection \<Rightarrow> connection" where
  "send_rounds [] i c = c"
| "send_rounds (n # rs) i c =
     (case jobs c ! i of
        JSend m answer sent \<Rightarrow> send_rounds rs i (send_round n i m answer sent c)
      | _ \<Rightarrow> c)"

lemma send_rounds_stop: "jobs c ! i = JDec \<Longrightarrow> send_rounds rs i c = c"
  by (cases rs) simp_all

lemma send_loop_stop: "length data \<le> sent \<Longrightarrow> send_loop data sent rs = []"
  by (cases rs) simp_all

text \<open>
  Together they put on the descriptor what the loop of safeSend puts there, and a job whose
  answer is not empty is counted as answered exactly when every byte of it is out.
\<close>

lemma send_rounds_loop:
  assumes "i < length (jobs c)" and "jobs c ! i = JSend m data sent" and "sent < length data"
  shows "concat (map (fst \<circ> snd) (puts (send_rounds rs i c))) =
      concat (map (fst \<circ> snd) (puts c)) @ send_loop data sent rs"
    and "answered (send_rounds rs i c) \<noteq> answered c \<longleftrightarrow> send_loop data sent rs = drop sent data"
  using assms
proof (induction rs arbitrary: c sent)
  case (Cons n rs)
  {
    case 1
    show ?case
    proof (cases rule: send_round_cases [of sent data n i m c])
      case more
      with 1 Cons(1) [of "send_round n i m data sent c" "sent + nat n"] show ?thesis by simp
    next
      case all
      with 1 show ?thesis by (simp add: send_rounds_stop send_loop_stop)
    qed (use 1 in \<open>simp add: send_rounds_stop\<close>)
  next
    case 2
    show ?case
    proof (cases rule: send_round_cases [of sent data n i m c])
      case more
      have "transferred data sent n @ drop (sent + nat n) data = drop sent data"
        unfolding transferred_def by (metis append_take_drop_id drop_drop add.commute)
      then have "transferred data sent n @ xs = drop sent data \<longleftrightarrow> xs = drop (sent + nat n) data" for xs
        by (metis append_same_eq same_append_eq)
      with more 2 Cons(2) [of "send_round n i m data sent c" "sent + nat n"] show ?thesis by simp
    next
      case all
      then have "length data - sent \<le> nat n" using 2(3) by linarith
      with all 2 show ?thesis by (simp add: send_rounds_stop send_loop_stop transferred_def)
    qed (use 2 in \<open>simp add: send_rounds_stop\<close>)
  }
qed simp_all

lemma closes_le:
  assumes "conn_inv c"
  shows "closes c \<le> 1"
proof -
  note D = conn_invD [OF assms]
  have "loop c \<noteq> LStopped" if "fdClosed c"
    using D(4,5) that by (cases "loop c") auto
  with D(2) show ?thesis by (auto simp: of_bool_def split: if_splits)
qed

lemma finished_closed:
  assumes inv: "conn_inv c" and fin: "finished c"
  shows "closes c = 1"
    and "mset (arrived c) = mset (map fst (answered c)) + mset (dropped c) + mset (map snd (failed c))"
proof -
  note D = conn_invD [OF inv]
  from fin have z: "\<forall>j \<in> set (jobs c). j = JFin FDone" unfolding finished_def by simp
  note Z = sum_zero_fin [OF z]
  show "mset (arrived c) = mset (map fst (answered c)) + mset (dropped c) + mset (map snd (failed c))"
    using D(3) Z by (simp add: over_def)
  from fin consider "loop c = LGone" | "loop c = LStopped" unfolding finished_def by blast
  then show "closes c = 1"
  proof cases
    case 1
    with D(1) Z have "pendingJobs c = 0" by simp
    with 1 D(7) z have "fdClosed c" unfolding trying_def by fastforce
    with 1 D(2) Z show ?thesis by simp
  next
    case 2
    with D(4,5) have "\<not> fdClosed c" by auto
    with 2 D(2) Z show ?thesis by simp
  qed
qed

text \<open>
  C19. The descriptor of a connection is closed at most once under every interleaving of the event
  loop, any number of jobs and stop, and when the connection is over (given up after the end of
  the stream, or stopped, and every job ended) it has been closed exactly once, so that no
  descriptor leaks; every message submitted was then answered to the last byte, or its answer was
  given up because the connection was no longer alive or because a call of send failed, once.
\<close>

theorem fd_closed_once:
  assumes "conn_step\<^sup>*\<^sup>* new_connection c"
  shows "closes c \<le> 1 \<and> (finished c \<longrightarrow> closes c = 1 \<and>
    mset (arrived c) = mset (map fst (answered c)) + mset (dropped c) + mset (map snd (failed c)))"
  using conn.reachable_inv [OF refl assms] closes_le finished_closed by blast

definition demo_cmds :: "conn_cmd list" where
  "demo_cmds = [Readable True [''m''], Loop, Loop, Loop, Job 0, Loop, Loop, Job 0, Job 0, Loop] @
     replicate 6 (Job 0)"

theorem fd_closed_once_witness:
  "finished (fold conn_exec demo_cmds new_connection) \<and>
   closes (fold conn_exec demo_cmds new_connection) = 1"
proof -
  have "finished (fold conn_exec demo_cmds new_connection)" by code_simp
  with fd_closed_once [OF conn_run_steps, of demo_cmds] show ?thesis by simp
qed

text \<open>
  No answer is lost when the end of the stream is read with no complete message left in the
  buffer, or with one while no job of the connection is active (the client that sends one
  message and disconnects): every byte is sent while the descriptor is open, and every message is
  answered to the last byte unless a call of send fails.
\<close>

lemma quiet_end_answers_all:
  assumes "quiet_step\<^sup>*\<^sup>* new_connection c"
  shows "dropped c = [] \<and> (\<forall>(m, bytes, is_open) \<in> set (puts c). is_open) \<and>
    (finished c \<longrightarrow> mset (arrived c) = mset (map fst (answered c)) + mset (map snd (failed c)) \<and> closes c = 1)"
proof -
  note D = quiet_invD [OF quiet.reachable_inv [OF refl assms]]
  have "is_open" if "(m, bytes, is_open) \<in> set (puts c)" for m bytes is_open using D(8) [OF that] by simp
  then have "\<forall>(m, bytes, is_open) \<in> set (puts c). is_open" by blast
  with D(6) finished_closed [OF D(1)] show ?thesis by simp
qed

fun quiet_run :: "conn_cmd list \<Rightarrow> connection \<Rightarrow> bool" where
  "quiet_run [] c = True"
| "quiet_run (k # ks) c = (quiet (conn_exec k c) \<and> quiet_run ks (conn_exec k c))"

lemma conn_exec_step: "conn_exec k c = c \<or> conn_step c (conn_exec k c)"
  by (cases k) (auto split: option.split intro: conn_step.intros)

lemma quiet_run_steps: "quiet_run ks c \<Longrightarrow> quiet_step\<^sup>*\<^sup>* c (fold conn_exec ks c)"
proof (induction ks arbitrary: c)
  case (Cons k ks)
  have "quiet_step\<^sup>*\<^sup>* c (conn_exec k c)"
    using conn_exec_step [of k c] Cons.prems by (auto simp: quiet_step_def)
  with Cons show ?case by (auto intro: rtranclp_trans)
qed simp

lemma quiet_end_answers_all_witness:
  "dropped (fold conn_exec demo_cmds new_connection) = [] \<and>
   answered (fold conn_exec demo_cmds new_connection) = [(''m'', True)] \<and>
   mset (arrived (fold conn_exec demo_cmds new_connection)) = {#''m''#}"
proof -
  have "quiet_run demo_cmds new_connection" by code_simp
  from quiet_end_answers_all [OF quiet_run_steps [OF this]]
  show ?thesis
    by (intro conjI) (simp, code_simp, code_simp)
qed

text \<open>
  A call of send that finds the buffer of the socket full cuts the answer: the client gets its
  first bytes only, and the connection goes on.
\<close>

lemma answer_cut:
  "\<exists>c. conn_step\<^sup>*\<^sup>* new_connection c \<and> finished c \<and> arrived c = [m] \<and>
    puts c = [(m, ''8=FI'', True)] \<and> answered c = [] \<and> failed c = [(0, m)]"
proof -
  let ?ks = "[Readable True [m], Loop, Loop, Loop, JobSend ''8=FIX.4.4'' 0 0, JobSend [] 4 0, JobSend [] (-1) 0] @
    replicate 6 Loop @ replicate 8 (Job 0)"
  let ?c = "fold conn_exec ?ks new_connection"
  have "finished ?c \<and> arrived ?c = [m] \<and> puts ?c = [(m, ''8=FI'', True)] \<and> answered ?c = [] \<and> failed ?c = [(0, m)]"
    by (simp add: numeral_eq_Suc new_connection_def handleReadable_def job_step_def send_enter_def send_defs transferred_def finished_def)
  with conn_run_steps show ?thesis by blast
qed

text \<open>
  C34. The guard against early closing has a hole: peerClosed is set before the messages of the
  last batch are dispatched, so with two messages and the end of the stream in one batch the
  job of the first can find peerClosed set and no job pending, and closes the descriptor before
  the second message is dispatched; the answer of the second is dropped.
\<close>

theorem early_close_drops_answer:
  "\<exists>c. conn_step\<^sup>*\<^sup>* new_connection c \<and> finished c \<and>
    arrived c = [m1, m2] \<and> answered c = [(m1, True)] \<and> dropped c = [m2]"
proof -
  let ?ks = "[Readable True [m1, m2], Loop, Loop] @ replicate 8 (Job 0) @ [Loop, Loop] @
    replicate 6 (Job 1) @ replicate 6 Loop"
  let ?c = "fold conn_exec ?ks new_connection"
  have "finished ?c \<and> arrived ?c = [m1, m2] \<and> answered ?c = [(m1, True)] \<and> dropped ?c = [m2]"
    by (simp add: numeral_eq_Suc new_connection_def handleReadable_def job_step_def send_enter_def send_defs finished_def)
  with conn_run_steps show ?thesis by blast
qed

end
