(* ===== verification/Server.thy ===== *)
theory Server
  imports Connection
begin

text \<open>
  The sockets of include/EventLoop.hpp and of src/server\_main.cpp: the listening socket, epoll,
  the table \<open>connections\_\<close>, accepting, routing and stop, for any number of connections.  The
  descriptor table of the kernel is explicit, because a descriptor number is given out again
  after it was closed; what accept promises (a non-negative number that is not in use) is the
  guard of its step.  The life of each Connection object is that of theory Connection.
\<close>

section \<open>State\<close>

text \<open>What a descriptor refers to; clients are numbered as they are accepted.\<close>

datatype sock = Listener | Epoll | Client nat

text \<open>
  \<open>fds\<close> is the descriptor table, \<open>interest\<close> the interest list of epoll and \<open>nonblocking\<close> has the
  descriptors with O\_NONBLOCK; \<open>objs\<close> are the
  Connection objects with their fd, in the order they were made.  \<open>delivered\<close> records for
  every call of send that took bytes the object that called it, what its fd referred to at that
  moment, and the message that is answered.
\<close>

record server =
  listenFd :: int
  epollFd :: int
  running :: bool
  announced :: bool
  bound :: bool
  fds :: "int \<rightharpoonup> sock"
  interest :: "int set"
  nonblocking :: "int set"
  connections :: "int \<rightharpoonup> nat"
  objs :: "(int \<times> connection) list"
  delivered :: "(nat \<times> sock option \<times> string) list"

definition new_server :: server where
  "new_server = \<lparr>listenFd = -1, epollFd = -1, running = False, announced = False, bound = False,
     fds = Map.empty, interest = {}, nonblocking = {}, connections = Map.empty, objs = [], delivered = []\<rparr>"

abbreviation conn_of :: "server \<Rightarrow> nat \<Rightarrow> connection" where
  "conn_of s k \<equiv> snd (objs s ! k)"

abbreviation fd_of :: "server \<Rightarrow> nat \<Rightarrow> int" where
  "fd_of s k \<equiv> fst (objs s ! k)"

section \<open>Operations\<close>

definition close_fd :: "int \<Rightarrow> server \<Rightarrow> server" where
  "close_fd fd s = s\<lparr>fds := (fds s)(fd := None), interest := interest s - {fd}, nonblocking := nonblocking s - {fd}\<rparr>"

text \<open>fcntl fails, and nobody looks, when the descriptor is not open.\<close>

definition setNonBlocking :: "int \<Rightarrow> server \<Rightarrow> server" where
  "setNonBlocking fd s = (if fds s fd \<noteq> None then s\<lparr>nonblocking := insert fd (nonblocking s)\<rparr> else s)"

text \<open>\<open>fd\<close>, \<open>bindOk\<close> and \<open>listenOk\<close> are the results of socket, bind and listen.\<close>

definition setupListenSocket :: "int \<Rightarrow> bool \<Rightarrow> bool \<Rightarrow> server \<Rightarrow> server" where
  "setupListenSocket fd bindOk listenOk s =
     (let s = s\<lparr>listenFd := fd, fds := (if 0 \<le> fd then (fds s)(fd \<mapsto> Listener) else fds s), bound := bindOk \<and> listenOk\<rparr>
      in if \<not> bindOk then s else if \<not> listenOk then s else setNonBlocking (listenFd s) s)"

text \<open>epoll\_ctl fails, and nobody looks, when the descriptor or epoll itself is not open.\<close>

definition registerFd :: "int \<Rightarrow> server \<Rightarrow> server" where
  "registerFd fd s =
     (if fds s (epollFd s) = Some Epoll \<and> fds s fd \<noteq> None then s\<lparr>interest := insert fd (interest s)\<rparr> else s)"

text \<open>run up to its loop; \<open>ep\<close> is the result of epoll\_create1.\<close>

definition run_setup :: "int \<Rightarrow> bool \<Rightarrow> bool \<Rightarrow> int \<Rightarrow> server \<Rightarrow> server" where
  "run_setup fd bindOk listenOk ep s =
     (let s = setupListenSocket fd bindOk listenOk s;
          s = s\<lparr>epollFd := ep\<rparr>
      in if ep < 0 then s
         else (registerFd (listenFd s) (s\<lparr>fds := (fds s)(ep \<mapsto> Epoll)\<rparr>))\<lparr>announced := True, running := True\<rparr>)"

text \<open>One round of the loop of acceptNewConnections, in which accept has returned \<open>clientFd\<close>.\<close>

definition accept_one :: "int \<Rightarrow> server \<Rightarrow> server" where
  "accept_one clientFd s =
     (let k = length (objs s);
          s = setNonBlocking clientFd (s\<lparr>fds := (fds s)(clientFd \<mapsto> Client k)\<rparr>);
          s = registerFd clientFd s
      in s\<lparr>connections := (connections s)(clientFd \<mapsto> k), objs := objs s @ [(clientFd, new_connection)]\<rparr>)"

text \<open>The results of accept, up to the first negative one.\<close>

fun acceptNewConnections :: "int list \<Rightarrow> server \<Rightarrow> server" where
  "acceptNewConnections [] s = s"
| "acceptNewConnections (clientFd # rs) s =
     (if clientFd < 0 then s else acceptNewConnections rs (accept_one clientFd s))"

text \<open>
  handleReadable for the descriptor of an event, up to the first message it dispatches: the
  messages \<open>ms\<close> are what the buffer then holds, \<open>eof\<close> is whether recv returned 0.
\<close>

definition route :: "int \<Rightarrow> bool \<Rightarrow> string list \<Rightarrow> server \<Rightarrow> server" where
  "route fd eof ms s =
     (case connections s fd of
        None \<Rightarrow> s
      | Some k \<Rightarrow>
          (let s = s\<lparr>objs := (objs s)[k := (fd_of s k, handleReadable eof ms (conn_of s k))]\<rparr>
           in if eof then s\<lparr>interest := interest s - {fd}, connections := (connections s)(fd := None)\<rparr> else s))"

text \<open>What one event of epoll\_wait makes run do.\<close>

datatype event = Event int "int list" bool "string list"

fun handle_event :: "event \<Rightarrow> server \<Rightarrow> server" where
  "handle_event (Event fd accepts eof ms) s =
     (if fd = listenFd s then acceptNewConnections accepts s else route fd eof ms s)"

text \<open>
  stop: the loop over the connections is started here, its two statements for each connection
  are steps of that connection.
\<close>

definition stop_conn :: "int \<times> connection \<Rightarrow> int \<times> connection" where
  "stop_conn p = (fst p, (snd p)\<lparr>loop := LStopAlive\<rparr>)"

definition stop :: "server \<Rightarrow> server" where
  "stop s =
     (let s = s\<lparr>running := False\<rparr>;
          s = (if 0 \<le> listenFd s then (close_fd (listenFd s) s)\<lparr>listenFd := -1\<rparr> else s);
          s = (if 0 \<le> epollFd s then (close_fd (epollFd s) s)\<lparr>epollFd := -1\<rparr> else s)
      in s\<lparr>objs := map (\<lambda>k. if connections s (fd_of s k) = Some k then stop_conn (objs s ! k) else objs s ! k)
                  [0..<length (objs s)],
           connections := Map.empty\<rparr>)"

text \<open>
  closeConnection, which nothing calls: as in stop, the store to alive and the close are the next
  steps of the connection.
\<close>

definition closeConnection :: "int \<Rightarrow> server \<Rightarrow> server" where
  "closeConnection fd s =
     (case connections s fd of
        None \<Rightarrow> s
      | Some k \<Rightarrow>
          s\<lparr>objs := (objs s)[k := stop_conn (objs s ! k)], interest := interest s - {fd},
            connections := (connections s)(fd := None)\<rparr>)"

text \<open>The handler of SIGINT, with the loop \<open>g_loop\<close> points to.\<close>

definition handleSigint :: "server option \<Rightarrow> server option" where
  "handleSigint g_loop = map_option stop g_loop"

text \<open>A connection has become \<open>c'\<close>: when it called close, the descriptor is free; bytes go to what the fd refers to.\<close>

definition update_conn :: "nat \<Rightarrow> connection \<Rightarrow> server \<Rightarrow> server" where
  "update_conn k c' s =
     (let fd = fd_of s k; c = conn_of s k;
          s1 = s\<lparr>objs := (objs s)[k := (fd, c')],
                 delivered := delivered s @ map (\<lambda>p. (k, fds s fd, fst p)) (drop (length (puts c)) (puts c'))\<rparr>
      in if closes c < closes c' then close_fd fd s1 else s1)"

section \<open>Steps\<close>

text \<open>The event loop thread is at its epoll\_wait.\<close>

fun resting :: "lpc \<Rightarrow> bool" where
  "resting LIdle = True" | "resting LGone = True" | "resting LStopped = True" | "resting _ = False"

definition waiting :: "server \<Rightarrow> bool" where
  "waiting s \<longleftrightarrow> running s \<and> (\<forall>p \<in> set (objs s). resting (loop (snd p)))"

text \<open>accept returns numbers that are not in use, then a negative one.\<close>

fun fresh_fds :: "int list \<Rightarrow> server \<Rightarrow> bool" where
  "fresh_fds [] s = True"
| "fresh_fds (fd # rs) s = (fd < 0 \<or> fds s fd = None \<and> fresh_fds rs (accept_one fd s))"

inductive server_step :: "server \<Rightarrow> server \<Rightarrow> bool" where
  event: "waiting s \<Longrightarrow> fd \<in> interest s \<Longrightarrow> fresh_fds accepts s \<Longrightarrow>
     server_step s (handle_event (Event fd accepts eof ms) s)"
| loop: "k < length (objs s) \<Longrightarrow> server_step s (update_conn k (loop_step (loop (conn_of s k)) (conn_of s k)) s)"
| job: "k < length (objs s) \<Longrightarrow> i < length (jobs (conn_of s k)) \<Longrightarrow> job_step data n i (conn_of s k) = Some c' \<Longrightarrow>
     server_step s (update_conn k c' s)"
| stop: "waiting s \<Longrightarrow> handleSigint (Some s) = Some s' \<Longrightarrow> server_step s s'"

section \<open>The invariant\<close>

text \<open>The event loop still routes to the connection.\<close>

fun stopping :: "lpc \<Rightarrow> bool" where
  "stopping LStopAlive = True" | "stopping LStopClose = True" | "stopping LStopped = True" | "stopping _ = False"

definition routed :: "connection \<Rightarrow> bool" where
  "routed c \<longleftrightarrow> \<not> peerClosed c \<and> \<not> stopping (loop c)"

text \<open>Connection \<open>k\<close> with descriptor \<open>fd\<close>, in the tables of the server.\<close>

definition conn_ok :: "server \<Rightarrow> nat \<Rightarrow> bool" where
  "conn_ok s k \<longleftrightarrow> conn_inv (conn_of s k) \<and>
     (closes (conn_of s k) = 0 \<longleftrightarrow> fds s (fd_of s k) = Some (Client k)) \<and>
     (routed (conn_of s k) \<longleftrightarrow> connections s (fd_of s k) = Some k) \<and>
     (routed (conn_of s k) \<longrightarrow> fd_of s k \<in> interest s)"

definition server_inv :: "server \<Rightarrow> bool" where
  "server_inv s \<longleftrightarrow> (\<forall>k < length (objs s). conn_ok s k) \<and>
     (\<forall>fd k. fds s fd = Some (Client k) \<longrightarrow> k < length (objs s) \<and> fd_of s k = fd) \<and>
     (\<forall>fd k. connections s fd = Some k \<longrightarrow> k < length (objs s) \<and> fd_of s k = fd) \<and>
     (\<forall>fd. fds s fd = Some Listener \<longrightarrow> listenFd s = fd) \<and> (\<forall>fd. fds s fd = Some Epoll \<longrightarrow> epollFd s = fd) \<and>
     (0 \<le> listenFd s \<longrightarrow> fds s (listenFd s) = Some Listener) \<and> (0 \<le> epollFd s \<longrightarrow> fds s (epollFd s) = Some Epoll) \<and>
     (running s \<longrightarrow> 0 \<le> listenFd s \<and> 0 \<le> epollFd s) \<and> interest s \<subseteq> dom (fds s) \<and> fds s (-1) = None"

lemma server_invD:
  assumes "server_inv s"
  shows "\<And>k. k < length (objs s) \<Longrightarrow> conn_ok s k"
    and "\<And>fd k. fds s fd = Some (Client k) \<Longrightarrow> k < length (objs s) \<and> fd_of s k = fd"
    and "\<And>fd k. connections s fd = Some k \<Longrightarrow> k < length (objs s) \<and> fd_of s k = fd"
    and "\<And>fd. fds s fd = Some Listener \<Longrightarrow> listenFd s = fd" and "\<And>fd. fds s fd = Some Epoll \<Longrightarrow> epollFd s = fd"
    and "0 \<le> listenFd s \<Longrightarrow> fds s (listenFd s) = Some Listener" and "0 \<le> epollFd s \<Longrightarrow> fds s (epollFd s) = Some Epoll"
    and "running s \<Longrightarrow> 0 \<le> listenFd s \<and> 0 \<le> epollFd s" and "interest s \<subseteq> dom (fds s)"
    and "fds s (-1) = None"
  using assms unfolding server_inv_def by blast+

lemma server_invI:
  assumes "\<And>k. k < length (objs s) \<Longrightarrow> conn_ok s k"
    and "\<And>fd k. fds s fd = Some (Client k) \<Longrightarrow> k < length (objs s) \<and> fd_of s k = fd"
    and "\<And>fd k. connections s fd = Some k \<Longrightarrow> k < length (objs s) \<and> fd_of s k = fd"
    and "\<And>fd. fds s fd = Some Listener \<Longrightarrow> listenFd s = fd" and "\<And>fd. fds s fd = Some Epoll \<Longrightarrow> epollFd s = fd"
    and "0 \<le> listenFd s \<Longrightarrow> fds s (listenFd s) = Some Listener" and "0 \<le> epollFd s \<Longrightarrow> fds s (epollFd s) = Some Epoll"
    and "running s \<Longrightarrow> 0 \<le> listenFd s \<and> 0 \<le> epollFd s" and "interest s \<subseteq> dom (fds s)"
    and "fds s (-1) = None"
  shows "server_inv s"
  using assms unfolding server_inv_def by blast

lemma routed_open:
  assumes "conn_inv c" and "routed c"
  shows "closes c = 0"
proof -
  note D = conn_invD [OF assms(1)]
  have "\<not> fdClosed c" "loop c \<noteq> LStopped" using D(5) assms(2) by (auto simp: routed_def)
  with D(2) show ?thesis by simp
qed

lemma routed_new: "routed new_connection" "conn_inv new_connection" "closes new_connection = 0"
  by (simp_all add: routed_def new_connection_def conn_inv_start [unfolded new_connection_def])

text \<open>A step of one connection.\<close>

lemma conn_effect:
  assumes inv: "conn_inv c" and st: "c' = loop_step (loop c) c \<or> (\<exists>data n i. i < length (jobs c) \<and> job_step data n i c = Some c')"
  shows "conn_inv c'" and "routed c' = routed c" and "closes c' = closes c \<or> closes c = 0 \<and> closes c' = 1"
proof -
  show inv': "conn_inv c'" using st loop_step_inv [OF inv] job_step_inv [OF inv] by blast
  have fin: "peerClosed (fst (tryFinalize f c)) = peerClosed c" "loop (fst (tryFinalize f c)) = loop c"
    "closes (fst (tryFinalize f c)) = closes c \<or> closes (fst (tryFinalize f c)) = Suc (closes c)" for f
    by (cases f; simp)+
  have "routed c' = routed c \<and> (closes c' = closes c \<or> closes c' = Suc (closes c))"
    using st
  proof
    assume c': "c' = loop_step (loop c) c"
    show ?thesis
    proof (cases "loop c")
      case (LDisp eof ms)
      with c' conn_invD(4) [OF inv] show ?thesis by (cases ms) (auto simp: routed_def)
    next
      case (LFin f)
      with c' conn_invD(4) [OF inv] fin [of f] show ?thesis
        by (cases "f = FDone") (auto simp: routed_def split: prod.splits)
    qed (use c' conn_invD(4) [OF inv] in \<open>auto simp: routed_def\<close>)
  next
    assume "\<exists>data n i. i < length (jobs c) \<and> job_step data n i c = Some c'"
    then obtain data n i where st: "job_step data n i c = Some c'" by blast
    then show ?thesis
    proof (cases "jobs c ! i")
      case (JFin f)
      with st fin [of f] show ?thesis
        by (auto simp: job_step_def send_enter_def routed_def split: if_splits prod.splits)
    qed (auto simp: job_step_def send_enter_def routed_def split: if_splits)
  qed
  with closes_le [OF inv'] closes_le [OF inv] show "routed c' = routed c" "closes c' = closes c \<or> closes c = 0 \<and> closes c' = 1"
    by auto
qed

lemma update_conn_fields:
  "connections (update_conn k c' s) = connections s" "listenFd (update_conn k c' s) = listenFd s"
  "epollFd (update_conn k c' s) = epollFd s" "running (update_conn k c' s) = running s"
  "objs (update_conn k c' s) = (objs s)[k := (fd_of s k, c')]"
  "fds (update_conn k c' s) =
     (if closes (conn_of s k) < closes c' then (fds s)(fd_of s k := None) else fds s)"
  "interest (update_conn k c' s) =
     (if closes (conn_of s k) < closes c' then interest s - {fd_of s k} else interest s)"
  by (simp_all add: update_conn_def Let_def close_fd_def)

lemma update_conn_inv:
  assumes inv: "server_inv s" and k: "k < length (objs s)"
    and c': "conn_inv c'" "routed c' = routed (conn_of s k)"
      "closes c' = closes (conn_of s k) \<or> closes (conn_of s k) = 0 \<and> closes c' = 1"
  shows "server_inv (update_conn k c' s)"
proof -
  let ?t = "update_conn k c' s" and ?fd = "fd_of s k"
  note I = server_invD [OF inv] and F = update_conn_fields [of k c' s]
  note K = I(1) [OF k, unfolded conn_ok_def]
  have len: "length (objs ?t) = length (objs s)" by (simp add: F)
  have fdo: "fd_of ?t j = fd_of s j" for j using k by (cases "j = k"; simp add: F)
  have other: "objs ?t ! j = objs s ! j" if "j \<noteq> k" for j using that by (simp add: F)
  have own: "objs ?t ! k = (?fd, c')" using k by (simp add: F)
  show ?thesis
  proof (cases "closes (conn_of s k) < closes c'")
    case False
    then have cl: "closes c' = closes (conn_of s k)" using c'(3) by auto
    have "conn_ok ?t j" if "j < length (objs s)" for j
      using I(1) [OF that] K c' cl own other [of j] False by (cases "j = k") (auto simp: conn_ok_def F)
    then show ?thesis using I(2-10) False unfolding server_inv_def len F by (simp add: fdo [unfolded F])
  next
    case True
    then have cl: "closes (conn_of s k) = 0" "closes c' = 1" using c'(3) by auto
    have fk: "fds s ?fd = Some (Client k)" using K cl by blast
    have nr: "\<not> routed c'" using routed_open [OF c'(1)] cl by auto
    have "conn_ok ?t j" if j: "j < length (objs s)" for j
    proof (cases "j = k")
      case True
      then show ?thesis using own K c' cl nr by (auto simp: conn_ok_def F)
    next
      case False
      note J = I(1) [OF j, unfolded conn_ok_def]
      have ne: "fd_of s j \<noteq> ?fd" if "fds s (fd_of s j) = Some (Client j)" using that fk False by auto
      have rj: "fds s (fd_of s j) = Some (Client j)" if "routed (conn_of s j)"
        using routed_open [of "conn_of s j"] J that by simp
      have gone: "fds ?t (fd_of s j) = Some (Client j) \<longleftrightarrow> fds s (fd_of s j) = Some (Client j)"
        using ne \<open>closes (conn_of s k) < closes c'\<close> by (auto simp: F)
      have "fd_of s j \<in> interest ?t" if "routed (conn_of s j)"
        using J ne rj that by (auto simp: F)
      with J gone other [OF False] show ?thesis by (simp add: conn_ok_def F(1))
    qed
    then have ok: "\<forall>j < length (objs s). conn_ok ?t j" by blast
    have old: "fds ?t fd = Some v \<Longrightarrow> fds s fd = Some v" for fd v
      using True by (auto simp: F split: if_splits)
    have new: "fds s fd = Some v \<Longrightarrow> v \<noteq> Client k \<Longrightarrow> fds ?t fd = Some v" for fd v
      using fk by (auto simp: F)
    have within: "interest ?t \<subseteq> dom (fds ?t)" using I(9) True by (auto simp: F)
    show ?thesis
      by (rule server_invI; (unfold len fdo F(1-4))?)
        (use ok I(3) I(8) in blast, use I(2) [OF old] in blast, use I(3) in blast, use I(4) [OF old] in blast,
          use I(5) [OF old] in blast, use new [OF I(6)] in blast, use new [OF I(7)] in blast, use I(8) in blast, use within in blast, use I(10) in \<open>simp add: F\<close>)
  qed
qed

lemma accept_one_inv:
  assumes inv: "server_inv s" and run: "running s" and fr: "fds s fd = None" "0 \<le> fd"
  shows "server_inv (accept_one fd s)" and "running (accept_one fd s)"
proof -
  note I = server_invD [OF inv]
  let ?k = "length (objs s)" and ?t = "accept_one fd s"
  have ep: "fds s (epollFd s) = Some Epoll" "fd \<noteq> epollFd s" using I(7) I(8) [OF run] fr by auto
  have t: "?t = s\<lparr>fds := (fds s)(fd \<mapsto> Client ?k), interest := insert fd (interest s),
      nonblocking := insert fd (nonblocking s), connections := (connections s)(fd \<mapsto> ?k), objs := objs s @ [(fd, new_connection)]\<rparr>"
    unfolding accept_one_def Let_def using ep by (simp add: registerFd_def setNonBlocking_def)
  show "running ?t" using run by (simp add: t)
  have nr: "connections s fd = None"
  proof (rule ccontr)
    assume "connections s fd \<noteq> None"
    then obtain j where j: "connections s fd = Some j" by blast
    from I(3) [OF this] I(1) [of j] have "conn_ok s j" "fd_of s j = fd" by auto
    with j routed_open [of "conn_of s j"] fr show False by (auto simp: conn_ok_def)
  qed
  have "conn_ok ?t j" if "j < Suc ?k" for j
  proof (cases "j = ?k")
    case True
    then show ?thesis using routed_new by (simp add: conn_ok_def t)
  next
    case False
    with that have j: "j < ?k" by simp
    have "objs ?t ! j = objs s ! j" using j by (simp add: t nth_append)
    with I(1) [OF j] fr nr j show ?thesis by (auto simp: conn_ok_def t)
  qed
  then have "\<forall>j < length (objs ?t). conn_ok ?t j" by (simp add: t)
  then show "server_inv ?t"
    unfolding server_inv_def using I(2-10) fr by (auto simp: t nth_append less_Suc_eq)
qed

lemma accepts_inv:
  assumes "server_inv s" and "running s" and "fresh_fds rs s"
  shows "server_inv (acceptNewConnections rs s)"
  using assms by (induction rs s rule: acceptNewConnections.induct) (auto intro: accept_one_inv simp: not_less)

lemma routed_idle:
  assumes "server_inv s" and "waiting s" and "k < length (objs s)" and "routed (conn_of s k)"
  shows "loop (conn_of s k) = LIdle"
proof -
  have "resting (loop (conn_of s k))" using assms(2,3) by (simp add: waiting_def)
  moreover have "peerClosed (conn_of s k) = loop_peer (loop (conn_of s k))"
    using server_invD(1) [OF assms(1,3)] conn_invD(4) by (simp add: conn_ok_def)
  ultimately show ?thesis using assms(4) by (cases "loop (conn_of s k)") (auto simp: routed_def)
qed

lemma route_inv:
  assumes inv: "server_inv s" and w: "waiting s"
  shows "server_inv (route fd eof ms s)"
proof (cases "connections s fd")
  case None
  with inv show ?thesis by (simp add: route_def)
next
  case (Some k)
  note I = server_invD [OF inv]
  let ?t = "route fd eof ms s" and ?c = "handleReadable eof ms (conn_of s k)"
  have k: "k < length (objs s)" "fd_of s k = fd" using I(3) [OF Some] by auto
  note K = I(1) [OF k(1), unfolded conn_ok_def k(2)]
  have idle: "loop (conn_of s k) = LIdle" using routed_idle [OF inv w k(1)] K Some by simp
  have ci: "conn_inv ?c" using conn.step_inv conn_step.readable [OF idle] K by blast
  have cl: "closes ?c = closes (conn_of s k)" "routed ?c \<longleftrightarrow> \<not> eof"
    using K Some by (auto simp: handleReadable_def routed_def)
  have t: "connections ?t = (if eof then (connections s)(fd := None) else connections s)"
      "interest ?t = (if eof then interest s - {fd} else interest s)" "fds ?t = fds s" "listenFd ?t = listenFd s"
      "epollFd ?t = epollFd s" "running ?t = running s" "objs ?t = (objs s)[k := (fd, ?c)]"
    using Some k by (simp_all add: route_def Let_def)
  have fdo: "fst ((objs s)[k := (fd, ?c)] ! j) = fd_of s j" for j using k by (cases "j = k") simp_all
  have "conn_ok ?t j" if j: "j < length (objs s)" for j
  proof (cases "j = k")
    case True
    with K Some ci cl k show ?thesis unfolding conn_ok_def t by simp
  next
    case False
    with I(1) [OF j] Some show ?thesis unfolding conn_ok_def t by auto
  qed
  then show ?thesis
    using I(2-10) unfolding server_inv_def t by (auto simp: fdo split: if_splits)
qed

lemma stop_inv:
  assumes inv: "server_inv s" and w: "waiting s"
  shows "server_inv (stop s)"
proof -
  note I = server_invD [OF inv]
  let ?t = "stop s"
  have run: "0 \<le> listenFd s" "0 \<le> epollFd s" using w I(8) by (auto simp: waiting_def)
  have t: "connections ?t = Map.empty" "fds ?t = (fds s)(listenFd s := None, epollFd s := None)"
      "interest ?t = interest s - {listenFd s} - {epollFd s}" "listenFd ?t = -1" "epollFd ?t = -1" "\<not> running ?t"
      "length (objs ?t) = length (objs s)"
    using run by (simp_all add: stop_def Let_def close_fd_def)
  have ob: "objs ?t ! j = (if connections s (fd_of s j) = Some j then stop_conn (objs s ! j) else objs s ! j)"
    if "j < length (objs s)" for j using that run by (simp add: stop_def Let_def close_fd_def)
  have fdo: "fd_of ?t j = fd_of s j" if "j < length (objs s)" for j by (simp add: ob [OF that] stop_conn_def)
  have keep: "fds ?t fd = Some (Client j) \<longleftrightarrow> fds s fd = Some (Client j)" for fd j
    using I(6) [OF run(1)] I(7) [OF run(2)] by (auto simp: t)
  have "conn_ok ?t j" if j: "j < length (objs s)" for j
  proof (cases "connections s (fd_of s j) = Some j")
    case True
    note J = I(1) [OF j, unfolded conn_ok_def]
    have "loop (conn_of s j) = LIdle" using routed_idle [OF inv w j] J True by blast
    from conn.step_inv [OF _ conn_step.stop [OF this]] J have "conn_inv (conn_of ?t j)"
      using True by (simp add: ob [OF j] stop_conn_def)
    with J True show ?thesis by (simp add: conn_ok_def keep fdo [OF j] t(1)) (simp add: ob [OF j] stop_conn_def routed_def)
  next
    case False
    with I(1) [OF j] show ?thesis by (simp add: conn_ok_def ob [OF j] keep t(1))
  qed
  moreover have "fds ?t fd \<noteq> Some Listener" "fds ?t fd \<noteq> Some Epoll" for fd using I(4,5) by (auto simp: t)
  moreover have "interest ?t \<subseteq> dom (fds ?t)" using I(9) by (auto simp: t)
  ultimately show ?thesis
    unfolding server_inv_def using I(2,10) keep fdo t by auto
qed

text \<open>closeConnection would keep the tables in order, were it called while the event loop waits.\<close>

lemma closeConnection_inv:
  assumes inv: "server_inv s" and w: "waiting s"
  shows "server_inv (closeConnection fd s)"
proof (cases "connections s fd")
  case None
  with inv show ?thesis by (simp add: closeConnection_def)
next
  case (Some k)
  note I = server_invD [OF inv]
  let ?t = "closeConnection fd s" and ?c = "snd (stop_conn (objs s ! k))"
  have k: "k < length (objs s)" "fd_of s k = fd" using I(3) [OF Some] by auto
  note K = I(1) [OF k(1), unfolded conn_ok_def k(2)]
  have idle: "loop (conn_of s k) = LIdle" using routed_idle [OF inv w k(1)] K Some by simp
  have ci: "conn_inv ?c" using conn.step_inv [OF _ conn_step.stop [OF idle]] K by (simp add: stop_conn_def)
  have cl: "closes ?c = closes (conn_of s k)" "\<not> routed ?c" by (simp_all add: stop_conn_def routed_def)
  have t: "connections ?t = (connections s)(fd := None)" "interest ?t = interest s - {fd}" "fds ?t = fds s"
      "listenFd ?t = listenFd s" "epollFd ?t = epollFd s" "running ?t = running s" "objs ?t = (objs s)[k := (fd, ?c)]"
    using Some k by (simp_all add: closeConnection_def stop_conn_def)
  have fdo: "fst ((objs s)[k := (fd, ?c)] ! j) = fd_of s j" for j using k by (cases "j = k") simp_all
  have "conn_ok ?t j" if j: "j < length (objs s)" for j
  proof (cases "j = k")
    case True
    with K Some ci cl k show ?thesis unfolding conn_ok_def t by simp
  next
    case False
    with I(1) [OF j] Some show ?thesis unfolding conn_ok_def t by auto
  qed
  then show ?thesis
    using I(2-10) unfolding server_inv_def t by (auto simp: fdo split: if_splits)
qed

text \<open>The destructor calls stop again; that changes nothing.\<close>

lemma stop_idempotent: "stop (stop s) = stop s"
proof -
  let ?t = "stop s"
  have t: "connections ?t = Map.empty" "listenFd ?t < 0" "epollFd ?t < 0" "\<not> running ?t"
    by (auto simp: stop_def Let_def close_fd_def)
  then have "?t\<lparr>running := False\<rparr> = ?t" by simp
  with t show ?thesis unfolding stop_def [of ?t] Let_def by (simp add: map_nth)
qed

section \<open>Every run\<close>

definition server_starts :: "server \<Rightarrow> bool" where
  "server_starts s \<longleftrightarrow> (\<exists>lf bindOk listenOk ef. 0 \<le> lf \<and> 0 \<le> ef \<and> lf \<noteq> ef \<and> s = run_setup lf bindOk listenOk ef new_server)"

lemma server_inv_start: "server_starts s \<Longrightarrow> server_inv s"
  by (auto simp: server_starts_def run_setup_def setupListenSocket_def setNonBlocking_def registerFd_def new_server_def server_inv_def Let_def
      split: if_splits)

lemma server_step_inv:
  assumes inv: "server_inv s" and st: "server_step s t"
  shows "server_inv t"
  using st
proof cases
  case (event fd accepts eof ms)
  then have "running s" by (simp add: waiting_def)
  with event accepts_inv [OF inv] route_inv [OF inv] show ?thesis by simp
next
  case (loop k)
  have "conn_inv (conn_of s k)" using server_invD(1) [OF inv loop(2)] by (simp add: conn_ok_def)
  from conn_effect [OF this] update_conn_inv [OF inv loop(2)] loop(1) show ?thesis by blast
next
  case (job k i data n c')
  have "conn_inv (conn_of s k)" using server_invD(1) [OF inv job(2)] by (simp add: conn_ok_def)
  from conn_effect [OF this, of c'] update_conn_inv [OF inv job(2)] job show ?thesis by blast
next
  case stop
  with stop_inv [OF inv] show ?thesis by (simp add: handleSigint_def)
qed

interpretation srv: invariant_system server_starts server_step server_inv
  by unfold_locales (rule server_inv_start server_step_inv, assumption+)+

lemma server_reachable:
  assumes "0 \<le> lf" and "0 \<le> ef" and "lf \<noteq> ef" and "server_step\<^sup>*\<^sup>* (run_setup lf bindOk listenOk ef new_server) s"
  shows "server_inv s"
  using srv.reachable_inv [OF _ assms(4)] assms(1-3) unfolding server_starts_def by blast

text \<open>
  C12. Routing over reused descriptors: in every interleaving of events, jobs, closing and stop,
  although the kernel gives a closed number out again, an entry of \<open>connections\_\<close> names a
  connection whose descriptor is open, registered and belongs to the client it was accepted
  for; two connections that are not closed never share a number; and when every connection is
  over, no descriptor is left open but the listening socket and epoll, and those not after stop.
\<close>

theorem server_routing:
  assumes "0 \<le> lf" and "0 \<le> ef" and "lf \<noteq> ef" and "server_step\<^sup>*\<^sup>* (run_setup lf bindOk listenOk ef new_server) s"
  shows "(\<forall>fd k. connections s fd = Some k \<longrightarrow>
       k < length (objs s) \<and> fd_of s k = fd \<and> fds s fd = Some (Client k) \<and> fd \<in> interest s) \<and>
    (\<forall>j < length (objs s). \<forall>k < length (objs s).
       closes (conn_of s j) = 0 \<and> closes (conn_of s k) = 0 \<and> fd_of s j = fd_of s k \<longrightarrow> j = k) \<and>
    ((\<forall>p \<in> set (objs s). finished (snd p)) \<longrightarrow> dom (fds s) \<subseteq> {listenFd s, epollFd s} - {-1})"
proof -
  have inv: "server_inv s" by (rule server_reachable [OF assms])
  note I = server_invD [OF inv]
  have own: "fds s (fd_of s k) = Some (Client k)" if "k < length (objs s)" "closes (conn_of s k) = 0" for k
    using I(1) [OF that(1)] that(2) by (simp add: conn_ok_def)
  have "k < length (objs s) \<and> fd_of s k = fd \<and> fds s fd = Some (Client k) \<and> fd \<in> interest s"
    if "connections s fd = Some k" for fd k
  proof -
    have k: "k < length (objs s)" "fd_of s k = fd" using I(3) [OF that] by simp_all
    note K = I(1) [OF k(1), unfolded conn_ok_def k(2)]
    then have "closes (conn_of s k) = 0" using routed_open [of "conn_of s k"] that by simp
    with K that k show ?thesis by simp
  qed
  moreover have "j = k" if "j < length (objs s)" "k < length (objs s)" "closes (conn_of s j) = 0"
      "closes (conn_of s k) = 0" "fd_of s j = fd_of s k" for j k
  proof -
    have "Some (Client j) = fds s (fd_of s j)" using own [OF that(1,3)] by (rule sym)
    also have "\<dots> = Some (Client k)" unfolding that(5) by (rule own [OF that(2,4)])
    finally show ?thesis by simp
  qed
  moreover have "fd \<in> {listenFd s, epollFd s} - {-1}" if fin: "\<forall>p \<in> set (objs s). finished (snd p)" and fd: "fds s fd = Some v" for fd v
  proof (cases v)
    case (Client k)
    with I(2) fd have k: "k < length (objs s)" "fd_of s k = fd" by auto
    have "finished (conn_of s k)" using fin k(1) by simp
    then have "closes (conn_of s k) = 1" using finished_closed(1) I(1) [OF k(1)] by (simp add: conn_ok_def)
    then have False using I(1) [OF k(1)] fd Client k(2) by (simp add: conn_ok_def)
    then show ?thesis by blast
  next
    case Listener
    with I(4) [of fd] fd I(10) show ?thesis by auto
  next
    case Epoll
    with I(5) [of fd] fd I(10) show ?thesis by auto
  qed
  ultimately show ?thesis by blast
qed

section \<open>No call of recv or send blocks\<close>

definition nonblocking_ok :: "server \<Rightarrow> bool" where
  "nonblocking_ok s \<longleftrightarrow> (\<forall>fd k. fds s fd = Some (Client k) \<longrightarrow> fd \<in> nonblocking s)"

lemma accept_nonblocking: "nonblocking_ok s \<Longrightarrow> nonblocking_ok (accept_one fd s)"
  by (auto simp: nonblocking_ok_def accept_one_def registerFd_def setNonBlocking_def Let_def)

lemma accepts_nonblocking: "nonblocking_ok s \<Longrightarrow> nonblocking_ok (acceptNewConnections rs s)"
  by (induction rs s rule: acceptNewConnections.induct) (auto intro: accept_nonblocking)

interpretation nb: invariant_system server_starts server_step nonblocking_ok
proof
  show "nonblocking_ok s" if "server_starts s" for s
    using that by (auto simp: server_starts_def run_setup_def setupListenSocket_def setNonBlocking_def registerFd_def
        new_server_def nonblocking_ok_def Let_def split: if_splits)
  show "nonblocking_ok t" if ok: "nonblocking_ok s" and st: "server_step s t" for s t
    using st
  proof cases
    case (event fd accepts eof ms)
    have "nonblocking_ok (route fd eof ms s)"
      using ok by (simp add: nonblocking_ok_def route_def Let_def split: option.split)
    with event accepts_nonblocking [OF ok] show ?thesis by simp
  next
    case (loop k)
    with ok show ?thesis by (simp add: nonblocking_ok_def update_conn_def close_fd_def Let_def)
  next
    case (job k i data n c')
    with ok show ?thesis by (simp add: nonblocking_ok_def update_conn_def close_fd_def Let_def)
  next
    case stop
    then have "t = stop s" by (simp add: handleSigint_def)
    with ok show ?thesis by (auto simp: nonblocking_ok_def stop_def close_fd_def Let_def)
  qed
qed

text \<open>Every open descriptor of a client is in non-blocking mode, so the loops of handleReadable and safeSend end.\<close>

lemma clients_nonblocking:
  assumes "0 \<le> lf" and "0 \<le> ef" and "lf \<noteq> ef" and "server_step\<^sup>*\<^sup>* (run_setup lf bindOk listenOk ef new_server) s"
    and "fds s fd = Some (Client k)"
  shows "fd \<in> nonblocking s"
  using nb.reachable_inv [OF _ assms(4)] assms(1-3,5) unfolding server_starts_def nonblocking_ok_def by blast

section \<open>Answers reach their client\<close>

definition msgs_of :: "nat \<Rightarrow> (nat \<times> sock option \<times> string) list \<Rightarrow> string list" where
  "msgs_of k ds = map (snd \<circ> snd) (filter (\<lambda>d. fst d = k) ds)"

definition quiet_server_step :: "server \<Rightarrow> server \<Rightarrow> bool" where
  "quiet_server_step s t \<longleftrightarrow> server_step s t \<and> (\<forall>p \<in> set (objs t). quiet (snd p))"

definition answers_ok :: "server \<Rightarrow> bool" where
  "answers_ok s \<longleftrightarrow> server_inv s \<and> (\<forall>k < length (objs s). quiet_inv (conn_of s k)) \<and>
     (\<forall>d \<in> set (delivered s). fst d < length (objs s) \<and> fst (snd d) = Some (Client (fst d))) \<and>
     (\<forall>k < length (objs s). msgs_of k (delivered s) = map fst (puts (conn_of s k)))"

lemma puts_grows:
  assumes "c' = loop_step (loop c) c \<or> (\<exists>data n i. i < length (jobs c) \<and> job_step data n i c = Some c')"
  shows "puts c' = puts c \<or> (\<exists>m b. puts c' = puts c @ [(m, b, closes c = 0)])"
  using assms
proof
  have fin: "puts (fst (tryFinalize f c)) = puts c" for f by (cases f) simp_all
  assume c': "c' = loop_step (loop c) c"
  show ?thesis
  proof (cases "loop c")
    case (LDisp eof ms)
    with c' show ?thesis by (cases ms) simp_all
  next
    case (LFin f)
    with c' fin [of f] show ?thesis by (cases "f = FDone") (auto split: prod.splits)
  qed (use c' in simp_all)
next
  have fin: "puts (fst (tryFinalize f c)) = puts c" for f by (cases f) simp_all
  assume "\<exists>data n i. i < length (jobs c) \<and> job_step data n i c = Some c'"
  then obtain data n i where i: "job_step data n i c = Some c'" by blast
  show ?thesis
  proof (cases "jobs c ! i")
    case (JFin f)
    with i fin [of f] show ?thesis by (auto simp: job_step_def send_enter_def split: if_splits prod.splits)
  next
    case (JSend m answer sent)
    with i have "c' = send_round n i m answer sent c" by (simp add: job_step_def send_enter_def)
    then show ?thesis by (cases rule: send_round_cases [of sent answer n i m c]) simp_all
  qed (use i in \<open>auto simp: job_step_def send_enter_def split: if_splits\<close>)
qed

lemma answers_update:
  assumes ok: "answers_ok s" and k: "k < length (objs s)"
    and st: "c' = loop_step (loop (conn_of s k)) (conn_of s k) \<or>
      (\<exists>data n i. i < length (jobs (conn_of s k)) \<and> job_step data n i (conn_of s k) = Some c')"
    and q: "quiet c'" and inv: "server_inv (update_conn k c' s)"
  shows "answers_ok (update_conn k c' s)"
proof -
  let ?t = "update_conn k c' s" and ?c = "conn_of s k"
  have o: "quiet_inv ?c" "msgs_of k (delivered s) = map fst (puts ?c)" "server_inv s"
    "\<forall>d \<in> set (delivered s). fst d < length (objs s) \<and> fst (snd d) = Some (Client (fst d))"
    using ok k by (simp_all add: answers_ok_def)
  have "conn_step ?c c'" using st conn_step.loop conn_step.job by blast
  with q have q': "quiet_inv c'" using quiet.step_inv [OF o(1)] by (simp add: quiet_step_def)
  obtain xs where xs: "puts c' = puts ?c @ xs" "xs = [] \<or> (\<exists>m b. xs = [(m, b, closes ?c = 0)])"
    using puts_grows [OF st] by auto
  have fd: "fds s (fd_of s k) = Some (Client k)" if ne: "xs \<noteq> []"
  proof -
    obtain m b where m: "xs = [(m, b, closes ?c = 0)]" using xs(2) ne by blast
    then have "(m, b, closes ?c = 0) \<in> set (puts c')" using xs(1) by simp
    from quiet_invD(8) [OF q' this] have "closes ?c = 0" by simp
    then show ?thesis using server_invD(1) [OF o(3) k] by (simp add: conn_ok_def)
  qed
  have del: "delivered ?t = delivered s @ map (\<lambda>a. (k, fds s (fd_of s k), fst a)) xs"
    by (simp add: update_conn_def Let_def close_fd_def xs(1))
  have "quiet_inv (conn_of ?t j)" if "j < length (objs s)" for j
    using ok that q' k by (cases "j = k") (simp_all add: answers_ok_def update_conn_fields)
  moreover have "msgs_of j (delivered ?t) = map fst (puts (conn_of ?t j))" if "j < length (objs s)" for j
    using ok that k o(2) xs(1) unfolding del
    by (cases "j = k") (auto simp: answers_ok_def update_conn_fields msgs_of_def comp_def filter_map)
  moreover have "fst d < length (objs s) \<and> fst (snd d) = Some (Client (fst d))" if "d \<in> set (delivered ?t)" for d
  proof (cases "d \<in> set (delivered s)")
    case False
    with that have "xs \<noteq> []" "fst d = k" "fst (snd d) = fds s (fd_of s k)" unfolding del by auto
    with fd k show ?thesis by simp
  qed (use o(4) in blast)
  ultimately show ?thesis using inv unfolding answers_ok_def by (simp add: update_conn_fields(5))
qed

text \<open>What a step does to the connections, when it is not a step of one of them.\<close>

lemma accepts_objs:
  "\<exists>fs. objs (acceptNewConnections rs s) = objs s @ map (\<lambda>f. (f, new_connection)) fs \<and>
     delivered (acceptNewConnections rs s) = delivered s"
proof (induction rs s rule: acceptNewConnections.induct)
  case (2 fd rs s)
  have one: "objs (accept_one fd s) = objs s @ [(fd, new_connection)]" "delivered (accept_one fd s) = delivered s"
    by (simp_all add: accept_one_def registerFd_def setNonBlocking_def Let_def)
  show ?case
  proof (cases "fd < 0")
    case True
    then show ?thesis by (intro exI [of _ "[]"]) simp
  next
    case False
    with 2 obtain fs where "objs (acceptNewConnections rs (accept_one fd s)) = objs s @ map (\<lambda>f. (f, new_connection)) (fd # fs)"
      "delivered (acceptNewConnections rs (accept_one fd s)) = delivered s" by (auto simp: one)
    with False show ?thesis by (intro exI [of _ "fd # fs"]) simp
  qed
qed (intro exI [of _ "[]"], simp)

lemma answers_accept:
  assumes ok: "answers_ok s" and inv: "server_inv t" and d: "delivered t = delivered s"
    and o: "objs t = objs s @ map (\<lambda>f. (f, new_connection)) fs"
  shows "answers_ok t"
proof -
  have new: "conn_of t k = new_connection" if "length (objs s) \<le> k" "k < length (objs t)" for k
    using that by (auto simp: o nth_append)
  have old: "conn_of t k = conn_of s k" if "k < length (objs s)" for k using that by (simp add: o nth_append)
  have none: "msgs_of k (delivered s) = []" if "length (objs s) \<le> k" for k
    using ok that by (force simp: answers_ok_def msgs_of_def filter_empty_conv)
  have "quiet_inv (conn_of t k) \<and> msgs_of k (delivered s) = map fst (puts (conn_of t k))"
    if "k < length (objs t)" for k
  proof (cases "k < length (objs s)")
    case True
    with ok old show ?thesis by (simp add: answers_ok_def)
  next
    case False
    have "puts new_connection = []" by (simp add: new_connection_def)
    with False new [of k] none [of k] that quiet.start_inv [OF refl] show ?thesis by simp
  qed
  moreover have "fst e < length (objs t) \<and> fst (snd e) = Some (Client (fst e))" if "e \<in> set (delivered s)" for e
    using ok that by (force simp: answers_ok_def o)
  ultimately show ?thesis using inv by (simp add: answers_ok_def d)
qed

lemma answers_route:
  assumes ok: "answers_ok s" and w: "waiting s" and inv: "server_inv (route fd eof ms s)"
    and q: "\<forall>p \<in> set (objs (route fd eof ms s)). quiet (snd p)"
  shows "answers_ok (route fd eof ms s)"
proof (cases "connections s fd")
  case None
  with ok show ?thesis by (simp add: route_def)
next
  case (Some k)
  let ?t = "route fd eof ms s" and ?c = "handleReadable eof ms (conn_of s k)"
  have si: "server_inv s" using ok by (simp add: answers_ok_def)
  have k: "k < length (objs s)" "fd_of s k = fd" using server_invD(3) [OF si Some] by simp_all
  have "routed (conn_of s k)" using server_invD(1) [OF si k(1)] Some k(2) by (simp add: conn_ok_def)
  then have idle: "loop (conn_of s k) = LIdle" by (rule routed_idle [OF si w k(1)])
  have t: "objs ?t = (objs s)[k := (fd, ?c)]" "delivered ?t = delivered s"
    using Some k by (simp_all add: route_def Let_def)
  have "(fd, ?c) \<in> set (objs ?t)" using k by (simp add: t mem_upd_self)
  then have "quiet ?c" using q by fastforce
  moreover have qk: "quiet_inv (conn_of s k)" using ok k by (simp add: answers_ok_def)
  ultimately have "quiet_inv ?c"
    using quiet.step_inv conn_step.readable [OF idle] unfolding quiet_step_def by blast
  moreover have "puts ?c = puts (conn_of s k)" by (simp add: handleReadable_def)
  ultimately have "quiet_inv (conn_of ?t j) \<and> puts (conn_of ?t j) = puts (conn_of s j)" if "j < length (objs s)" for j
    using ok that k by (cases "j = k") (simp_all add: t answers_ok_def)
  with ok inv show ?thesis by (simp add: answers_ok_def t(2)) (simp add: t)
qed

lemma answers_stop:
  assumes ok: "answers_ok s" and inv: "server_inv (stop s)" and q: "\<forall>p \<in> set (objs (stop s)). quiet (snd p)"
  shows "answers_ok (stop s)"
proof -
  have len: "length (objs (stop s)) = length (objs s)" and del: "delivered (stop s) = delivered s"
    by (simp_all add: stop_def Let_def close_fd_def)
  have ob: "objs (stop s) ! j = (if connections s (fd_of s j) = Some j then stop_conn (objs s ! j) else objs s ! j)"
    if "j < length (objs s)" for j using that by (simp add: stop_def Let_def close_fd_def)
  have "objs (stop s) ! j = objs s ! j" if j: "j < length (objs s)" for j
  proof (rule ccontr)
    assume "objs (stop s) ! j \<noteq> objs s ! j"
    with ob [OF j] have "snd (objs (stop s) ! j) = (conn_of s j)\<lparr>loop := LStopAlive\<rparr>"
      by (auto simp: stop_conn_def split: if_splits)
    moreover have "quiet (snd (objs (stop s) ! j))" using q j len by simp
    ultimately show False by (simp add: quiet_def)
  qed
  then show ?thesis using ok inv by (simp add: answers_ok_def len del)
qed

interpretation answers: invariant_system server_starts quiet_server_step answers_ok
proof (unfold_locales, goal_cases)
  case (1 s)
  then have "objs s = []" "delivered s = []"
    by (auto simp: server_starts_def run_setup_def setupListenSocket_def setNonBlocking_def registerFd_def new_server_def Let_def)
  with server_inv_start [OF 1] show ?case by (simp add: answers_ok_def)
next
  case (2 s t)
  have st: "server_step s t" and q: "\<forall>p \<in> set (objs t). quiet (snd p)" using 2(2) by (simp_all add: quiet_server_step_def)
  have "server_inv s" using 2(1) by (simp add: answers_ok_def)
  then have inv: "server_inv t" using st by (rule server_step_inv)
  from st show ?case
  proof cases
    case (event fd accepts eof ms)
    show ?thesis
    proof (cases "fd = listenFd s")
      case True
      with event have "t = acceptNewConnections accepts s" by simp
      with answers_accept [OF 2(1) inv] accepts_objs [of accepts s] show ?thesis by auto
    next
      case False
      with event have "t = route fd eof ms s" by simp
      with answers_route [OF 2(1) event(2)] inv q show ?thesis by simp
    qed
  next
    case (loop k)
    let ?c = "loop_step (Connection.loop (conn_of s k)) (conn_of s k)"
    have "(fd_of s k, ?c) \<in> set (objs t)" using loop by (simp add: update_conn_fields mem_upd_self)
    with q have "quiet ?c" by fastforce
    with answers_update [OF 2(1) loop(2), of ?c] inv loop(1) show ?thesis by simp
  next
    case (job k i data n c')
    have "(fd_of s k, c') \<in> set (objs t)" using job by (simp add: update_conn_fields mem_upd_self)
    with q have "quiet c'" by fastforce
    with answers_update [OF 2(1) job(2), of c'] inv job show ?thesis by blast
  next
    case stop
    then have "t = stop s" by (simp add: handleSigint_def)
    with answers_stop [OF 2(1)] inv q show ?thesis by simp
  qed
qed

text \<open>
  C11. Every byte of an answer goes to the client whose message it answers, although descriptor
  numbers are reused, as long as the ends of the streams are read without a race (see quiet) and
  the server is not stopped; no answer is given up for another reason than a failing call of
  send: each message of a connection that is over was answered to the last byte, or send failed
  while its answer went out.
\<close>

theorem answers_reach_client:
  assumes "0 \<le> lf" and "0 \<le> ef" and "lf \<noteq> ef"
    and "quiet_server_step\<^sup>*\<^sup>* (run_setup lf bindOk listenOk ef new_server) s"
  shows "(\<forall>(k, target, m) \<in> set (delivered s). target = Some (Client k)) \<and>
    (\<forall>k < length (objs s). dropped (conn_of s k) = [] \<and>
       msgs_of k (delivered s) = map fst (puts (conn_of s k)) \<and>
       (finished (conn_of s k) \<longrightarrow> mset (arrived (conn_of s k)) =
          mset (map fst (answered (conn_of s k))) + mset (map snd (failed (conn_of s k)))))"
proof -
  have "server_starts (run_setup lf bindOk listenOk ef new_server)"
    using assms(1-3) unfolding server_starts_def by blast
  from answers.reachable_inv [OF this assms(4)] have ok: "answers_ok s" .
  have "dropped (conn_of s k) = [] \<and> msgs_of k (delivered s) = map fst (puts (conn_of s k)) \<and>
      (finished (conn_of s k) \<longrightarrow> mset (arrived (conn_of s k)) =
          mset (map fst (answered (conn_of s k))) + mset (map snd (failed (conn_of s k))))"
    if "k < length (objs s)" for k
  proof -
    have q: "quiet_inv (conn_of s k)" and m: "msgs_of k (delivered s) = map fst (puts (conn_of s k))"
      using ok that by (simp_all add: answers_ok_def)
    from finished_closed(2) [OF quiet_invD(1) [OF q]] quiet_invD(6) [OF q] m show ?thesis by simp
  qed
  moreover have "\<forall>(k, target, m) \<in> set (delivered s). target = Some (Client k)"
    using ok by (fastforce simp: answers_ok_def)
  ultimately show ?thesis by blast
qed

section \<open>Runs\<close>

text \<open>Commands; \<open>Jb\<close> is the step of a job that answers with one byte, which send takes.\<close>

datatype server_cmd = Ev int "int list" bool "string list" | Lp nat | Jb nat nat

fun server_exec :: "server_cmd \<Rightarrow> server \<Rightarrow> server" where
  "server_exec (Ev fd accepts eof ms) s =
     (if waiting s \<and> fd \<in> interest s \<and> fresh_fds accepts s then handle_event (Event fd accepts eof ms) s else s)"
| "server_exec (Lp k) s =
     (if k < length (objs s) then update_conn k (loop_step (loop (conn_of s k)) (conn_of s k)) s else s)"
| "server_exec (Jb k i) s =
     (if k < length (objs s) \<and> i < length (jobs (conn_of s k)) then
        case job_step ''8'' 1 i (conn_of s k) of None \<Rightarrow> s | Some c' \<Rightarrow> update_conn k c' s
      else s)"

lemma server_exec_step: "server_exec x s = s \<or> server_step s (server_exec x s)"
proof (cases x)
  case (Ev fd accepts eof ms)
  then show ?thesis using server_step.event [of s fd accepts eof ms] by auto
qed (auto split: option.split intro: server_step.intros)

lemma server_run_steps: "server_step\<^sup>*\<^sup>* s (fold server_exec xs s)"
proof (induction xs arbitrary: s)
  case (Cons x xs)
  have "server_step\<^sup>*\<^sup>* s (server_exec x s)" using server_exec_step [of x s] by (metis r_into_rtranclp rtranclp.rtrancl_refl)
  with Cons [of "server_exec x s"] show ?case by simp
qed simp

fun quiet_server_run :: "server_cmd list \<Rightarrow> server \<Rightarrow> bool" where
  "quiet_server_run [] s = True"
| "quiet_server_run (x # xs) s =
     ((\<forall>p \<in> set (objs (server_exec x s)). quiet (snd p)) \<and> quiet_server_run xs (server_exec x s))"

lemma quiet_server_run_steps: "quiet_server_run xs s \<Longrightarrow> quiet_server_step\<^sup>*\<^sup>* s (fold server_exec xs s)"
proof (induction xs arbitrary: s)
  case (Cons x xs)
  have "quiet_server_step\<^sup>*\<^sup>* s (server_exec x s)"
    using server_exec_step [of x s] Cons.prems by (auto simp: quiet_server_step_def)
  with Cons show ?case by (auto intro: rtranclp_trans)
qed simp

text \<open>
  Two clients one after the other: the first sends a message and disconnects, the second gets
  its descriptor number.
\<close>

definition two_clients :: "server_cmd list" where
  "two_clients =
     [Ev 3 [5, -1] False [], Ev 5 [] True [''m''], Lp 0, Lp 0, Lp 0] @ replicate 4 (Lp 0) @
     replicate 8 (Jb 0 0) @ [Ev 3 [5, -1] False [], Ev 5 [] False [''n''], Lp 1, Lp 1, Lp 1] @ replicate 2 (Jb 1 0)"

definition two_clients_end :: server where
  "two_clients_end = fold server_exec two_clients (run_setup 3 True True 4 new_server)"

lemma two_clients_facts:
  "delivered two_clients_end = [(0, Some (Client 0), ''m''), (1, Some (Client 1), ''n'')] \<and>
   finished (conn_of two_clients_end 0) \<and> arrived (conn_of two_clients_end 0) = [''m''] \<and>
   failed (conn_of two_clients_end 0) = [] \<and>
   connections two_clients_end 5 = Some 1 \<and> length (objs two_clients_end) = 2"
  by code_simp

lemma two_clients_quiet: "quiet_server_run two_clients (run_setup 3 True True 4 new_server)"
  by code_simp

theorem server_routing_witness:
  "connections two_clients_end 5 = Some 1 \<and> fds two_clients_end 5 = Some (Client 1) \<and> 5 \<in> interest two_clients_end"
proof -
  have "server_step\<^sup>*\<^sup>* (run_setup 3 True True 4 new_server) two_clients_end"
    unfolding two_clients_end_def by (rule server_run_steps)
  from server_routing [OF _ _ _ this] two_clients_facts show ?thesis by simp
qed

theorem answers_reach_client_witness:
  "delivered two_clients_end = [(0, Some (Client 0), ''m''), (1, Some (Client 1), ''n'')] \<and>
   mset (map fst (answered (conn_of two_clients_end 0))) = {#''m''#}"
proof -
  have st: "quiet_server_step\<^sup>*\<^sup>* (run_setup 3 True True 4 new_server) two_clients_end"
    unfolding two_clients_end_def by (rule quiet_server_run_steps [OF two_clients_quiet])
  have "\<forall>k < length (objs two_clients_end). dropped (conn_of two_clients_end k) = [] \<and>
      msgs_of k (delivered two_clients_end) = map fst (puts (conn_of two_clients_end k)) \<and>
      (finished (conn_of two_clients_end k) \<longrightarrow> mset (arrived (conn_of two_clients_end k)) =
        mset (map fst (answered (conn_of two_clients_end k))) + mset (map snd (failed (conn_of two_clients_end k))))"
    using answers_reach_client [OF _ _ _ st] by simp
  from this [rule_format, of 0] two_clients_facts show ?thesis by simp
qed

text \<open>
  Two messages and the end of the stream in one batch: the job of the first finds no job pending
  and goes on to close; the second message is dispatched and its job finds the connection alive;
  the descriptor is closed, a new client gets its number, and then the second job sends.
\<close>

definition crossed :: "string \<Rightarrow> string \<Rightarrow> server_cmd list" where
  "crossed m1 m2 =
     [Ev 3 [5, -1] False [], Ev 5 [] True [m1, m2], Lp 0, Lp 0] @ replicate 5 (Jb 0 0) @ [Lp 0, Lp 0, Jb 0 1] @
     replicate 3 (Jb 0 0) @ replicate 4 (Lp 0) @ [Ev 3 [5, -1] False [], Jb 0 1]"

text \<open>
  C35. Without that restriction an answer can reach another client: the early close of a
  connection whose last batch is still being dispatched frees the descriptor number while a job
  is about to send, and the answer of the first client's second message goes to the client that
  was accepted on the same number.
\<close>

theorem answer_to_wrong_client:
  "\<exists>s. server_step\<^sup>*\<^sup>* (run_setup 3 True True 4 new_server) s \<and>
     delivered s = [(0, Some (Client 0), m1), (0, Some (Client 1), m2)]"
proof -
  have "delivered (fold server_exec (crossed m1 m2) (run_setup 3 True True 4 new_server)) =
      [(0, Some (Client 0), m1), (0, Some (Client 1), m2)]"
    by (simp add: crossed_def numeral_eq_Suc run_setup_def setupListenSocket_def setNonBlocking_def registerFd_def new_server_def
        waiting_def accept_one_def route_def update_conn_def close_fd_def new_connection_def handleReadable_def
        job_step_def send_enter_def send_defs)
  then show ?thesis using server_run_steps by blast
qed

end
