(* ===== verification/Binary64.thy ===== *)
theory Binary64
  imports Prelude
begin

text \<open>
  IEEE 754 binary64, the C++ type double, as the sources use it: comparison, addition,
  subtraction, multiplication and division rounded to nearest with ties to even, and the
  conversion of unsigned integers.  A finite double is an integer multiple of the least
  positive subnormal, so a finite value is a sign and a natural number of units of
  two to the power of minus 1074; rounding keeps the 53 leading bits.
  NaN has no payload or sign here: the sources never inspect either.
\<close>

section \<open>Values\<close>

datatype double = NaN | Inf bool | Fin bool nat

text \<open>The units of the value 1.0, and the first magnitude that is out of range.\<close>

definition one_units :: nat where
  "one_units = 2 ^ 1074"

definition max_units :: nat where
  "max_units = 2 ^ 2098"

lemma one_units_pos [simp]: "0 < one_units"
  by (simp add: one_units_def)

text \<open>At most 53 significant bits.\<close>

definition rep53 :: "nat \<Rightarrow> bool" where
  "rep53 k \<longleftrightarrow> k mod 2 ^ (bitlen k - 53) = 0"

fun wf_double :: "double \<Rightarrow> bool" where
  "wf_double NaN = True"
| "wf_double (Inf s) = True"
| "wf_double (Fin s k) = (rep53 k \<and> k < max_units)"

fun units :: "double \<Rightarrow> int" where
  "units (Fin s k) = (if s then - int k else int k)"
| "units (Inf s) = 0"
| "units NaN = 0"

fun is_fin :: "double \<Rightarrow> bool" where
  "is_fin (Fin s k) = True"
| "is_fin d = False"

section \<open>Rounding\<close>

text \<open>The fraction \<open>n / d\<close> rounded to the nearest natural number, ties to even.\<close>

definition rhe :: "nat \<Rightarrow> nat \<Rightarrow> nat" where
  "rhe n d =
     (let q = n div d; r = n mod d
      in if 2 * r < d then q
         else if d < 2 * r then Suc q
         else if even q then q else Suc q)"

text \<open>The fraction \<open>n / d\<close> rounded to 53 significant bits.\<close>

definition rnd53 :: "nat \<Rightarrow> nat \<Rightarrow> nat" where
  "rnd53 n d = (let s = bitlen (n div d) - 53 in rhe n (d * 2 ^ s) * 2 ^ s)"

definition mk_double :: "bool \<Rightarrow> nat \<Rightarrow> nat \<Rightarrow> double" where
  "mk_double s n d = (let k = rnd53 n d in if k < max_units then Fin s k else Inf s)"

section \<open>Operations\<close>

fun dneg :: "double \<Rightarrow> double" where
  "dneg NaN = NaN"
| "dneg (Inf s) = Inf (\<not> s)"
| "dneg (Fin s k) = Fin (\<not> s) k"

fun dadd :: "double \<Rightarrow> double \<Rightarrow> double" where
  "dadd NaN y = NaN"
| "dadd x NaN = NaN"
| "dadd (Inf s) (Inf t) = (if s = t then Inf s else NaN)"
| "dadd (Inf s) (Fin t k) = Inf s"
| "dadd (Fin s k) (Inf t) = Inf t"
| "dadd (Fin s k) (Fin t l) =
     (let z = units (Fin s k) + units (Fin t l)
      in if z = 0 then Fin (s \<and> t) 0 else mk_double (z < 0) (nat \<bar>z\<bar>) 1)"

definition dsub :: "double \<Rightarrow> double \<Rightarrow> double" where
  "dsub x y = dadd x (dneg y)"

fun dmul :: "double \<Rightarrow> double \<Rightarrow> double" where
  "dmul NaN y = NaN"
| "dmul x NaN = NaN"
| "dmul (Inf s) (Inf t) = Inf (s \<noteq> t)"
| "dmul (Inf s) (Fin t k) = (if k = 0 then NaN else Inf (s \<noteq> t))"
| "dmul (Fin s k) (Inf t) = (if k = 0 then NaN else Inf (s \<noteq> t))"
| "dmul (Fin s k) (Fin t l) = mk_double (s \<noteq> t) (k * l) one_units"

fun ddiv :: "double \<Rightarrow> double \<Rightarrow> double" where
  "ddiv NaN y = NaN"
| "ddiv x NaN = NaN"
| "ddiv (Inf s) (Inf t) = NaN"
| "ddiv (Inf s) (Fin t k) = Inf (s \<noteq> t)"
| "ddiv (Fin s k) (Inf t) = Fin (s \<noteq> t) 0"
| "ddiv (Fin s k) (Fin t l) =
     (if l = 0 then (if k = 0 then NaN else Inf (s \<noteq> t))
      else mk_double (s \<noteq> t) (k * one_units) l)"

text \<open>The comparisons \<open><\<close> and \<open><=\<close>, false as soon as one side is NaN.\<close>

fun dless :: "double \<Rightarrow> double \<Rightarrow> bool" where
  "dless NaN y = False"
| "dless x NaN = False"
| "dless (Inf s) (Inf t) = (s \<and> \<not> t)"
| "dless (Inf s) (Fin t k) = s"
| "dless (Fin s k) (Inf t) = (\<not> t)"
| "dless (Fin s k) (Fin t l) = (units (Fin s k) < units (Fin t l))"

fun dle :: "double \<Rightarrow> double \<Rightarrow> bool" where
  "dle NaN y = False"
| "dle x NaN = False"
| "dle (Inf s) (Inf t) = (s \<or> \<not> t)"
| "dle (Inf s) (Fin t k) = s"
| "dle (Fin s k) (Inf t) = (\<not> t)"
| "dle (Fin s k) (Fin t l) = (units (Fin s k) \<le> units (Fin t l))"

text \<open>Conversion of an integer, as \<open>static_cast<double>\<close> does it.\<close>

definition double_of_nat :: "nat \<Rightarrow> double" where
  "double_of_nat n = mk_double False (n * one_units) 1"

definition double_of_int :: "int \<Rightarrow> double" where
  "double_of_int z = mk_double (z < 0) (nat \<bar>z\<bar> * one_units) 1"

definition dzero :: double where
  "dzero = Fin False 0"

section \<open>Rounding is monotone and exact on representable values\<close>

lemma rhe_bounds:
  assumes "0 < d"
  shows "n div d \<le> rhe n d" and "rhe n d \<le> Suc (n div d)"
  by (auto simp: rhe_def Let_def)

lemma rhe_exact: "0 < d \<Longrightarrow> d dvd n \<Longrightarrow> rhe n d = n div d"
  by (auto simp: rhe_def Let_def)

lemma rhe_mono:
  assumes "0 < d" and "m \<le> n"
  shows "rhe m d \<le> rhe n d"
proof (cases "m div d = n div d")
  case True
  with assms have "m mod d \<le> n mod d"
    by (metis add_le_cancel_left div_mult_mod_eq)
  with True show ?thesis by (auto simp: rhe_def Let_def)
next
  case False
  with assms have "Suc (m div d) \<le> n div d"
    by (meson div_le_mono le_neq_implies_less less_eq_Suc_le)
  then show ?thesis
    using rhe_bounds [OF assms(1), of m] rhe_bounds [OF assms(1), of n] by linarith
qed

lemma rhe_error:
  assumes "0 < d"
  shows "2 * (rhe n d * d) \<le> 2 * n + d" and "2 * n \<le> 2 * (rhe n d * d) + d"
proof -
  obtain q r where qr: "n div d = q" "n mod d = r" by blast
  have r: "r < d" using assms qr by auto
  have n: "n = q * d + r" using qr div_mult_mod_eq [of n d] by simp
  have "2 * (rhe n d * d) \<le> 2 * n + d \<and> 2 * n \<le> 2 * (rhe n d * d) + d"
    using r by (auto simp: rhe_def Let_def qr) (simp_all add: n)
  then show "2 * (rhe n d * d) \<le> 2 * n + d" "2 * n \<le> 2 * (rhe n d * d) + d" by simp_all
qed

lemma rhe_unique:
  assumes "2 * n < 2 * (q * d) + d" and "2 * (q * d) < 2 * n + d"
  shows "rhe n d = q"
proof -
  have d: "0 < d" using assms by (cases d) simp_all
  note E = rhe_error [OF d, of n]
  have "rhe n d * d < Suc q * d" using E(1) assms(1) by simp
  then have "rhe n d < Suc q" unfolding mult_less_cancel2 by blast
  moreover have "q * d < Suc (rhe n d) * d" using E(2) assms(2) by simp
  then have "q < Suc (rhe n d)" unfolding mult_less_cancel2 by blast
  ultimately show ?thesis by simp
qed

lemma div_pow_bitlen: "n div 2 ^ (bitlen n - k) < 2 ^ k"
proof -
  have "n < 2 ^ (k + (bitlen n - k))"
    by (subst bitlen_le_iff [symmetric]) simp
  then show ?thesis
    by (simp add: less_mult_imp_div_less power_add)
qed

lemma rnd53_mantissa:
  assumes "0 < d"
  shows "rhe n (d * 2 ^ (bitlen (n div d) - 53)) \<le> 2 ^ 53"
proof -
  have "n div (d * 2 ^ (bitlen (n div d) - 53)) = n div d div 2 ^ (bitlen (n div d) - 53)"
    by (simp add: div_mult2_eq)
  then have "n div (d * 2 ^ (bitlen (n div d) - 53)) < 2 ^ 53"
    using div_pow_bitlen [of "n div d" 53] by simp
  then show ?thesis
    using rhe_bounds(2) [of "d * 2 ^ (bitlen (n div d) - 53)" n] assms by simp
qed

lemma rep53_mult_pow: "m \<le> 2 ^ 53 \<Longrightarrow> rep53 (m * 2 ^ s)"
proof (cases "m = 2 ^ 53")
  case True
  have "bitlen (2 ^ 53 * 2 ^ s) - 53 \<le> s + 1"
    using bitlen_le_iff [of "2 ^ 53 * 2 ^ s" "s + 54"]
    by (simp add: power_add)
  then have "2 ^ (bitlen (2 ^ 53 * 2 ^ s) - 53) dvd (2::nat) ^ (s + 1)"
    by (rule le_imp_power_dvd)
  moreover have "(2::nat) ^ (s + 1) dvd 2 ^ 53 * 2 ^ s"
    by (simp add: power_add mult.commute)
  ultimately have "2 ^ (bitlen (2 ^ 53 * 2 ^ s) - 53) dvd (2::nat) ^ 53 * 2 ^ s"
    by (rule dvd_trans)
  with True show ?thesis by (simp add: rep53_def dvd_eq_mod_eq_0)
next
  case False
  assume "m \<le> 2 ^ 53"
  with False have "m * 2 ^ s < 2 ^ (53 + s)" by (simp add: power_add)
  then have "bitlen (m * 2 ^ s) - 53 \<le> s"
    using bitlen_le_iff [of "m * 2 ^ s" "53 + s"] by simp
  then have "2 ^ (bitlen (m * 2 ^ s) - 53) dvd m * 2 ^ s"
    by (simp add: le_imp_power_dvd)
  then show ?thesis by (simp add: rep53_def dvd_eq_mod_eq_0)
qed

lemma rnd53_rep53: "0 < d \<Longrightarrow> rep53 (rnd53 n d)"
  unfolding rnd53_def Let_def by (rule rep53_mult_pow) (rule rnd53_mantissa)

lemma rnd53_exact: "rep53 k \<Longrightarrow> rnd53 k 1 = k"
  by (simp add: rnd53_def rep53_def Let_def rhe_exact mod_0_imp_dvd)

lemma rnd53_zero [simp]: "0 < d \<Longrightarrow> rnd53 0 d = 0"
  by (simp add: rnd53_def Let_def rhe_def)

lemma rnd53_upper: "0 < d \<Longrightarrow> rnd53 n d \<le> 2 ^ (53 + (bitlen (n div d) - 53))"
  using rnd53_mantissa [of d n] by (simp add: rnd53_def Let_def power_add)

lemma rnd53_lower:
  assumes "0 < d" and "53 < bitlen (n div d)"
  shows "2 ^ (bitlen (n div d) - 1) \<le> rnd53 n d"
proof -
  let ?q = "n div d" let ?s = "bitlen (n div d) - 53"
  have "0 < ?q" using assms(2) by (metis bitlen_0 not_gr_zero not_less_zero)
  then have "2 ^ (bitlen ?q - 1) \<le> ?q" by (rule bitlen_lower)
  moreover have "bitlen ?q - 1 = 52 + ?s" using assms(2) by simp
  ultimately have "2 ^ 52 * 2 ^ ?s \<le> ?q" by (simp only: power_add)
  then have "2 ^ 52 \<le> ?q div 2 ^ ?s"
    by (metis div_le_mono nonzero_mult_div_cancel_right power_not_zero zero_neq_numeral)
  also have "\<dots> = n div (d * 2 ^ ?s)" by (simp add: div_mult2_eq)
  also have "\<dots> \<le> rhe n (d * 2 ^ ?s)" using rhe_bounds(1) assms(1) by simp
  finally have "2 ^ 52 * 2 ^ ?s \<le> rhe n (d * 2 ^ ?s) * 2 ^ ?s" by simp
  with \<open>bitlen ?q - 1 = 52 + ?s\<close> show ?thesis
    by (simp only: rnd53_def Let_def power_add)
qed

lemma rnd53_mono:
  assumes "0 < d" and "m \<le> n"
  shows "rnd53 m d \<le> rnd53 n d"
proof -
  let ?s = "\<lambda>n. bitlen (n div d) - 53"
  have s: "?s m \<le> ?s n" using assms by (simp add: bitlen_mono diff_le_mono div_le_mono)
  show ?thesis
  proof (cases "?s m = ?s n")
    case True
    with assms show ?thesis by (simp add: rnd53_def Let_def rhe_mono)
  next
    case False
    with s have lt: "53 < bitlen (n div d)" and "53 + ?s m \<le> bitlen (n div d) - 1" by auto
    then have "(2::nat) ^ (53 + ?s m) \<le> 2 ^ (bitlen (n div d) - 1)" by simp
    then show ?thesis
      using rnd53_upper [OF assms(1), of m] rnd53_lower [OF assms(1) lt] by linarith
  qed
qed

lemma rnd53_pos:
  assumes "0 < d" and "d \<le> n"
  shows "0 < rnd53 n d"
proof -
  have "rnd53 d d = 1" using assms(1) by (simp add: rnd53_def Let_def rhe_def bitlen.simps [of "Suc 0"])
  with rnd53_mono [OF assms] show ?thesis by simp
qed

text \<open>
  What every rounding to a set of representable magnitudes has to promise, and what the
  arithmetic above draws from it: a representable bound on the exact value is a bound on the
  rounded one.
\<close>

locale magnitude_rounding =
  fixes rnd :: "nat \<Rightarrow> nat"
    and rep :: "nat \<Rightarrow> bool"
  assumes rnd_mono: "m \<le> n \<Longrightarrow> rnd m \<le> rnd n"
    and rnd_exact: "rep k \<Longrightarrow> rnd k = k"
    and rnd_rep: "rep (rnd n)"
begin

lemma rnd_le_bound: "rep k \<Longrightarrow> n \<le> k \<Longrightarrow> rnd n \<le> k"
  using rnd_mono [of n k] by (simp add: rnd_exact)

lemma rnd_ge_bound: "rep k \<Longrightarrow> k \<le> n \<Longrightarrow> k \<le> rnd n"
  using rnd_mono [of k n] by (simp add: rnd_exact)

lemma rnd_idem: "rnd (rnd n) = rnd n"
  by (simp add: rnd_exact rnd_rep)

end

interpretation r53: magnitude_rounding "\<lambda>n. rnd53 n 1" rep53
  by unfold_locales (simp_all only: rnd53_mono rnd53_exact rnd53_rep53 zero_less_one)

section \<open>Well-formedness is kept by every operation\<close>

lemma wf_mk_double: "0 < d \<Longrightarrow> wf_double (mk_double s n d)"
  by (simp add: mk_double_def Let_def rnd53_rep53)

lemma rep53_0 [simp]: "rep53 0"
  by (simp add: rep53_def)

lemma max_units_pos [simp]: "0 < max_units"
  by (simp add: max_units_def)

lemma wf_dneg [simp]: "wf_double (dneg x) = wf_double x"
  by (cases x) auto

lemma wf_dadd: "wf_double (dadd x y)"
  by (cases "(x, y)" rule: dadd.cases) (auto simp: Let_def wf_mk_double)

lemma wf_dsub: "wf_double (dsub x y)"
  by (simp add: dsub_def wf_dadd)

lemma wf_dmul: "wf_double (dmul x y)"
  by (cases "(x, y)" rule: dmul.cases) (auto simp: wf_mk_double)

lemma wf_ddiv: "wf_double (ddiv x y)"
  by (cases "(x, y)" rule: ddiv.cases) (auto simp: wf_mk_double)

lemma wf_double_of_nat: "wf_double (double_of_nat n)"
  by (simp add: double_of_nat_def wf_mk_double)

lemma wf_double_of_int: "wf_double (double_of_int n)"
  by (simp add: double_of_int_def wf_mk_double)

lemma wf_dzero [simp]: "wf_double dzero"
  by (simp add: dzero_def)

lemmas wf_double_ops = wf_dadd wf_dsub wf_dmul wf_ddiv wf_double_of_nat wf_double_of_int
  wf_mk_double

section \<open>Comparison\<close>

lemma dless_irrefl [simp]: "\<not> dless x x"
  by (cases x) auto

lemma dless_imp_dle: "dless x y \<Longrightarrow> dle x y"
  by (cases "(x, y)" rule: dless.cases) auto

lemma dle_trans: "dle x y \<Longrightarrow> dle y z \<Longrightarrow> dle x z"
  by (cases x; cases y; cases z) (auto split: if_splits)

lemma not_dless_iff: "x \<noteq> NaN \<Longrightarrow> y \<noteq> NaN \<Longrightarrow> \<not> dless x y \<longleftrightarrow> dle y x"
  by (cases "(x, y)" rule: dless.cases) auto

lemma dless_dle_trans: "dless x y \<Longrightarrow> dle y z \<Longrightarrow> dless x z"
  by (cases x; cases y; cases z) (auto split: if_splits)

section \<open>Whole-number doubles\<close>

lemma rep53_whole: "n \<le> 2 ^ 53 \<Longrightarrow> rep53 (n * one_units)"
  unfolding one_units_def by (rule rep53_mult_pow)

lemma whole_lt_max: "n \<le> 2 ^ 53 \<Longrightarrow> n * one_units < max_units"
proof -
  assume "n \<le> 2 ^ 53"
  then have "n * one_units \<le> 2 ^ 53 * 2 ^ 1074" by (simp add: one_units_def)
  also have "\<dots> = (2::nat) ^ (53 + 1074)" by (simp only: power_add)
  also have "\<dots> < 2 ^ 2098" by (rule power_strict_increasing) simp_all
  finally show ?thesis by (simp only: max_units_def)
qed

lemma double_of_nat_whole: "n \<le> 2 ^ 53 \<Longrightarrow> double_of_nat n = Fin False (n * one_units)"
  unfolding double_of_nat_def mk_double_def Let_def
  by (simp only: rnd53_exact [OF rep53_whole] whole_lt_max if_True)

lemma rnd53_den_exact:
  assumes "0 < d" and "rep53 k"
  shows "rnd53 (k * d) d = k"
proof -
  have "2 ^ (bitlen k - 53) dvd k" using assms(2) by (simp add: rep53_def dvd_eq_mod_eq_0)
  then have "d * 2 ^ (bitlen k - 53) dvd k * d" by (metis mult.commute mult_dvd_mono dvd_refl)
  then have "rhe (k * d) (d * 2 ^ (bitlen k - 53)) = k * d div (d * 2 ^ (bitlen k - 53))"
    using assms(1) by (simp add: rhe_exact)
  also have "\<dots> = k div 2 ^ (bitlen k - 53)"
    using assms(1) by (simp add: div_mult2_eq)
  finally show ?thesis
    using assms \<open>2 ^ (bitlen k - 53) dvd k\<close> by (simp add: rnd53_def Let_def)
qed

text \<open>The sum of two finite doubles whose exact value is a natural number of units.\<close>

lemma dadd_fin:
  assumes "units (Fin s a) + units (Fin t b) = int k"
  shows "dadd (Fin s a) (Fin t b) = (if k = 0 then Fin (s \<and> t) 0 else mk_double False k 1)"
  using assms by (simp only: dadd.simps Let_def) simp

lemma mk_double_whole:
  "k \<le> 2 ^ 53 \<Longrightarrow> mk_double False (k * one_units) 1 = Fin False (k * one_units)"
  using double_of_nat_whole [of k] by (simp only: double_of_nat_def)

lemma dless_whole [dbl_simps]:
  "m \<le> 2 ^ 53 \<Longrightarrow> n \<le> 2 ^ 53 \<Longrightarrow> dless (double_of_nat m) (double_of_nat n) \<longleftrightarrow> m < n"
  by (simp add: double_of_nat_whole)

lemma dle_whole [dbl_simps]:
  "m \<le> 2 ^ 53 \<Longrightarrow> n \<le> 2 ^ 53 \<Longrightarrow> dle (double_of_nat m) (double_of_nat n) \<longleftrightarrow> m \<le> n"
  by (simp add: double_of_nat_whole)

lemma dzero_whole: "dzero = double_of_nat 0"
  by (simp add: dzero_def double_of_nat_whole)

lemma dle_dzero_whole [dbl_simps]: "n \<le> 2 ^ 53 \<Longrightarrow> dle (double_of_nat n) dzero \<longleftrightarrow> n = 0"
  by (simp add: dzero_whole dle_whole)

lemma dsub_whole [dbl_simps]:
  assumes "m \<le> n" and "n \<le> 2 ^ 53"
  shows "dsub (double_of_nat n) (double_of_nat m) = double_of_nat (n - m)"
proof -
  have m: "m \<le> 2 ^ 53" and nm: "n - m \<le> 2 ^ 53" using assms by auto
  have "units (Fin False (n * one_units)) + units (Fin True (m * one_units))
      = int ((n - m) * one_units)"
    using assms(1) by (simp add: algebra_simps)
  from dadd_fin [OF this] show ?thesis
    using nm unfolding double_of_nat_whole [OF m] double_of_nat_whole [OF nm]
      double_of_nat_whole [OF assms(2)] dsub_def
    by (auto simp: mk_double_whole simp del: units.simps One_nat_def)
qed

lemma dmul_whole [dbl_simps]:
  assumes "m \<le> 2 ^ 53" and "n \<le> 2 ^ 53" and "m * n \<le> 2 ^ 53"
  shows "dmul (double_of_nat m) (double_of_nat n) = double_of_nat (m * n)"
proof -
  have "m * one_units * (n * one_units) = (m * n * one_units) * one_units" by simp
  then have "rnd53 (m * one_units * (n * one_units)) one_units = m * n * one_units"
    by (simp only: rnd53_den_exact [OF one_units_pos rep53_whole [OF assms(3)]])
  then show ?thesis
    using whole_lt_max [OF assms(3)]
    unfolding double_of_nat_whole [OF assms(1)] double_of_nat_whole [OF assms(2)]
      double_of_nat_whole [OF assms(3)]
    by (simp add: mk_double_def Let_def)
qed

lemma dadd_whole [dbl_simps]:
  assumes "m + n \<le> 2 ^ 53"
  shows "dadd (double_of_nat m) (double_of_nat n) = double_of_nat (m + n)"
proof -
  have m: "m \<le> 2 ^ 53" and n: "n \<le> 2 ^ 53" using assms by auto
  have "units (Fin False (m * one_units)) + units (Fin False (n * one_units))
      = int ((m + n) * one_units)"
    by (simp add: algebra_simps)
  from dadd_fin [OF this] show ?thesis
    using assms unfolding double_of_nat_whole [OF m] double_of_nat_whole [OF n]
      double_of_nat_whole [OF assms]
    by (auto simp: mk_double_whole simp del: units.simps One_nat_def)
qed

section \<open>Debits and costs\<close>

text \<open>A balance that is a finite non-negative number.\<close>

fun sound_balance :: "double \<Rightarrow> bool" where
  "sound_balance (Fin s k) = (rep53 k \<and> k < max_units \<and> (s \<longrightarrow> k = 0))"
| "sound_balance d = False"

lemma sound_balance_iff:
  "sound_balance d \<longleftrightarrow> wf_double d \<and> is_fin d \<and> dle dzero d"
  by (cases d) (auto simp: dzero_def)

text \<open>A sound amount is what an order can cost: not NaN and not negative.\<close>

definition sound_amount :: "double \<Rightarrow> bool" where
  "sound_amount a \<longleftrightarrow> wf_double a \<and> a \<noteq> NaN \<and> dle dzero a"

lemma dsub_sound:
  assumes "sound_balance cur" and "sound_amount a" and "\<not> dless cur a"
  shows "sound_balance (dsub cur a)" and "dle (dsub cur a) cur"
proof -
  obtain s k where cur: "cur = Fin s k" and k: "rep53 k" "k < max_units" "s \<longrightarrow> k = 0"
    using assms(1) by (cases cur) auto
  obtain t l where a: "a = Fin t l"
    using assms(2,3) cur by (cases a) (auto simp: sound_amount_def dzero_def)
  have tl: "t \<longrightarrow> l = 0" using assms(2) a by (auto simp: sound_amount_def dzero_def)
  have lk: "l \<le> k" using assms(3) k tl cur a by (auto split: if_splits)
  have z: "units (Fin s k) + units (Fin (\<not> t) l) = int (k - l)"
    using k tl lk by auto
  have r: "rnd53 (k - l) 1 \<le> k" by (rule r53.rnd_le_bound) (use k in simp_all)
  have "dsub cur a = (if k = l then Fin (s \<and> \<not> t) 0 else Fin False (rnd53 (k - l) 1))"
    using r k lk unfolding cur a dsub_def dneg.simps dadd_fin [OF z]
    by (auto simp: Let_def mk_double_def)
  then show "sound_balance (dsub cur a)" and "dle (dsub cur a) cur"
    using r k r53.rnd_rep by (auto simp: cur)
qed

lemma dmul_sound:
  assumes "sound_amount x" and "sound_amount y" and "\<not> dle y dzero"
    and "is_fin x" and "\<not> dle x dzero"
  shows "sound_amount (dmul x y)"
  using assms
  by (cases "(x, y)" rule: dmul.cases)
    (auto simp: sound_amount_def dzero_def mk_double_def Let_def rnd53_rep53 split: if_splits)

lemma sound_amount_of_nat: "sound_amount (double_of_nat n)"
  by (auto simp: sound_amount_def wf_double_of_nat)
    (auto simp: double_of_nat_def mk_double_def Let_def dzero_def split: if_splits)

lemma sound_balance_whole: "n \<le> 2 ^ 53 \<Longrightarrow> sound_balance (double_of_nat n)"
  by (simp add: double_of_nat_whole rep53_whole whole_lt_max)

text \<open>A NaN amount is never refused by the comparison, and it turns the balance into NaN.\<close>

lemma dsub_NaN [simp]: "dsub x NaN = NaN" "dsub NaN x = NaN"
  by (cases x; simp add: dsub_def)+

lemma dless_NaN [simp]: "\<not> dless x NaN" "\<not> dle x NaN"
  by (cases x; simp)+

lemma dmul_NaN [simp]: "dmul x NaN = NaN"
  by (cases x) auto

end
