(* ===== verification/CppString.thy ===== *)
theory CppString
  imports Binary64
begin

text \<open>
  The part of the C++ standard library on strings that the sources use: searching and cutting
  a std::string, the numeric conversions stoi, stoul, stoull and stod (with their exceptions as
  values), to_string and the printf format of the checksum.  A std::string is a list of bytes.
\<close>

section \<open>Searching\<close>

abbreviation SOH :: char where
  "SOH \<equiv> CHR 0x01"

text \<open>\<open>s.find(c, pos)\<close>; the result None is \<open>std::string::npos\<close>.\<close>

definition str_find :: "string \<Rightarrow> char \<Rightarrow> nat \<Rightarrow> nat option" where
  "str_find s c pos =
     (let i = pos + length (takeWhile (\<lambda>x. x \<noteq> c) (drop pos s))
      in if i < length s then Some i else None)"

text \<open>\<open>s.substr(pos, n)\<close> and \<open>s.compare(pos, n, t) == 0\<close>, for \<open>pos\<close> inside the string.\<close>

definition substr :: "string \<Rightarrow> nat \<Rightarrow> nat \<Rightarrow> string" where
  "substr s pos n = take n (drop pos s)"

definition compare_eq :: "string \<Rightarrow> nat \<Rightarrow> nat \<Rightarrow> string \<Rightarrow> bool" where
  "compare_eq s pos n t \<longleftrightarrow> substr s pos n = t"

text \<open>\<open>s.rfind(t)\<close>: the last position where \<open>t\<close> occurs.\<close>

fun rfind_from :: "string \<Rightarrow> string \<Rightarrow> nat \<Rightarrow> nat option" where
  "rfind_from s t 0 = (if compare_eq s 0 (length t) t then Some 0 else None)"
| "rfind_from s t (Suc i) =
     (if compare_eq s (Suc i) (length t) t then Some (Suc i) else rfind_from s t i)"

definition str_rfind :: "string \<Rightarrow> string \<Rightarrow> nat option" where
  "str_rfind s t =
     (if length s < length t then None else rfind_from s t (length s - length t))"

section \<open>Numeric conversions\<close>

datatype conv_error = InvalidArgument | OutOfRange

definition is_space :: "char \<Rightarrow> bool" where
  "is_space c \<longleftrightarrow> c \<in> {CHR '' '', CHR 0x09, CHR 0x0A, CHR 0x0B, CHR 0x0C, CHR 0x0D}"

definition is_digit :: "char \<Rightarrow> bool" where
  "is_digit c \<longleftrightarrow> 48 \<le> (of_char c :: nat) \<and> (of_char c :: nat) \<le> 57"

definition digit_val :: "char \<Rightarrow> nat" where
  "digit_val c = of_char c - 48"

definition digits_val :: "string \<Rightarrow> nat" where
  "digits_val ds = foldl (\<lambda>n c. 10 * n + digit_val c) 0 ds"

text \<open>An optional sign; the first component is True after a minus.\<close>

fun split_sign :: "string \<Rightarrow> bool \<times> string" where
  "split_sign (c # cs) =
     (if c = CHR ''-'' then (True, cs) else if c = CHR ''+'' then (False, cs) else (False, c # cs))"
| "split_sign [] = (False, [])"

text \<open>
  What strtol and strtoul read in base ten: leading white space, a sign, digits.
  The rest of the string is ignored; no digit at all is the exception invalid\_argument.
\<close>

definition scan_int :: "string \<Rightarrow> conv_error + (bool \<times> nat)" where
  "scan_int s =
     (let (neg, t) = split_sign (dropWhile is_space s); ds = takeWhile is_digit t
      in if ds = [] then Inl InvalidArgument else Inr (neg, digits_val ds))"

text \<open>
  \<open>std::stoul\<close> and \<open>std::stoull\<close> (64 bits both): a minus sign negates modulo two to the
  power of 64, a magnitude that does not fit is the exception out\_of\_range.
\<close>

definition stoul :: "string \<Rightarrow> conv_error + u64" where
  "stoul s =
     (case scan_int s of
        Inl e \<Rightarrow> Inl e
      | Inr (neg, n) \<Rightarrow>
          if 2 ^ 64 \<le> n then Inl OutOfRange
          else Inr (if neg then - of_nat n else of_nat n))"

definition stoi :: "string \<Rightarrow> conv_error + int" where
  "stoi s =
     (case scan_int s of
        Inl e \<Rightarrow> Inl e
      | Inr (neg, n) \<Rightarrow>
          let v = (if neg then - int n else int n)
          in if v < - (2 ^ 31) \<or> 2 ^ 31 \<le> v then Inl OutOfRange else Inr v)"

section \<open>Floating-point conversion\<close>

definition is_xdigit :: "char \<Rightarrow> bool" where
  "is_xdigit c \<longleftrightarrow> is_digit c \<or> c \<in> set ''abcdefABCDEF''"

definition xdigit_val :: "char \<Rightarrow> nat" where
  "xdigit_val c =
     (let n = of_char c :: nat
      in if is_digit c then n - 48 else if n < 97 then n - 55 else n - 87)"

definition xdigits_val :: "string \<Rightarrow> nat" where
  "xdigits_val ds = foldl (\<lambda>n c. 16 * n + xdigit_val c) 0 ds"

definition to_lower :: "char \<Rightarrow> char" where
  "to_lower c =
     (let n = of_char c :: nat in if 65 \<le> n \<and> n \<le> 90 then char_of (n + 32) else c)"

definition starts_ci :: "string \<Rightarrow> string \<Rightarrow> bool" where
  "starts_ci p s \<longleftrightarrow> map to_lower (take (length p) s) = p"

text \<open>The digits before and after an optional point.\<close>

definition split_point :: "(char \<Rightarrow> bool) \<Rightarrow> string \<Rightarrow> string \<times> string \<times> string" where
  "split_point dig s =
     (let ip = takeWhile dig s; r = dropWhile dig s
      in case r of
           [] \<Rightarrow> (ip, [], [])
         | c # r' \<Rightarrow>
             if c = CHR ''.'' then (ip, takeWhile dig r', dropWhile dig r') else (ip, [], r))"

text \<open>An exponent part: the letter, a sign, at least one digit; 0 if it is not there.\<close>

definition scan_exp :: "char \<Rightarrow> string \<Rightarrow> int" where
  "scan_exp letter s =
     (case s of
        [] \<Rightarrow> 0
      | c # r \<Rightarrow>
          if to_lower c = letter then
            (let (neg, t) = split_sign r; ds = takeWhile is_digit t
             in if ds = [] then 0 else if neg then - int (digits_val ds) else int (digits_val ds))
          else 0)"

text \<open>
  The value \<open>n * b ^ e\<close> rounded; overflow and inexact underflow raise out\_of\_range, as
  strtod of the GNU library sets ERANGE (tininess detected after rounding).
\<close>

definition scaled_double :: "bool \<Rightarrow> nat \<Rightarrow> nat \<Rightarrow> int \<Rightarrow> conv_error + double" where
  "scaled_double neg n b e =
     (let num = n * b ^ nat e * one_units; den = b ^ nat (- e);
          inexact = (rnd53 num den * den \<noteq> num);
          tiny = (4 * num < (2 ^ 54 - 1) * den)
      in case mk_double neg num den of
           Inf s \<Rightarrow> Inl OutOfRange
         | d \<Rightarrow> if inexact \<and> tiny then Inl OutOfRange else Inr d)"

definition scan_hex :: "bool \<Rightarrow> string \<Rightarrow> (conv_error + double) option" where
  "scan_hex neg s =
     (if starts_ci ''0x'' s then
        (let (ip, fp, r) = split_point is_xdigit (drop 2 s)
         in if ip @ fp = [] then None
            else Some (scaled_double neg (xdigits_val (ip @ fp)) 2
                         (scan_exp (CHR ''p'') r - 4 * int (length fp))))
      else None)"

definition scan_dec :: "bool \<Rightarrow> string \<Rightarrow> conv_error + double" where
  "scan_dec neg s =
     (let (ip, fp, r) = split_point is_digit s
      in if ip @ fp = [] then Inl InvalidArgument
         else scaled_double neg (digits_val (ip @ fp)) 10
                (scan_exp (CHR ''e'') r - int (length fp)))"

definition stod :: "string \<Rightarrow> conv_error + double" where
  "stod s =
     (let (neg, t) = split_sign (dropWhile is_space s)
      in if starts_ci ''inf'' t then Inr (Inf neg)
         else if starts_ci ''nan'' t then Inr NaN
         else case scan_hex neg t of Some r \<Rightarrow> r | None \<Rightarrow> scan_dec neg t)"

section \<open>Formatting\<close>

definition digit_char :: "nat \<Rightarrow> char" where
  "digit_char n = char_of (48 + n)"

text \<open>\<open>std::to_string\<close> of an unsigned integer.\<close>

fun to_string :: "nat \<Rightarrow> string" where
  "to_string n =
     (if n < 10 then [digit_char n] else to_string (n div 10) @ [digit_char (n mod 10)])"

declare to_string.simps [simp del]

text \<open>\<open>snprintf\<close> with the format \<open>%03d\<close>, for a non-negative argument.\<close>

definition format_03d :: "nat \<Rightarrow> string" where
  "format_03d n = replicate (3 - length (to_string n)) (CHR ''0'') @ to_string n"

text \<open>\<open>std::to_string\<close> of a double, the format \<open>%f\<close>: six decimals of the exact value.\<close>

definition pad_left :: "nat \<Rightarrow> string \<Rightarrow> string" where
  "pad_left n s = replicate (n - length s) (CHR ''0'') @ s"

fun to_string_double :: "double \<Rightarrow> string" where
  "to_string_double NaN = ''nan''"
| "to_string_double (Inf s) = (if s then ''-inf'' else ''inf'')"
| "to_string_double (Fin s k) =
     (let m = rhe (k * 10 ^ 6) one_units
      in (if s then ''-'' else []) @ to_string (m div 10 ^ 6) @ ''.'' @
         pad_left 6 (to_string (m mod 10 ^ 6)))"

section \<open>Laws of searching\<close>

lemma str_find_stop:
  assumes "\<forall>x\<in>set xs. x \<noteq> c"
  shows "str_find (pre @ xs @ c # ys) c (length pre) = Some (length pre + length xs)"
  using assms by (simp add: str_find_def)

lemma str_find_stop_0: "\<forall>x\<in>set xs. x \<noteq> c \<Longrightarrow> str_find (xs @ c # ys) c 0 = Some (length xs)"
  using str_find_stop [of xs c "[]" ys] by simp

lemma str_find_none:
  assumes "\<forall>x\<in>set xs. x \<noteq> c"
  shows "str_find (pre @ xs) c (length pre) = None"
  using assms by (simp add: str_find_def)

lemma str_find_Some:
  assumes "str_find s c pos = Some i"
  shows "pos \<le> i" and "i < length s" and "s ! i = c" and "\<forall>j. pos \<le> j \<and> j < i \<longrightarrow> s ! j \<noteq> c"
proof -
  let ?tw = "takeWhile (\<lambda>x. x \<noteq> c) (drop pos s)"
  from assms have i: "i = pos + length ?tw" and lt: "i < length s"
    by (auto simp: str_find_def Let_def split: if_splits)
  show "pos \<le> i" and "i < length s" using i lt by auto
  from i lt have "length ?tw < length (drop pos s)" by simp
  then have "drop pos s ! length ?tw = c" using nth_length_takeWhile by blast
  then show "s ! i = c" using i lt by simp
  show "\<forall>j. pos \<le> j \<and> j < i \<longrightarrow> s ! j \<noteq> c"
  proof (intro allI impI)
    fix j assume "pos \<le> j \<and> j < i"
    then have j: "j - pos < length ?tw" and pj: "pos \<le> j" using i by auto
    then have "?tw ! (j - pos) \<noteq> c" using nth_mem set_takeWhileD by fastforce
    moreover have "?tw ! (j - pos) = s ! j"
      using j pj lt i by (simp add: takeWhile_nth)
    ultimately show "s ! j \<noteq> c" by simp
  qed
qed

lemma compare_eq_nth:
  assumes "compare_eq s j (length t) t" and "k < length t" and "j \<le> length s"
  shows "s ! (j + k) = t ! k"
proof -
  have "take (length t) (drop j s) ! k = t ! k"
    using assms(1) by (simp add: compare_eq_def substr_def)
  then show ?thesis using assms(2,3) by simp
qed

lemma rfind_from_Some:
  "rfind_from s t n = Some i \<Longrightarrow> i \<le> n \<and> compare_eq s i (length t) t"
  by (induction n) (auto split: if_splits)

lemma rfind_from_last:
  assumes "i \<le> n" and "compare_eq s i (length t) t"
    and "\<And>j. i < j \<Longrightarrow> j \<le> n \<Longrightarrow> \<not> compare_eq s j (length t) t"
  shows "rfind_from s t n = Some i"
  using assms by (induction n) (auto simp: le_Suc_eq split: if_splits)

section \<open>Laws of the conversions\<close>

lemma is_digit_digit_char [simp]: "n < 10 \<Longrightarrow> is_digit (digit_char n)"
  by (simp add: is_digit_def digit_char_def)

lemma digit_val_digit_char [simp]: "n < 10 \<Longrightarrow> digit_val (digit_char n) = n"
  by (simp add: digit_val_def digit_char_def)

lemma to_string_nonempty [simp]: "to_string n \<noteq> []"
  by (subst to_string.simps) simp

lemma to_string_digits: "\<forall>c\<in>set (to_string n). is_digit c"
proof (induction n rule: to_string.induct)
  case (1 n)
  then show ?case by (cases "n < 10") (auto simp: to_string.simps [of n])
qed

lemma digits_val_snoc: "digits_val (ds @ [c]) = 10 * digits_val ds + digit_val c"
  by (simp add: digits_val_def)

lemma digits_val_to_string [simp]: "digits_val (to_string n) = n"
proof (induction n rule: to_string.induct)
  case (1 n)
  then show ?case
    by (cases "n < 10") (auto simp: to_string.simps [of n] digits_val_snoc, simp add: digits_val_def)
qed

lemma digits_val_zeros: "digits_val (replicate k (CHR ''0'') @ ds) = digits_val ds"
  by (induction k) (simp_all add: digits_val_def digit_val_def)

lemma is_digit_0 [simp]: "is_digit (CHR ''0'')"
  by (simp add: is_digit_def)

lemma not_digit [simp]:
  "is_digit SOH = False" "is_digit (CHR ''='') = False" "is_digit (CHR ''.'') = False"
  "is_digit (CHR ''-'') = False" "is_digit (CHR ''+'') = False" "is_digit (CHR '' '') = False"
  by (simp_all add: is_digit_def)

lemma digit_not_space: "is_digit c \<Longrightarrow> \<not> is_space c"
  by (auto simp: is_digit_def is_space_def)

lemma split_sign_digit: "is_digit c \<Longrightarrow> split_sign (c # cs) = (False, c # cs)"
  by auto

text \<open>Reading a string that starts with digits.\<close>

lemma scan_int_digits:
  assumes "ds \<noteq> []" and "\<forall>c\<in>set ds. is_digit c"
  shows "scan_int ds = Inr (False, digits_val ds)"
proof -
  obtain c cs where ds: "ds = c # cs" using assms(1) by (cases ds) auto
  then have "\<not> is_space c" and "split_sign ds = (False, ds)"
    using assms(2) digit_not_space split_sign_digit by auto
  then show ?thesis using assms ds by (simp add: scan_int_def)
qed

lemma scan_int_to_string: "scan_int (to_string n) = Inr (False, n)"
  by (simp add: scan_int_digits to_string_digits)

lemma stoul_to_string: "n < 2 ^ 64 \<Longrightarrow> stoul (to_string n) = Inr (of_nat n)"
  by (simp add: stoul_def scan_int_to_string)

lemma stoi_to_string: "n < 2 ^ 31 \<Longrightarrow> stoi (to_string n) = Inr (int n)"
  by (simp add: stoi_def scan_int_to_string)

lemma format_03d_digits: "\<forall>c\<in>set (format_03d n). is_digit c"
  using to_string_digits by (auto simp: format_03d_def)

lemma stoi_format_03d: "n < 2 ^ 31 \<Longrightarrow> stoi (format_03d n) = Inr (int n)"
proof -
  assume "n < 2 ^ 31"
  have "format_03d n \<noteq> []" by (simp add: format_03d_def)
  then have "scan_int (format_03d n) = Inr (False, n)"
    using scan_int_digits [OF _ format_03d_digits] by (simp add: format_03d_def digits_val_zeros)
  then show ?thesis using \<open>n < 2 ^ 31\<close> by (simp add: stoi_def)
qed

lemma length_to_string_le: "n < 10 ^ k \<Longrightarrow> 0 < k \<Longrightarrow> length (to_string n) \<le> k"
proof (induction k arbitrary: n)
  case (Suc k)
  show ?case
  proof (cases "n < 10")
    case False
    then have "n div 10 < 10 ^ k" and "0 < k"
      using Suc.prems by (simp, cases k) auto
    with Suc.IH [of "n div 10"] False show ?thesis by (simp add: to_string.simps [of n])
  qed (simp add: to_string.simps [of n])
qed simp

lemma length_format_03d: "n < 1000 \<Longrightarrow> length (format_03d n) = 3"
  using length_to_string_le [of n 3] by (simp add: format_03d_def)

text \<open>Results of the signed and unsigned conversions are in range.\<close>

lemma stoi_range: "stoi s = Inr v \<Longrightarrow> - (2 ^ 31) \<le> v \<and> v < 2 ^ 31"
  by (auto simp: stoi_def Let_def split: sum.splits prod.splits if_splits)

lemma stod_wf: "stod s = Inr d \<Longrightarrow> wf_double d"
proof -
  have sc: "scaled_double neg n b e = Inr d \<Longrightarrow> 0 < b \<Longrightarrow> wf_double d" for neg n b e
    by (auto simp: scaled_double_def Let_def wf_mk_double split: double.splits if_splits)
  assume "stod s = Inr d"
  then show ?thesis
    by (auto simp: stod_def scan_hex_def scan_dec_def Let_def sc
        split: prod.splits if_splits option.splits)
qed

text \<open>Printing and reading back a whole-number double.\<close>

lemma pad_left_6_0: "pad_left 6 (to_string 0) = ''000000''"
  by code_simp

lemma to_string_double_whole:
  assumes "n \<le> 2 ^ 53"
  shows "to_string_double (double_of_nat n) = to_string n @ ''.000000''"
proof -
  have "n * one_units * 10 ^ 6 = n * 10 ^ 6 * one_units" by simp
  then have "rhe (n * one_units * 10 ^ 6) one_units = n * 10 ^ 6"
    by (simp only: rhe_exact [OF one_units_pos dvd_triv_right]) simp
  then show ?thesis
    by (simp add: double_of_nat_whole [OF assms] Let_def pad_left_6_0 del: power_numeral)
qed

lemma stod_signed_point:
  assumes "ip \<noteq> []" and "\<forall>c\<in>set ip. is_digit c" and "\<forall>c\<in>set fp. is_digit c"
  shows "stod ((if s then ''-'' else []) @ ip @ CHR ''.'' # fp) =
    scaled_double s (digits_val (ip @ fp)) 10 (- int (length fp))"
proof -
  obtain c cs where ip: "ip = c # cs" using assms(1) by (cases ip) auto
  have d: "is_digit c" using assms(2) ip by simp
  let ?t = "ip @ CHR ''.'' # fp"
  have "split_sign (dropWhile is_space ((if s then ''-'' else []) @ ?t)) = (s, ?t)"
    using digit_not_space [OF d] split_sign_digit [OF d] ip by (simp add: is_space_def)
  moreover have "to_lower c = c" using d by (simp add: to_lower_def is_digit_def Let_def)
  then have "\<not> starts_ci ''inf'' ?t" and "\<not> starts_ci ''nan'' ?t"
    using d ip by (auto simp: starts_ci_def is_digit_def)
  moreover have "scan_hex s ?t = None"
  proof -
    have "\<not> starts_ci ''0x'' ?t"
    proof (cases cs)
      case Nil
      with ip show ?thesis by (simp add: starts_ci_def to_lower_def)
    next
      case (Cons c' cs')
      then have "is_digit c'" using assms(2) ip by simp
      then have "to_lower c' \<noteq> CHR ''x''" by (auto simp: to_lower_def is_digit_def Let_def)
      with Cons ip show ?thesis by (simp add: starts_ci_def)
    qed
    then show ?thesis by (simp add: scan_hex_def)
  qed
  moreover have "split_point is_digit ?t = (ip, fp, [])"
    using assms(2,3) by (simp add: split_point_def)
  ultimately show ?thesis
    using assms(1) by (simp add: stod_def scan_dec_def scan_exp_def)
qed

lemmas stod_digits_point = stod_signed_point [where s = False, simplified]

lemma scaled_double_whole:
  assumes "n \<le> 2 ^ 53"
  shows "scaled_double False (n * 10 ^ k) 10 (- int k) = Inr (double_of_nat n)"
proof -
  have num: "n * 10 ^ k * 10 ^ nat (- int k) * one_units = n * one_units * 10 ^ k" by simp
  have r: "rnd53 (n * one_units * 10 ^ k) (10 ^ k) = n * one_units"
    by (rule rnd53_den_exact) (simp, rule rep53_whole [OF assms])
  then have "mk_double False (n * one_units * 10 ^ k) (10 ^ k) = double_of_nat n"
    using whole_lt_max [OF assms] by (simp add: mk_double_def double_of_nat_whole [OF assms])
  then show ?thesis
    unfolding scaled_double_def num
    by (simp add: r Let_def double_of_nat_whole [OF assms])
qed

lemma stod_to_string_double:
  assumes "n \<le> 2 ^ 53"
  shows "stod (to_string_double (double_of_nat n)) = Inr (double_of_nat n)"
proof -
  have "digits_val (ds @ ''000000'') = digits_val ds * 10 ^ 6" for ds
    by (simp add: digits_val_def digit_val_def)
  then have "digits_val (to_string n @ ''000000'') = n * 10 ^ 6" by simp
  then show ?thesis
    using stod_digits_point [of "to_string n" "''000000''"] scaled_double_whole [OF assms, of 6]
    by (simp add: to_string_double_whole [OF assms] to_string_digits)
qed

section \<open>Printing and reading back any double\<close>

text \<open>
  The double that stod reads from the six decimals that to\_string prints: a finite value rounded
  to a multiple of one millionth, and that to a double.
\<close>

definition six_decimals :: "double \<Rightarrow> double" where
  "six_decimals p =
     (case p of
        Fin s k \<Rightarrow> mk_double s (rhe (k * 10 ^ 6) one_units * one_units) (10 ^ 6)
      | _ \<Rightarrow> p)"

lemma digits_val_append: "digits_val (xs @ ys) = digits_val xs * 10 ^ length ys + digits_val ys"
proof (induction ys rule: rev_induct)
  case (snoc y ys)
  have "digits_val (xs @ ys @ [y]) = 10 * digits_val (xs @ ys) + digits_val [y]"
    using digits_val_snoc [of "xs @ ys" y] by (simp add: digits_val_def)
  with snoc digits_val_snoc [of ys y] show ?case by (simp add: digits_val_def algebra_simps)
qed (simp add: digits_val_def)

lemma pad_left_6:
  assumes "r < 10 ^ 6"
  shows "length (pad_left 6 (to_string r)) = 6" and "digits_val (pad_left 6 (to_string r)) = r"
    and "\<forall>c \<in> set (pad_left 6 (to_string r)). is_digit c"
  using length_to_string_le [OF assms] to_string_digits
  by (auto simp: pad_left_def digits_val_zeros)

text \<open>A large double is a whole number, so its six decimals are exact; a small one stays small.\<close>

lemma six_decimals_fits:
  assumes "rep53 k" and "k < max_units"
  shows "rnd53 (rhe (k * 10 ^ 6) one_units * one_units) (10 ^ 6) < max_units"
proof (cases "2 ^ 1126 \<le> k")
  case True
  then have "\<not> bitlen k \<le> 1126" unfolding bitlen_le_iff by simp
  then have "1074 \<le> bitlen k - 53" by simp
  then have "one_units dvd 2 ^ (bitlen k - 53)" unfolding one_units_def by (rule le_imp_power_dvd)
  also have "2 ^ (bitlen k - 53) dvd k" using assms(1) by (simp add: rep53_def dvd_eq_mod_eq_0)
  finally have "one_units dvd k * 10 ^ 6" by (rule dvd_mult2)
  then have "rhe (k * 10 ^ 6) one_units * one_units = k * 10 ^ 6" by (simp only: rhe_exact [OF one_units_pos] dvd_div_mult_self)
  then show ?thesis using rnd53_den_exact [of "10 ^ 6" k] assms by (simp del: power_numeral)
next
  case False
  then have "k \<le> 2 ^ 52 * one_units" by (simp add: one_units_def flip: power_add)
  then have "k * 10 ^ 6 \<le> 2 ^ 52 * one_units * 10 ^ 6" by (rule mult_le_mono1)
  also have "\<dots> = 2 ^ 52 * 10 ^ 6 * one_units" by (simp only: ac_simps)
  finally have "rhe (k * 10 ^ 6) one_units \<le> rhe (2 ^ 52 * 10 ^ 6 * one_units) one_units" by (rule rhe_mono [OF one_units_pos])
  also have "\<dots> = 2 ^ 52 * 10 ^ 6" by (simp only: rhe_exact [OF one_units_pos dvd_triv_right]) simp
  finally have "rhe (k * 10 ^ 6) one_units * one_units \<le> 2 ^ 52 * 10 ^ 6 * one_units" by (rule mult_le_mono1)
  also have "\<dots> = 2 ^ 52 * one_units * 10 ^ 6" by (simp only: ac_simps)
  finally have "rnd53 (rhe (k * 10 ^ 6) one_units * one_units) (10 ^ 6) \<le> rnd53 (2 ^ 52 * one_units * 10 ^ 6) (10 ^ 6)"
    by (rule rnd53_mono [rotated]) simp
  also have "\<dots> = 2 ^ 52 * one_units" by (rule rnd53_den_exact) (simp, rule rep53_whole, simp)
  also have "\<dots> < max_units" by (rule whole_lt_max) simp
  finally show ?thesis .
qed

lemma scaled_double_millionths:
  assumes "rnd53 (m * one_units) (10 ^ 6) < max_units"
  shows "scaled_double s m 10 (- 6) = Inr (mk_double s (m * one_units) (10 ^ 6))"
proof -
  have "\<not> 4 * (m * one_units) < (2 ^ 54 - 1) * 10 ^ 6" if "m \<noteq> 0"
  proof -
    have "(2 ^ 54 - 1) * 10 ^ 6 \<le> (2::nat) ^ 54 * 2 ^ 20" by simp
    also have "\<dots> \<le> 2 ^ 1074" unfolding power_add [symmetric] by (rule power_increasing) simp_all
    also have "\<dots> \<le> 4 * (m * one_units)" using that by (simp add: one_units_def)
    finally show ?thesis by simp
  qed
  moreover have "rnd53 (m * one_units) (10 ^ 6) * 10 ^ 6 = m * one_units" if "m = 0" using that by simp
  ultimately have ok: "\<not> (rnd53 (m * one_units) (10 ^ 6) * 10 ^ 6 \<noteq> m * one_units \<and>
      4 * (m * one_units) < (2 ^ 54 - 1) * 10 ^ 6)" by blast
  have "nat (- 6) = 0" "nat (- (- 6)) = 6" by simp_all
  then show ?thesis
    unfolding scaled_double_def Let_def mk_double_def power_0 mult_1_right using assms ok by simp
qed

lemma stod_six_decimals:
  assumes "wf_double p"
  shows "stod (to_string_double p) = Inr (six_decimals p)"
proof (cases p)
  case NaN
  have "stod ''nan'' = Inr NaN" by code_simp
  with NaN show ?thesis by (simp add: six_decimals_def)
next
  case (Inf s)
  have "stod ''inf'' = Inr (Inf False)" "stod ''-inf'' = Inr (Inf True)" by code_simp+
  with Inf show ?thesis by (simp add: six_decimals_def)
next
  case (Fin s k)
  define m where "m = rhe (k * 10 ^ 6) one_units"
  have r: "m mod 10 ^ 6 < 10 ^ 6" by simp
  note P = pad_left_6 [OF r]
  have "digits_val (to_string (m div 10 ^ 6) @ pad_left 6 (to_string (m mod 10 ^ 6))) = m div 10 ^ 6 * 10 ^ 6 + m mod 10 ^ 6"
    unfolding digits_val_append P digits_val_to_string ..
  then have d: "digits_val (to_string (m div 10 ^ 6) @ pad_left 6 (to_string (m mod 10 ^ 6))) = m"
    by (simp only: div_mult_mod_eq)
  have "to_string_double p =
      (if s then ''-'' else []) @ to_string (m div 10 ^ 6) @ CHR ''.'' # pad_left 6 (to_string (m mod 10 ^ 6))"
    by (simp add: Fin m_def Let_def)
  then have "stod (to_string_double p) = scaled_double s m 10 (- 6)"
    using stod_signed_point [OF to_string_nonempty to_string_digits P(3), of s "m div 10 ^ 6"] by (simp only: d P(1)) simp
  also have "\<dots> = Inr (mk_double s (m * one_units) (10 ^ 6))"
    by (rule scaled_double_millionths) (use six_decimals_fits [of k] assms Fin in \<open>simp add: m_def\<close>)
  finally show ?thesis by (simp add: Fin six_decimals_def m_def)
qed

lemma six_decimals_whole: "n \<le> 2 ^ 53 \<Longrightarrow> six_decimals (double_of_nat n) = double_of_nat n"
  using stod_six_decimals [OF wf_double_of_nat, of n] stod_to_string_double [of n] by simp

text \<open>
  A price with at most six decimals, rounded to a double, keeps its value on the wire: the
  error of the rounding is too small to change the decimals.
\<close>

lemma six_decimals_keep:
  assumes "c \<le> 2 ^ 51"
  shows "six_decimals (mk_double s (c * one_units) (10 ^ 6)) = mk_double s (c * one_units) (10 ^ 6)"
proof -
  let ?d = "10 ^ 6 :: nat" and ?n = "c * one_units"
  define k where "k = rnd53 ?n ?d"
  define t where "t = bitlen (?n div ?d) - 53"
  define h where "h = rhe ?n (?d * 2 ^ t)"
  have k: "k = h * 2 ^ t" by (simp add: k_def h_def t_def rnd53_def Let_def)
  have c: "?n \<le> 2 ^ 51 * one_units" using assms by (rule mult_le_mono1)
  have "?n div ?d \<le> ?n div 2 ^ 19" by (rule div_le_mono2) simp_all
  also have "\<dots> \<le> 2 ^ 51 * one_units div 2 ^ 19" using c by (rule div_le_mono)
  also have "2 ^ 51 * one_units = 2 ^ 1106 * 2 ^ 19" unfolding one_units_def power_add [symmetric] by simp
  also have "\<dots> div 2 ^ 19 = (2::nat) ^ 1106" by simp
  also have "\<dots> < 2 ^ 1107" by (rule power_strict_increasing) simp_all
  finally have "bitlen (?n div ?d) \<le> 1107" by (simp only: bitlen_le_iff)
  then have "t \<le> 1054 - 0" by (simp add: t_def)
  then have "?d * 2 ^ t \<le> ?d * 2 ^ 1054" by (intro mult_le_mono2 power_increasing) simp_all
  also have "?d * 2 ^ 1054 < 2 ^ 20 * 2 ^ 1054" by (rule mult_strict_right_mono) simp_all
  also have "\<dots> = one_units" unfolding one_units_def power_add [symmetric] by simp
  finally have small: "?d * 2 ^ t < one_units" .
  have kd: "k * ?d = h * (?d * 2 ^ t)" unfolding k by (simp only: ac_simps)
  have pos: "0 < ?d * 2 ^ t" by simp
  note E = rhe_error [OF pos, of ?n, folded h_def]
  have "rhe (k * ?d) one_units = c"
    by (rule rhe_unique) (use E small in \<open>unfold kd; linarith\<close>)+
  moreover have "k < max_units"
  proof -
    have "?n \<le> 2 ^ 51 * one_units * ?d" using c by simp
    then have "k \<le> rnd53 (2 ^ 51 * one_units * ?d) ?d" unfolding k_def by (rule rnd53_mono [rotated]) simp
    also have "\<dots> = 2 ^ 51 * one_units" by (rule rnd53_den_exact) (simp, rule rep53_whole, simp)
    also have "\<dots> < max_units" by (rule whole_lt_max) simp
    finally show ?thesis .
  qed
  ultimately show ?thesis by (simp add: six_decimals_def mk_double_def Let_def k_def [symmetric] del: power_numeral)
qed
lemma to_string_double_no_SOH: "SOH \<notin> set (to_string_double p)"
proof (cases p)
  case (Fin s k)
  define m where "m = rhe (k * 10 ^ 6) one_units"
  have "m mod 10 ^ 6 < 10 ^ 6" by simp
  from pad_left_6(3) [OF this] to_string_digits [of "m div 10 ^ 6"]
  show ?thesis by (auto simp: Fin Let_def simp flip: m_def simp del: power_numeral)
qed auto

end
