(* ===== verification/Order.thy ===== *)
theory Order
  imports CppString
begin

text \<open>
  The data of include/Order.hpp: an order, the result of validating it.
  A steady\_clock time point is its number of nanoseconds.
\<close>

datatype side = BUY | SELL

record order =
  orderId :: u64
  accountId :: u64
  symbol :: string
  side :: side
  qty :: u32
  price :: double
  enqueueTime :: int

record validation_result =
  vr_orderId :: u64
  vr_accountId :: u64
  accepted :: bool
  reason :: string
  latencyMicros :: double

end
