(* ===== verification/AccountStore.thy ===== *)
theory AccountStore
  imports Order
begin

text \<open>
  include/AccountStore.hpp: the balance store.  First the operations as single atomic steps
  (the contract the comments of the class promise), then the compare-and-swap loops as the
  code runs them, any number of threads interleaved, with the proof that every interleaving is
  equivalent to a sequence of the atomic operations.
\<close>

section \<open>State and atomic operations\<close>

record account_store =
  balances :: "u64 \<Rightarrow> double option"

definition empty_store :: account_store where
  "empty_store = \<lparr>balances = Map.empty\<rparr>"

definition setBalance :: "account_store \<Rightarrow> u64 \<Rightarrow> double \<Rightarrow> account_store" where
  "setBalance st a b =
     (case balances st a of
        None \<Rightarrow> st\<lparr>balances := (balances st)(a \<mapsto> b)\<rparr>
      | Some _ \<Rightarrow> st\<lparr>balances := (balances st)(a \<mapsto> b)\<rparr>)"

definition getBalance :: "account_store \<Rightarrow> u64 \<Rightarrow> double" where
  "getBalance st a = (case balances st a of None \<Rightarrow> dzero | Some b \<Rightarrow> b)"

definition tryDebit :: "account_store \<Rightarrow> u64 \<Rightarrow> double \<Rightarrow> account_store \<times> bool" where
  "tryDebit st a amount =
     (case balances st a of
        None \<Rightarrow> (st, False)
      | Some cur \<Rightarrow>
          if dless cur amount then (st, False)
          else (st\<lparr>balances := (balances st)(a \<mapsto> dsub cur amount)\<rparr>, True))"

definition credit :: "account_store \<Rightarrow> u64 \<Rightarrow> double \<Rightarrow> account_store" where
  "credit st a amount =
     (case balances st a of
        None \<Rightarrow> st\<lparr>balances := (balances st)(a \<mapsto> amount)\<rparr>
      | Some cur \<Rightarrow> st\<lparr>balances := (balances st)(a \<mapsto> dadd cur amount)\<rparr>)"

section \<open>The compare-and-swap loops\<close>

text \<open>
  A thread inside the store.  \<open>DebitCas a amount cur\<close> is the loop of tryDebit after the check
  \<open>cur < amount\<close> was false, about to run compare\_exchange\_weak; \<open>CreditCas a amount cur\<close>
  the loop of credit.  \<open>Returned call r\<close> holds the value the call returns (True where the
  return type is void).
\<close>

datatype call = TryDebit u64 double | Credit u64 double | SetBalance u64 double

datatype pc = Idle | DebitCas u64 double double | CreditCas u64 double double | Returned call bool

definition debit_check :: "u64 \<Rightarrow> double \<Rightarrow> double \<Rightarrow> pc" where
  "debit_check a amount cur =
     (if dless cur amount then Returned (TryDebit a amount) False else DebitCas a amount cur)"

text \<open>The call up to and including its first atomic access: find, then load (or store).\<close>

fun call_begin :: "account_store \<Rightarrow> call \<Rightarrow> account_store \<times> pc" where
  "call_begin st (TryDebit a amount) =
     (case balances st a of
        None \<Rightarrow> (st, Returned (TryDebit a amount) False)
      | Some cur \<Rightarrow> (st, debit_check a amount cur))"
| "call_begin st (Credit a amount) =
     (case balances st a of
        None \<Rightarrow> (st\<lparr>balances := (balances st)(a \<mapsto> amount)\<rparr>, Returned (Credit a amount) True)
      | Some cur \<Rightarrow> (st, CreditCas a amount cur))"
| "call_begin st (SetBalance a b) = (setBalance st a b, Returned (SetBalance a b) True)"

text \<open>
  One compare\_exchange\_weak.  It may fail although the values agree (\<open>spurious\<close>); when it
  fails, the loop goes on with the value it found.
\<close>

fun call_cas :: "account_store \<Rightarrow> bool \<Rightarrow> pc \<Rightarrow> account_store \<times> pc" where
  "call_cas st spurious (DebitCas a amount cur) =
     (case balances st a of
        None \<Rightarrow> (st, DebitCas a amount cur)
      | Some b \<Rightarrow>
          if b = cur \<and> \<not> spurious
          then (st\<lparr>balances := (balances st)(a \<mapsto> dsub cur amount)\<rparr>, Returned (TryDebit a amount) True)
          else (st, debit_check a amount b))"
| "call_cas st spurious (CreditCas a amount cur) =
     (case balances st a of
        None \<Rightarrow> (st, CreditCas a amount cur)
      | Some b \<Rightarrow>
          if b = cur \<and> \<not> spurious
          then (st\<lparr>balances := (balances st)(a \<mapsto> dadd cur amount)\<rparr>, Returned (Credit a amount) True)
          else (st, CreditCas a amount b))"
| "call_cas st spurious p = (st, p)"

text \<open>
  The store and its threads.  \<open>hist\<close> records, for the proofs only, each call with its result at
  the atomic step that decided it.
\<close>

record conc =
  store :: account_store
  pcs :: "nat \<Rightarrow> pc"
  hist :: "(nat \<times> call \<times> bool) list"

fun decided :: "nat \<Rightarrow> pc \<Rightarrow> (nat \<times> call \<times> bool) list" where
  "decided t (Returned c r) = [(t, c, r)]"
| "decided t p = []"

definition conc_update :: "conc \<Rightarrow> nat \<Rightarrow> account_store \<times> pc \<Rightarrow> conc" where
  "conc_update s t r =
     \<lparr>store = fst r, pcs = (pcs s)(t := snd r), hist = hist s @ decided t (snd r)\<rparr>"

text \<open>
  One step of one thread.  The class requires every account to be registered before threads
  share the store, hence the guard of a concurrent credit or setBalance.
\<close>

fun registered :: "account_store \<Rightarrow> call \<Rightarrow> bool" where
  "registered st (TryDebit a amount) = True"
| "registered st (Credit a amount) = (balances st a \<noteq> None)"
| "registered st (SetBalance a b) = (balances st a \<noteq> None)"

inductive store_step :: "conc \<Rightarrow> conc \<Rightarrow> bool" where
  invoke: "pcs s t = Idle \<Longrightarrow> registered (store s) c \<Longrightarrow>
     store_step s (conc_update s t (call_begin (store s) c))"
| cas: "pcs s t = DebitCas a x cur \<or> pcs s t = CreditCas a x cur \<Longrightarrow>
     store_step s (conc_update s t (call_cas (store s) spurious (pcs s t)))"
| return: "pcs s t = Returned c r \<Longrightarrow> store_step s (s\<lparr>pcs := (pcs s)(t := Idle)\<rparr>)"

definition conc_start :: "account_store \<Rightarrow> conc" where
  "conc_start st = \<lparr>store = st, pcs = (\<lambda>_. Idle), hist = []\<rparr>"

section \<open>The atomic specification of a run\<close>

fun apply_call :: "account_store \<Rightarrow> call \<Rightarrow> account_store \<times> bool" where
  "apply_call st (TryDebit a amount) = tryDebit st a amount"
| "apply_call st (Credit a amount) = (credit st a amount, True)"
| "apply_call st (SetBalance a b) = (setBalance st a b, True)"

text \<open>Running a history call by call; None when a recorded result is not the atomic one.\<close>

fun run_hist :: "account_store \<Rightarrow> (nat \<times> call \<times> bool) list \<Rightarrow> account_store option" where
  "run_hist st [] = Some st"
| "run_hist st ((t, c, r) # h) =
     (if snd (apply_call st c) = r then run_hist (fst (apply_call st c)) h else None)"

lemma run_hist_append:
  "run_hist st (h1 @ h2) = Option.bind (run_hist st h1) (\<lambda>st'. run_hist st' h2)"
  by (induction st h1 rule: run_hist.induct) auto

section \<open>Every interleaving is linearizable\<close>

text \<open>A thread that is about to run its CAS on a debit has checked the value it compares with.\<close>

fun pc_ok :: "pc \<Rightarrow> bool" where
  "pc_ok (DebitCas a amount cur) = (\<not> dless cur amount)"
| "pc_ok p = True"

text \<open>
  A returned call is the last entry of its thread in the history.
\<close>

definition last_entry :: "(nat \<times> call \<times> bool) list \<Rightarrow> nat \<Rightarrow> (call \<times> bool) option" where
  "last_entry h t = map_of (rev h) t"

fun returned_ok :: "(nat \<times> call \<times> bool) list \<Rightarrow> nat \<Rightarrow> pc \<Rightarrow> bool" where
  "returned_ok h t (Returned c r) = (last_entry h t = Some (c, r))"
| "returned_ok h t p = True"

lemma last_entry_append [simp]:
  "last_entry (h1 @ h2) t = (case last_entry h2 t of None \<Rightarrow> last_entry h1 t | Some e \<Rightarrow> Some e)"
  by (auto simp: last_entry_def map_add_def split: option.splits)

lemma returned_ok_frame:
  "t' \<noteq> t \<Longrightarrow> returned_ok h t' p \<Longrightarrow> returned_ok (h @ decided t q) t' p"
  by (cases p; cases q) (auto simp: last_entry_def)

lemma returned_ok_decided: "returned_ok (h @ decided t p) t p"
  by (cases p) (auto simp: last_entry_def)

definition linear_inv :: "account_store \<Rightarrow> conc \<Rightarrow> bool" where
  "linear_inv st0 s \<longleftrightarrow>
     run_hist st0 (hist s) = Some (store s) \<and>
     (\<forall>t. pc_ok (pcs s t) \<and> returned_ok (hist s) t (pcs s t))"

text \<open>Each atomic access either decides the call, with the atomic effect, or changes nothing.\<close>

lemma call_begin_atomic:
  assumes "call_begin st c = (st', p)"
  shows "run_hist st (decided t p) = Some st' \<and> pc_ok p"
  using assms
  by (cases c)
    (auto simp: debit_check_def tryDebit_def credit_def split: option.splits if_splits)

lemma call_cas_atomic:
  assumes "call_cas st spurious p = (st', p')" and "pc_ok p" and "\<forall>c r. p \<noteq> Returned c r"
  shows "run_hist st (decided t p') = Some st' \<and> pc_ok p'"
  using assms
  by (cases "(st, spurious, p)" rule: call_cas.cases)
    (auto simp: debit_check_def tryDebit_def credit_def split: option.splits if_splits)

lemma linear_inv_update:
  assumes "linear_inv st0 s" and "run_hist (store s) (decided t (snd r)) = Some (fst r)"
    and "pc_ok (snd r)"
  shows "linear_inv st0 (conc_update s t r)"
  using assms
  by (auto simp: linear_inv_def conc_update_def run_hist_append returned_ok_decided
      intro: returned_ok_frame)

lemma linear_inv_step: "linear_inv st0 s \<Longrightarrow> store_step s s' \<Longrightarrow> linear_inv st0 s'"
proof (erule store_step.cases)
  fix s0 t c assume "linear_inv st0 s" and "s = s0" and "s' = conc_update s0 t (call_begin (store s0) c)"
  then show ?thesis
    using call_begin_atomic [of "store s0" c _ _ t]
    by (metis linear_inv_update prod.collapse)
next
  fix s0 t a x cur spurious
  assume inv: "linear_inv st0 s" and s: "s = s0"
    and s': "s' = conc_update s0 t (call_cas (store s0) spurious (pcs s0 t))"
    and pc: "pcs s0 t = DebitCas a x cur \<or> pcs s0 t = CreditCas a x cur"
  from inv s have "pc_ok (pcs s0 t)" by (simp add: linear_inv_def)
  with pc show ?thesis
    using call_cas_atomic [of "store s0" spurious "pcs s0 t" _ _ t] inv s s'
    by (metis linear_inv_update pc.distinct(11,9) prod.collapse)
next
  fix s0 t c r assume "linear_inv st0 s" and "s = s0" and "s' = s0\<lparr>pcs := (pcs s0)(t := Idle)\<rparr>"
  then show ?thesis by (simp add: linear_inv_def)
qed

interpretation linear: invariant_system "\<lambda>s. s = conc_start st0" store_step "linear_inv st0"
  for st0
  by unfold_locales (simp add: linear_inv_def conc_start_def, rule linear_inv_step)

text \<open>
  The race the class exists for, as a concrete run: one account with 10000, two threads that
  each debit 6000.  Both load the balance and pass the check before either swaps; the second
  swap finds a changed balance, checks again and refuses.
\<close>

definition race_store :: account_store where
  "race_store = setBalance empty_store 1 (double_of_nat 10000)"

definition race_call :: call where
  "race_call = TryDebit 1 (double_of_nat 6000)"

definition race_1 :: conc where
  "race_1 = conc_update (conc_start race_store) 0 (call_begin race_store race_call)"

definition race_2 :: conc where
  "race_2 = conc_update race_1 1 (call_begin (store race_1) race_call)"

definition race_3 :: conc where
  "race_3 = conc_update race_2 0 (call_cas (store race_2) False (pcs race_2 0))"

definition race_4 :: conc where
  "race_4 = conc_update race_3 1 (call_cas (store race_3) False (pcs race_3 1))"

lemmas race_defs = race_store_def empty_store_def setBalance_def race_call_def race_1_def
  race_2_def race_3_def race_4_def conc_update_def conc_start_def debit_check_def

lemma race_pcs:
  "pcs race_2 0 = DebitCas 1 (double_of_nat 6000) (double_of_nat 10000)"
  "pcs race_3 1 = DebitCas 1 (double_of_nat 6000) (double_of_nat 10000)"
  by (simp_all add: race_defs dbl_simps)

lemma race_hist: "hist race_4 = [(0, race_call, True), (1, race_call, False)]"
  by (simp add: race_defs dbl_simps) (simp add: double_of_nat_whole)

lemma race_balance: "balances (store race_4) 1 = Some (double_of_nat 4000)"
  by (simp add: race_defs dbl_simps)

lemma race_reachable: "store_step\<^sup>*\<^sup>* (conc_start race_store) race_4"
proof -
  have "store_step (conc_start race_store) race_1"
    using store_step.invoke [of "conc_start race_store" 0 race_call]
    by (simp add: race_1_def race_call_def conc_start_def)
  moreover have "store_step race_1 race_2"
    using store_step.invoke [of race_1 1 race_call]
    by (simp add: race_2_def race_call_def race_1_def conc_update_def conc_start_def)
  moreover have "store_step race_2 race_3"
    using store_step.cas [of race_2 0 _ _ _ False] race_pcs(1) by (simp add: race_3_def)
  moreover have "store_step race_3 race_4"
    using store_step.cas [of race_3 1 _ _ _ False] race_pcs(2) by (simp add: race_4_def)
  ultimately show ?thesis
    by (meson converse_rtranclp_into_rtranclp rtranclp.rtrancl_refl)
qed

text \<open>
  C1. Linearizability of the lock-free store.  However the compare-and-swap loops of any
  number of threads interleave, and however often compare\_exchange\_weak fails spuriously,
  the calls decided so far, each with the result it returns, form a sequential history of the
  atomic operations that ends in the present balances; and a thread that is returning holds the
  result of its own last call in that history.
\<close>

theorem store_linearizable:
  assumes "store_step\<^sup>*\<^sup>* (conc_start st) s"
  shows "run_hist st (hist s) = Some (store s) \<and>
    (\<forall>t c r. pcs s t = Returned c r \<longrightarrow> last_entry (hist s) t = Some (c, r))"
proof -
  from assms have "linear_inv st s" by (rule linear.reachable_inv [OF refl])
  then show ?thesis by (auto simp: linear_inv_def) (metis returned_ok.simps(1))
qed

theorem store_linearizable_witness:
  "run_hist race_store [(0, race_call, True), (1, race_call, False)] = Some (store race_4) \<and>
   pcs race_4 1 = Returned race_call False"
proof -
  have "pcs race_4 1 = Returned race_call False"
    by (simp add: race_defs dbl_simps) (simp add: double_of_nat_whole)
  then show ?thesis using store_linearizable [OF race_reachable] race_hist by simp
qed

section \<open>Balances stay sound\<close>

fun sound_call :: "call \<Rightarrow> bool" where
  "sound_call (TryDebit a x) = sound_amount x"
| "sound_call (SetBalance a b) = sound_balance b"
| "sound_call (Credit a x) = False"

definition sound_store :: "account_store \<Rightarrow> bool" where
  "sound_store st \<longleftrightarrow> (\<forall>a b. balances st a = Some b \<longrightarrow> sound_balance b)"

lemma sound_store_tryDebit: "sound_store st \<Longrightarrow> sound_amount x \<Longrightarrow> sound_store (fst (tryDebit st a x))"
  by (auto simp: sound_store_def tryDebit_def dsub_sound split: option.splits)

lemma sound_store_setBalance: "sound_store st \<Longrightarrow> sound_balance b \<Longrightarrow> sound_store (setBalance st a b)"
  by (auto simp: sound_store_def setBalance_def split: option.splits if_splits)

lemma sound_store_apply: "sound_store st \<Longrightarrow> sound_call c \<Longrightarrow> sound_store (fst (apply_call st c))"
  by (cases c) (auto simp: sound_store_tryDebit sound_store_setBalance)

lemma run_hist_sound:
  "run_hist st h = Some st' \<Longrightarrow> sound_store st \<Longrightarrow> \<forall>(t, c, r)\<in>set h. sound_call c \<Longrightarrow> sound_store st'"
  by (induction st h rule: run_hist.induct) (auto split: if_splits dest: sound_store_apply)

section \<open>Exact accounting\<close>

text \<open>
  Money on a grid: amounts that are multiples of \<open>2 ^ g\<close> units, at most \<open>2 ^ 53\<close> of them
  (whole dollars: g = 1074).  On a grid the subtraction of doubles does not round.
\<close>

fun on_grid :: "nat \<Rightarrow> double \<Rightarrow> bool" where
  "on_grid g (Fin s k) = (\<not> s \<and> k mod 2 ^ g = 0 \<and> k \<le> 2 ^ (53 + g) \<and> k < max_units)"
| "on_grid g d = False"

lemma on_grid_whole: "n \<le> 2 ^ 53 \<Longrightarrow> on_grid 1074 (double_of_nat n)"
proof -
  assume n: "n \<le> 2 ^ 53"
  have "n * 2 ^ 1074 \<le> 2 ^ 53 * 2 ^ 1074" by (rule mult_le_mono1 [OF n])
  also have "\<dots> = 2 ^ (53 + 1074)" by (simp only: power_add)
  finally have "n * one_units \<le> 2 ^ (53 + 1074)" by (simp only: one_units_def)
  moreover have "n * one_units mod 2 ^ 1074 = 0" by (simp add: one_units_def del: power_numeral)
  ultimately show ?thesis
    using whole_lt_max [OF n] unfolding double_of_nat_whole [OF n] on_grid.simps by blast
qed

lemma on_grid_rep: "k mod 2 ^ g = 0 \<Longrightarrow> k \<le> 2 ^ (53 + g) \<Longrightarrow> rep53 k"
proof -
  assume "k mod 2 ^ g = 0" and le: "k \<le> 2 ^ (53 + g)"
  then obtain m where k: "k = m * 2 ^ g" by (metis dvd_def mod_0_imp_dvd mult.commute)
  with le have "m \<le> 2 ^ 53" by (simp add: power_add)
  with k show ?thesis by (simp add: rep53_mult_pow)
qed

lemma dsub_grid:
  assumes "on_grid g b" and "on_grid g x" and "\<not> dless b x"
  shows "on_grid g (dsub b x) \<and> units (dsub b x) = units b - units x"
proof -
  obtain k l where b: "b = Fin False k" and x: "x = Fin False l"
    and k: "k mod 2 ^ g = 0" "k \<le> 2 ^ (53 + g)" "k < max_units" and l: "l mod 2 ^ g = 0"
    using assms(1,2) by (cases b; cases x) auto
  have lk: "l \<le> k" using assms(3) b x by simp
  have m: "(k - l) mod 2 ^ g = 0" using k(1) l by (metis dvd_diff_nat mod_0_imp_dvd dvd_imp_mod_0)
  have "rnd53 (k - l) 1 = k - l"
    by (rule rnd53_exact, rule on_grid_rep [of _ g]) (use m k in auto)
  moreover have "units (Fin False k) + units (Fin True l) = int (k - l)" using lk by simp
  from dadd_fin [OF this] have
    "dsub b x = (if k - l = 0 then Fin False 0 else mk_double False (k - l) 1)"
    by (simp add: dsub_def b x)
  ultimately have "dsub b x = Fin False (k - l)" using k by (auto simp: mk_double_def Let_def)
  then show ?thesis using lk m k b x by auto
qed

text \<open>What the accepted debits of an account add up to.\<close>

fun debited :: "u64 \<Rightarrow> (nat \<times> call \<times> bool) list \<Rightarrow> int" where
  "debited a [] = 0"
| "debited a ((t, c, r) # h) =
     (case c of
        TryDebit b x \<Rightarrow> (if b = a \<and> r then units x else 0)
      | _ \<Rightarrow> 0) + debited a h"

fun grid_debit :: "nat \<Rightarrow> call \<Rightarrow> bool" where
  "grid_debit g (TryDebit a x) = on_grid g x"
| "grid_debit g c = False"

lemma on_grid_units_nonneg: "on_grid g d \<Longrightarrow> 0 \<le> units d"
  by (cases d) auto

lemma run_hist_exact:
  assumes "run_hist st h = Some st'" and "\<forall>(t, c, r)\<in>set h. grid_debit g c"
    and "balances st a = Some b" and "on_grid g b"
  shows "\<exists>b'. balances st' a = Some b' \<and> on_grid g b' \<and> units b' = units b - debited a h"
  using assms
proof (induction st h arbitrary: b rule: run_hist.induct)
  case (2 st t c r h)
  from "2.prems"(2) obtain a' x where c: "c = TryDebit a' x" and x: "on_grid g x"
    by (cases c) auto
  let ?st = "fst (apply_call st c)"
  from "2.prems"(1) have r: "snd (apply_call st c) = r" and run: "run_hist ?st h = Some st'"
    by (auto split: if_splits)
  have "\<exists>b1. balances ?st a = Some b1 \<and> on_grid g b1 \<and>
      units b1 = units b - (if a' = a \<and> r then units x else 0)"
    using c x r "2.prems"(3,4) dsub_grid [of g b x]
    by (cases "a' = a") (auto simp: tryDebit_def split: option.splits if_splits)
  then obtain b1 where b1: "balances ?st a = Some b1" "on_grid g b1"
    "units b1 = units b - (if a' = a \<and> r then units x else 0)" by blast
  from "2.IH" [OF r run _ b1(1,2)] "2.prems"(2) show ?case using b1(3) c by auto
qed simp

section \<open>Safety of every interleaving\<close>

lemma hist_of_reachable:
  "store_step\<^sup>*\<^sup>* (conc_start st) s \<Longrightarrow> run_hist st (hist s) = Some (store s)"
  using linear.reachable_inv [OF refl] by (simp add: linear_inv_def)

text \<open>
  C13. No interleaving of debits makes a balance negative: if the store starts with
  finite non-negative balances and every amount is a number (not NaN) that is not negative,
  every balance stays a finite non-negative number, rounding included.
\<close>

theorem store_never_negative:
  assumes "store_step\<^sup>*\<^sup>* (conc_start st) s" and "sound_store st"
    and "\<forall>(t, c, r)\<in>set (hist s). sound_call c"
  shows "sound_store (store s)"
  using run_hist_sound [OF hist_of_reachable [OF assms(1)] assms(2,3)] .

lemma race_store_sound: "sound_store race_store"
  using sound_balance_whole [of 10000] by (simp add: sound_store_def race_defs)

theorem store_never_negative_witness: "sound_store (store race_4)"
  by (rule store_never_negative [OF race_reachable race_store_sound])
    (simp add: race_hist race_call_def sound_amount_of_nat)

text \<open>
  C14. No overspending, when nothing has to be rounded: if there are debits only, and the balance and
  all amounts lie on one binary grid (whole dollars up to two to the power of 53, for example), then
  in every interleaving the balance of an account is exactly its start balance less the accepted
  debits, so their sum never exceeds the start balance.  For amounts off such a grid the subtraction
  rounds, and this exactness is not claimed; what is left then is C13.
\<close>

theorem store_no_overspend:
  assumes "store_step\<^sup>*\<^sup>* (conc_start st) s" and "\<forall>(t, c, r)\<in>set (hist s). grid_debit g c"
    and "balances st a = Some b" and "on_grid g b"
  shows "\<exists>b'. balances (store s) a = Some b' \<and> units b' = units b - debited a (hist s) \<and>
    debited a (hist s) \<le> units b"
proof -
  obtain b' where "balances (store s) a = Some b'" "on_grid g b'"
    "units b' = units b - debited a (hist s)"
    using run_hist_exact [OF hist_of_reachable [OF assms(1)] assms(2-4)] by blast
  then show ?thesis using on_grid_units_nonneg [of g b'] by auto
qed

theorem store_no_overspend_witness:
  "\<exists>b'. balances (store race_4) 1 = Some b' \<and>
    units b' = units (double_of_nat 10000) - units (double_of_nat 6000) \<and>
    units (double_of_nat 6000) \<le> units (double_of_nat 10000)"
  using store_no_overspend [OF race_reachable, of 1074 1 "double_of_nat 10000"]
    on_grid_whole [of 6000] on_grid_whole [of 10000]
  by (simp add: race_hist race_call_def) (simp add: race_defs)

section \<open>Progress\<close>

text \<open>
  A thread that runs alone, its compare-and-swap not failing spuriously: the call and at most
  two CAS attempts.
\<close>

definition solo_debit :: "account_store \<Rightarrow> u64 \<Rightarrow> double \<Rightarrow> account_store \<times> pc" where
  "solo_debit st a x = (let (st1, p1) = call_begin st (TryDebit a x) in call_cas st1 False p1)"

lemma solo_debit_atomic:
  "solo_debit st a x = (fst (tryDebit st a x), Returned (TryDebit a x) (snd (tryDebit st a x)))"
  by (auto simp: solo_debit_def tryDebit_def debit_check_def split: option.splits)

text \<open>
  The loop of tryDebit ends: from the call, and from any state of its loop with any stale
  value in its hand, a thread that runs two compare-and-swaps undisturbed has returned, with
  the result and the effect of the atomic operation on the balances it met.
\<close>

lemma tryDebit_loop_returns:
  assumes "balances st a = Some b" and "\<not> dless cur x"
  shows "solo_debit st a x
      = (fst (tryDebit st a x), Returned (TryDebit a x) (snd (tryDebit st a x))) \<and>
    (case call_cas st False (DebitCas a x cur) of (st1, p1) \<Rightarrow> call_cas st1 False p1)
      = (fst (tryDebit st a x), Returned (TryDebit a x) (snd (tryDebit st a x)))"
  using assms by (simp add: solo_debit_atomic) (auto simp: tryDebit_def debit_check_def)

lemma tryDebit_loop_returns_witness:
  "(case call_cas race_store False (DebitCas 1 (double_of_nat 6000) (double_of_nat 20000)) of
      (st1, p1) \<Rightarrow> call_cas st1 False p1)
   = (fst (tryDebit race_store 1 (double_of_nat 6000)), Returned (TryDebit 1 (double_of_nat 6000)) True)"
  using tryDebit_loop_returns
    [of race_store 1 "double_of_nat 10000" "double_of_nat 20000" "double_of_nat 6000"]
  by (simp add: race_defs dbl_simps tryDebit_def)

section \<open>Where doubles are not money\<close>

text \<open>
  A NaN amount defeats the check: the comparison \<open>cur < NaN\<close> is false, so the debit is
  granted whatever the balance, the balance becomes NaN, and from then on every debit of that
  account is granted.
\<close>

lemma tryDebit_NaN_poisons:
  assumes "balances st a = Some b"
  shows "snd (tryDebit st a NaN) \<and> snd (tryDebit (fst (tryDebit st a NaN)) a x)"
  using assms by (simp add: tryDebit_def)

theorem tryDebit_NaN_poisons_witness:
  "snd (tryDebit race_store 1 NaN) \<and>
   snd (tryDebit (fst (tryDebit race_store 1 NaN)) 1 (double_of_nat 1000000))"
  using tryDebit_NaN_poisons [of race_store 1 "double_of_nat 10000" "double_of_nat 1000000"]
  by (simp add: race_defs)

section \<open>The interface the validator relies on\<close>

text \<open>
  A store with an atomic debit: a debit changes its own account only, and its result and its
  effect depend on that account only.
\<close>

locale debit_store =
  fixes debit :: "'s \<Rightarrow> 'k \<Rightarrow> 'a \<Rightarrow> 's \<times> bool"
    and bal :: "'s \<Rightarrow> 'k \<Rightarrow> 'b option"
  assumes debit_frame: "k' \<noteq> k \<Longrightarrow> bal (fst (debit s k x)) k' = bal s k'"
    and debit_result: "bal s k = bal s' k \<Longrightarrow> snd (debit s k x) = snd (debit s' k x)"
    and debit_effect:
      "bal s k = bal s' k \<Longrightarrow> bal (fst (debit s k x)) k = bal (fst (debit s' k x)) k"
begin

lemma debit_other_result: "k' \<noteq> k \<Longrightarrow> snd (debit (fst (debit s k x)) k' y) = snd (debit s k' y)"
  by (rule debit_result) (simp add: debit_frame)

lemma debits_commute_bal:
  assumes "k \<noteq> k'"
  shows "bal (fst (debit (fst (debit s k x)) k' y)) i = bal (fst (debit (fst (debit s k' y)) k x)) i"
proof -
  consider "i = k" | "i = k'" | "i \<noteq> k" "i \<noteq> k'" by blast
  then show ?thesis
  proof cases
    case 1
    with assms have "bal (fst (debit (fst (debit s k x)) k' y)) i = bal (fst (debit s k x)) k"
      by (simp add: debit_frame)
    also have "\<dots> = bal (fst (debit (fst (debit s k' y)) k x)) k"
      by (rule debit_effect) (simp add: debit_frame assms)
    finally show ?thesis using 1 by simp
  next
    case 2
    with assms have "bal (fst (debit (fst (debit s k' y)) k x)) i = bal (fst (debit s k' y)) k'"
      by (simp add: debit_frame)
    also have "\<dots> = bal (fst (debit (fst (debit s k x)) k' y)) k'"
      by (rule debit_effect) (use assms in \<open>simp add: debit_frame\<close>)
    finally show ?thesis using 2 by simp
  next
    case 3
    then show ?thesis by (simp add: debit_frame)
  qed
qed

end

interpretation acct: debit_store tryDebit balances
  by unfold_locales (auto simp: tryDebit_def split: option.splits if_splits)

end
