(* ===== verification/RiskValidator.thy ===== *)
theory RiskValidator
  imports AccountStore
begin

text \<open>
  include/RiskValidator.hpp: the validation of one order against the store, and of a sequence
  of orders.  The store is passed explicitly; the clock reading at the end of validate is an
  argument.
\<close>

section \<open>validate\<close>

definition allowedSymbols :: "string list" where
  "allowedSymbols = [''BTC-USD'', ''ETH-USD'', ''SOL-USD'']"

text \<open>\<open>duration_cast<duration<double, std::micro>>(now - enqueueTime).count()\<close>\<close>

definition latency :: "int \<Rightarrow> int \<Rightarrow> double" where
  "latency enq now = ddiv (double_of_int (now - enq)) (double_of_nat 1000)"

definition order_cost :: "order \<Rightarrow> double" where
  "order_cost ord = dmul (double_of_nat (unat (qty ord))) (price ord)"

text \<open>The branches: new store, accepted, reason.\<close>

definition decide :: "account_store \<Rightarrow> order \<Rightarrow> account_store \<times> bool \<times> string" where
  "decide st ord =
     (if qty ord = 0 then (st, False, ''zero_quantity'')
      else if dle (price ord) dzero then (st, False, ''invalid_price'')
      else if symbol ord \<notin> set allowedSymbols then (st, False, ''unknown_symbol'')
      else if side ord = BUY then
        (case tryDebit st (accountId ord) (order_cost ord) of
           (st', ok) \<Rightarrow> if ok then (st', True, []) else (st', False, ''insufficient_balance''))
      else (st, True, []))"

definition validate :: "account_store \<Rightarrow> order \<Rightarrow> int \<Rightarrow> account_store \<times> validation_result" where
  "validate st ord now =
     (case decide st ord of
        (st', acc, why) \<Rightarrow>
          (st', \<lparr>vr_orderId = orderId ord, vr_accountId = accountId ord, accepted = acc,
                 reason = why, latencyMicros = latency (enqueueTime ord) now\<rparr>))"

text \<open>The orders validated one after the other, each with its clock reading.\<close>

fun validate_all :: "account_store \<Rightarrow> (order \<times> int) list \<Rightarrow> account_store \<times> validation_result list"
  where
  "validate_all st [] = (st, [])"
| "validate_all st ((ord, now) # os) =
     (let (st1, r) = validate st ord now; (st2, rs) = validate_all st1 os in (st2, r # rs))"

section \<open>Shared facts\<close>

text \<open>The checks that do not look at the store.\<close>

definition static_ok :: "order \<Rightarrow> bool" where
  "static_ok ord \<longleftrightarrow> qty ord \<noteq> 0 \<and> \<not> dle (price ord) dzero \<and> symbol ord \<in> set allowedSymbols"

lemma decide_store:
  "fst (decide st ord) =
     (if static_ok ord \<and> side ord = BUY then fst (tryDebit st (accountId ord) (order_cost ord)) else st)"
  by (auto simp: decide_def static_ok_def split: prod.splits)

lemma decide_accepted:
  "fst (snd (decide st ord)) \<longleftrightarrow>
     static_ok ord \<and> (side ord = BUY \<longrightarrow> snd (tryDebit st (accountId ord) (order_cost ord)))"
  by (auto simp: decide_def static_ok_def split: prod.splits intro: side.exhaust)

lemma validate_fields:
  "fst (validate st ord now) = fst (decide st ord)"
  "accepted (snd (validate st ord now)) = fst (snd (decide st ord))"
  "vr_orderId (snd (validate st ord now)) = orderId ord"
  "vr_accountId (snd (validate st ord now)) = accountId ord"
  "reason (snd (validate st ord now)) = snd (snd (decide st ord))"
  by (simp_all add: validate_def split: prod.splits)

lemma side_not_BUY: "s \<noteq> BUY \<longleftrightarrow> s = SELL"
  by (cases s) auto

lemma not_dle_zero_sound: "wf_double p \<Longrightarrow> p \<noteq> NaN \<Longrightarrow> \<not> dle p dzero \<Longrightarrow> sound_amount p"
  by (cases p) (auto simp: sound_amount_def dzero_def split: if_splits)

lemma double_of_u32: "double_of_nat (unat (q :: u32)) = Fin False (unat q * one_units)"
proof (rule double_of_nat_whole)
  have "unat q < 2 ^ 32" using unsigned_less [of q] by simp
  then show "unat q \<le> 2 ^ 53" by simp
qed

lemma order_cost_sound:
  assumes "static_ok ord" and "wf_double (price ord)" and "price ord \<noteq> NaN"
  shows "sound_amount (order_cost ord)"
  unfolding order_cost_def
proof (rule dmul_sound)
  show "sound_amount (price ord)" and "\<not> dle (price ord) dzero"
    using assms by (auto simp: static_ok_def intro: not_dle_zero_sound)
  show "is_fin (double_of_nat (unat (qty ord)))" by (simp add: double_of_u32)
  show "\<not> dle (double_of_nat (unat (qty ord))) dzero"
    using assms(1) unat_gt_0 [of "qty ord"]
    by (simp only: double_of_u32) (simp add: dzero_def static_ok_def mult_le_0_iff uint_0_iff not_le)
qed (rule sound_amount_of_nat)

section \<open>Correctness\<close>

text \<open>
  C27. The decision table of validate.  An order is accepted exactly when its quantity is not
  zero, its price is not at most zero, its symbol is on the whitelist and, for a BUY, its
  account exists and holds at least the cost; the reason names the first check that fails, in
  the order of the code, and is empty on acceptance.
\<close>

theorem validate_decision:
  "(accepted (snd (validate st ord now)) \<longleftrightarrow>
     qty ord \<noteq> 0 \<and> \<not> dle (price ord) dzero \<and> symbol ord \<in> set allowedSymbols \<and>
     (side ord = SELL \<or>
      (\<exists>b. balances st (accountId ord) = Some b \<and> \<not> dless b (order_cost ord)))) \<and>
   reason (snd (validate st ord now)) =
     (if qty ord = 0 then ''zero_quantity''
      else if dle (price ord) dzero then ''invalid_price''
      else if symbol ord \<notin> set allowedSymbols then ''unknown_symbol''
      else if side ord = BUY \<and>
        \<not> (\<exists>b. balances st (accountId ord) = Some b \<and> \<not> dless b (order_cost ord))
      then ''insufficient_balance'' else [])"
  by (auto simp: validate_fields decide_accepted static_ok_def tryDebit_def side_not_BUY
      decide_def split: option.splits)

text \<open>
  C28. The only effect of validate on the store is the debit of an accepted BUY: the account
  of the order loses the cost, every other account keeps its balance; a rejected order and
  a SELL change nothing.
\<close>

theorem validate_effect:
  "balances (fst (validate st ord now)) a =
     (if a = accountId ord \<and> side ord = BUY \<and> accepted (snd (validate st ord now))
      then map_option (\<lambda>b. dsub b (order_cost ord)) (balances st a)
      else balances st a)"
  by (auto simp: validate_fields decide_accepted decide_store tryDebit_def split: option.splits)

lemma sound_store_validate:
  assumes "sound_store st" and "wf_double (price ord)" and "price ord \<noteq> NaN"
  shows "sound_store (fst (validate st ord now))"
  using assms by (auto simp: validate_fields decide_store sound_store_tryDebit order_cost_sound)

text \<open>
  Validating any sequence of orders whose prices are numbers (not NaN) keeps every balance
  finite and non-negative.
\<close>

lemma validate_all_never_negative:
  assumes "sound_store st"
    and "\<forall>(ord, now)\<in>set os. wf_double (price ord) \<and> price ord \<noteq> NaN"
  shows "sound_store (fst (validate_all st os))"
  using assms
  by (induction st os rule: validate_all.induct)
    (auto simp: Let_def split: prod.splits dest: sound_store_validate, metis fst_conv sound_store_validate)

definition race_order :: "u64 \<Rightarrow> order" where
  "race_order i = \<lparr>orderId = i, accountId = 1, symbol = ''BTC-USD'', side = BUY, qty = 1,
     price = double_of_nat 6000, enqueueTime = 0\<rparr>"

lemma validate_all_never_negative_witness:
  "sound_store (fst (validate_all race_store [(race_order 1, 5), (race_order 2, 9)]))"
  by (rule validate_all_never_negative [OF race_store_sound])
    (simp add: race_order_def wf_double_of_nat, simp add: double_of_nat_whole)

end
