(* ===== verification/FixParser.thy ===== *)
theory FixParser
  imports Order
begin

text \<open>
  include/FixParser.hpp: framing of FIX messages by BodyLength, splitting a message into
  fields, the checksum, parsing a NewOrderSingle into an order, building messages; and the
  message builder of src/test\_client.cpp.  Sizes are 64-bit words where the code computes with
  them.  The counter \<open>nextOrderId_\<close> is passed explicitly.
\<close>

section \<open>Definitions\<close>

text \<open>The buffer is passed and returned; None leaves it as it was.\<close>

definition tryExtractMessage :: "string \<Rightarrow> string option \<times> string" where
  "tryExtractMessage buffer =
     (if length buffer < 2 \<or> \<not> compare_eq buffer 0 2 ''8='' then (None, buffer)
      else case str_find buffer SOH 0 of
        None \<Rightarrow> (None, buffer)
      | Some firstSoh \<Rightarrow>
          let bodyLenTagStart = firstSoh + 1
          in if \<not> compare_eq buffer bodyLenTagStart 2 ''9='' then (None, buffer)
             else let bodyLenValStart = bodyLenTagStart + 2
               in case str_find buffer SOH bodyLenValStart of
                    None \<Rightarrow> (None, buffer)
                  | Some bodyLenSoh \<Rightarrow>
                      case stoul (substr buffer bodyLenValStart (bodyLenSoh - bodyLenValStart)) of
                        Inl _ \<Rightarrow> (None, buffer)
                      | Inr bodyLength \<Rightarrow>
                          let bodyStart = bodyLenSoh + 1;
                              totalMsgLen = of_nat bodyStart + bodyLength + 7 :: u64
                          in if of_nat (length buffer) < totalMsgLen then (None, buffer)
                             else (Some (substr buffer 0 (unat totalMsgLen)),
                                   drop (unat totalMsgLen) buffer))"

function split_loop :: "string \<Rightarrow> nat \<Rightarrow> (int \<Rightarrow> string option) \<Rightarrow> (int \<Rightarrow> string option)" where
  "split_loop raw pos flds =
     (if pos < length raw then
        (case str_find raw (CHR ''='') pos of
           None \<Rightarrow> flds
         | Some eq \<Rightarrow>
             (case str_find raw SOH eq of
                None \<Rightarrow> flds
              | Some soh \<Rightarrow>
                  split_loop raw (soh + 1)
                    (case stoi (substr raw pos (eq - pos)) of
                       Inl _ \<Rightarrow> flds
                     | Inr tag \<Rightarrow> flds(tag \<mapsto> substr raw (eq + 1) (soh - eq - 1)))))
      else flds)"
  by pat_completeness auto
termination
proof (relation "measure (\<lambda>(raw, pos, flds). length raw - pos)")
  fix raw :: string and pos eq soh
  assume "pos < length raw" "str_find raw (CHR ''='') pos = Some eq" "str_find raw SOH eq = Some soh"
  then have "pos \<le> eq" and "eq \<le> soh" by (blast dest: str_find_Some(1))+
  with \<open>pos < length raw\<close> show "((raw, soh + 1, f), (raw, pos, flds))
      \<in> measure (\<lambda>(raw, pos, flds). length raw - pos)" for f flds
    by simp
qed simp

declare split_loop.simps [simp del]

definition splitFields :: "string \<Rightarrow> (int \<Rightarrow> string option)" where
  "splitFields raw = split_loop raw 0 Map.empty"

definition byte_sum :: "string \<Rightarrow> u64" where
  "byte_sum s = foldl (\<lambda>sum c. sum + of_nat (of_char c)) 0 s"

definition checksum :: "string \<Rightarrow> nat" where
  "checksum s = unat (byte_sum s mod 256)"

definition verifyChecksum :: "string \<Rightarrow> bool" where
  "verifyChecksum raw =
     (case str_rfind raw ''10='' of
        None \<Rightarrow> False
      | Some checksumTagPos \<Rightarrow>
          let computed = checksum (take checksumTagPos raw);
              valStart = checksumTagPos + 3
          in case str_find raw SOH valStart of
               None \<Rightarrow> False
             | Some valEnd \<Rightarrow>
                 case stoi (substr raw valStart (valEnd - valStart)) of
                   Inl _ \<Rightarrow> False
                 | Inr received \<Rightarrow> int computed = received)"

text \<open>
  The conversions of the try block, in order; each may throw.  \<open>fetch_add\<close> runs before them,
  so the counter has advanced even when one of them throws.
\<close>

definition parse_fields :: "(int \<Rightarrow> string option) \<Rightarrow> u64 \<Rightarrow> int \<Rightarrow> conv_error + order" where
  "parse_fields flds oid now =
     (case stoul (the (flds 1)) of
        Inl e \<Rightarrow> Inl e
      | Inr acct \<Rightarrow>
          (case stoul (the (flds 38)) of
             Inl e \<Rightarrow> Inl e
           | Inr q \<Rightarrow>
               (case stod (the (flds 44)) of
                  Inl e \<Rightarrow> Inl e
                | Inr p \<Rightarrow>
                    Inr \<lparr>orderId = oid, accountId = acct, symbol = the (flds 55),
                         side = (if the (flds 54) = ''1'' then BUY else SELL),
                         qty = ucast q, price = p, enqueueTime = now\<rparr>)))"

definition has_required :: "(int \<Rightarrow> string option) \<Rightarrow> bool" where
  "has_required flds \<longleftrightarrow>
     flds 55 \<noteq> None \<and> flds 54 \<noteq> None \<and> flds 38 \<noteq> None \<and> flds 44 \<noteq> None \<and> flds 1 \<noteq> None"

definition parseOrder :: "string \<Rightarrow> u64 \<Rightarrow> int \<Rightarrow> (string + order) \<times> u64" where
  "parseOrder raw nextOrderId now =
     (if \<not> verifyChecksum raw then (Inl ''bad_checksum'', nextOrderId)
      else let flds = splitFields raw
        in if flds 35 \<noteq> Some ''D'' then (Inl ''unsupported_msgtype'', nextOrderId)
           else if \<not> has_required flds then (Inl ''malformed_message'', nextOrderId)
           else (case parse_fields flds nextOrderId now of
                   Inl _ \<Rightarrow> Inl ''malformed_message''
                 | Inr ord \<Rightarrow> Inr ord,
                 nextOrderId + 1))"

definition buildMessage :: "string \<Rightarrow> string" where
  "buildMessage bodyFields =
     (let body = bodyFields;
          withLen = ''9='' @ to_string (length body) @ [SOH] @ body;
          head = ''8=FIX.4.2'' @ [SOH];
          msgNoChecksum = head @ withLen
      in msgNoChecksum @ ''10='' @ format_03d (checksum msgNoChecksum) @ [SOH])"

definition buildNewOrderSingle ::
  "u64 \<Rightarrow> string \<Rightarrow> char \<Rightarrow> u32 \<Rightarrow> double \<Rightarrow> string \<Rightarrow> string" where
  "buildNewOrderSingle account symb sd q p clOrdId =
     buildMessage
       (''35=D'' @ [SOH] @
        ''55='' @ symb @ [SOH] @
        ''54='' @ [sd] @ [SOH] @
        ''38='' @ to_string (unat q) @ [SOH] @
        ''44='' @ to_string_double p @ [SOH] @
        ''1='' @ to_string (unat account) @ [SOH] @
        ''11='' @ clOrdId @ [SOH])"

section \<open>Framing\<close>

text \<open>The scanner in terms of the two separators it finds.\<close>

lemma tryExtract_found:
  assumes "compare_eq buf 0 2 ''8=''" and "str_find buf SOH 0 = Some i"
  shows "tryExtractMessage buf =
    (if \<not> compare_eq buf (i + 1) 2 ''9='' then (None, buf)
     else case str_find buf SOH (i + 3) of
       None \<Rightarrow> (None, buf)
     | Some j \<Rightarrow>
         case stoul (substr buf (i + 3) (j - (i + 3))) of
           Inl _ \<Rightarrow> (None, buf)
         | Inr n \<Rightarrow>
             let total = of_nat (j + 1) + n + 7 :: u64
             in if of_nat (length buf) < total then (None, buf)
                else (Some (take (unat total) buf), drop (unat total) buf))"
proof -
  have "2 \<le> length buf"
    using assms(1) by (cases buf; cases "tl buf") (auto simp: compare_eq_def substr_def)
  then show ?thesis
    using assms
    by (auto simp: tryExtractMessage_def Let_def substr_def numeral_3_eq_3
        split: option.split sum.split)
qed

lemma tryExtract_no_SOH: "str_find buf SOH 0 = None \<Longrightarrow> tryExtractMessage buf = (None, buf)"
  by (simp add: tryExtractMessage_def)

definition frame_head :: "string \<Rightarrow> string \<Rightarrow> string" where
  "frame_head b l = ''8='' @ b @ SOH # ''9='' @ l @ [SOH]"

lemma frame_head_split:
  "frame_head b l = (''8='' @ b) @ SOH # ''9='' @ l @ [SOH]"
  "frame_head b l = (''8='' @ b @ SOH # ''9='') @ l @ [SOH]"
  by (simp_all add: frame_head_def)

lemma compare_eq_append: "compare_eq (xs @ ys @ zs) (length xs) (length ys) ys"
  by (simp add: compare_eq_def substr_def)

text \<open>What the scanner does on a buffer that holds the whole header of a message.\<close>

lemma tryExtract_header:
  assumes b: "\<forall>c\<in>set b. c \<noteq> SOH" and l: "\<forall>c\<in>set l. c \<noteq> SOH"
  shows "tryExtractMessage (frame_head b l @ x) =
    (case stoul l of
       Inl _ \<Rightarrow> (None, frame_head b l @ x)
     | Inr n \<Rightarrow>
         let total = of_nat (length (frame_head b l)) + n + 7 :: u64
         in if of_nat (length (frame_head b l @ x)) < total then (None, frame_head b l @ x)
            else (Some (take (unat total) (frame_head b l @ x)),
                  drop (unat total) (frame_head b l @ x)))"
proof -
  let ?buf = "frame_head b l @ x" let ?i = "length (''8='' @ b)"
  have f1: "str_find ?buf SOH 0 = Some ?i"
    unfolding frame_head_split(1) append_assoc append_Cons
    using str_find_stop_0 [of "''8='' @ b" SOH "''9='' @ l @ [SOH] @ x"] b by simp
  have p2: "?i + 3 = length (''8='' @ b @ SOH # ''9='')" by simp
  have buf2: "?buf = (''8='' @ b @ SOH # ''9='') @ l @ SOH # x" by (simp add: frame_head_def)
  have f2: "str_find ?buf SOH (?i + 3) = Some (?i + 3 + length l)"
    unfolding buf2 p2 using str_find_stop [OF l] by blast
  have c1: "compare_eq ?buf 0 2 ''8=''" by (simp add: frame_head_def compare_eq_def substr_def)
  have c2: "compare_eq ?buf (?i + 1) 2 ''9=''"
    using compare_eq_append [of "''8='' @ b @ [SOH]" "''9=''" "l @ SOH # x"]
    by (simp add: frame_head_def numeral_2_eq_2)
  have s: "substr ?buf (?i + 3) (?i + 3 + length l - (?i + 3)) = l"
    unfolding buf2 p2 by (simp add: substr_def)
  have lh: "?i + 3 + length l + 1 = length (frame_head b l)" by (simp add: frame_head_def)
  show ?thesis
    using c2 by (simp only: tryExtract_found [OF c1 f1] f2 option.case s lh) simp
qed

text \<open>A buffer that holds only a part of the header yields nothing.\<close>

lemma tryExtract_short_header:
  assumes b: "\<forall>c\<in>set b. c \<noteq> SOH" and l: "\<forall>c\<in>set l. c \<noteq> SOH"
    and n: "n < length (frame_head b l)" and p: "p = take n (frame_head b l)"
  shows "tryExtractMessage p = (None, p)"
proof (cases "n \<le> length (''8='' @ b)")
  case True
  then have "p = take n (''8='' @ b)"
    unfolding p frame_head_split(1) by (rule take_append_le)
  then have "set p \<subseteq> set (''8='' @ b)" by (metis set_take_subset)
  then have "\<forall>c\<in>set p. c \<noteq> SOH" using b by auto
  then have "str_find p SOH 0 = None" using str_find_none [of p SOH "[]"] by simp
  then show ?thesis by (rule tryExtract_no_SOH)
next
  case False
  let ?i = "length (''8='' @ b)"
  define m where "m = n - (?i + 1)"
  have nm: "n = Suc ?i + m" using False m_def by simp
  have p1: "p = (''8='' @ b) @ SOH # take m (''9='' @ l @ [SOH])"
    unfolding p frame_head_split(1) nm by (rule take_Suc_append)
  have f1: "str_find p SOH 0 = Some ?i"
    unfolding p1 using str_find_stop_0 [of "''8='' @ b" SOH] b by simp
  have m: "m < length l + 3" using n nm by (simp add: frame_head_def)
  have c1: "compare_eq p 0 2 ''8=''" by (simp add: p1 compare_eq_def substr_def)
  show ?thesis
  proof (cases "m < 2")
    case True
    have "length (substr p (?i + 1) 2) < 2" using True by (simp add: p1 substr_def)
    then have "\<not> compare_eq p (?i + 1) 2 ''9=''" by (auto simp: compare_eq_def)
    then show ?thesis by (simp only: tryExtract_found [OF c1 f1]) simp
  next
    case False
    have "take m (''9='' @ l @ [SOH]) = ''9='' @ take (m - 2) l"
      using False m by (cases m; cases "m - 1") auto
    then have q: "p = (''8='' @ b @ SOH # ''9='') @ take (m - 2) l" by (simp add: p1)
    have "\<forall>c\<in>set (take (m - 2) l). c \<noteq> SOH" using l by (metis in_set_takeD)
    from str_find_none [OF this, of "''8='' @ b @ SOH # ''9=''"]
    have "str_find p SOH (length (''8='' @ b @ SOH # ''9='')) = None" unfolding q .
    then have "str_find p SOH (?i + 3) = None" by (simp add: numeral_eq_Suc)
    then show ?thesis by (simp only: tryExtract_found [OF c1 f1]) simp
  qed
qed

section \<open>Built messages\<close>

definition trailer :: "string \<Rightarrow> string" where
  "trailer x = ''10='' @ format_03d (checksum x) @ [SOH]"

abbreviation built_head :: "string \<Rightarrow> string" where
  "built_head body \<equiv> frame_head ''FIX.4.2'' (to_string (length body))"

lemma buildMessage_frame:
  "buildMessage body = built_head body @ body @ trailer (built_head body @ body)"
  by (simp add: buildMessage_def trailer_def frame_head_def Let_def)

lemma checksum_less: "checksum x < 256"
proof -
  have "unat (byte_sum x mod 256) < unat (256 :: u64)"
    by (simp only: unat_mod) (rule mod_less_divisor, simp)
  then show ?thesis by (simp add: checksum_def)
qed

lemma length_trailer [simp]: "length (trailer x) = 7"
  using length_format_03d [of "checksum x"] checksum_less [of x] by (simp add: trailer_def)

lemma length_buildMessage:
  "length (buildMessage body) = length (built_head body) + length body + 7"
  by (simp add: buildMessage_frame)

lemma to_string_no_SOH: "\<forall>c\<in>set (to_string n). c \<noteq> SOH"
  using to_string_digits by force

lemma FIX42_no_SOH: "\<forall>c\<in>set ''FIX.4.2''. c \<noteq> SOH"
  by simp

text \<open>The scanner on a buffer that holds at least the header of a built message.\<close>

lemma tryExtract_built_head:
  assumes "length (built_head body @ x) < 2 ^ 64" and "length (buildMessage body) < 2 ^ 64"
  shows "tryExtractMessage (built_head body @ x) =
    (if length (built_head body @ x) < length (buildMessage body) then (None, built_head body @ x)
     else (Some (take (length (buildMessage body)) (built_head body @ x)),
           drop (length (buildMessage body)) (built_head body @ x)))"
proof -
  let ?h = "built_head body"
  have len: "length body < 2 ^ 64" using assms(2) by (simp add: length_buildMessage)
  have "of_nat (length ?h) + of_nat (length body) + 7 = (of_nat (length (buildMessage body)) :: u64)"
    by (simp add: length_buildMessage)
  then show ?thesis
    using assms
    by (simp only: tryExtract_header [OF FIX42_no_SOH to_string_no_SOH] stoul_to_string [OF len]
        sum.case Let_def of_nat_u64_less unat_of_nat_u64)
qed

lemma tryExtract_built:
  assumes "length (buildMessage body @ rest) < 2 ^ 64"
  shows "tryExtractMessage (buildMessage body @ rest) = (Some (buildMessage body), rest)"
proof -
  let ?x = "body @ trailer (built_head body @ body) @ rest"
  have b: "buildMessage body @ rest = built_head body @ ?x" by (simp add: buildMessage_frame)
  have "length (built_head body @ ?x) < 2 ^ 64" and "length (buildMessage body) < 2 ^ 64"
    using assms b by (simp_all del: length_append) simp
  from tryExtract_built_head [OF this] show ?thesis
    unfolding b [symmetric] by simp
qed

lemma tryExtract_built_prefix:
  assumes "n < length (buildMessage body)" and "length (buildMessage body) < 2 ^ 64"
  shows "tryExtractMessage (take n (buildMessage body)) = (None, take n (buildMessage body))"
proof (cases "n < length (built_head body)")
  case True
  then have "take n (buildMessage body) = take n (built_head body)"
    by (simp add: buildMessage_frame)
  then show ?thesis
    using tryExtract_short_header [OF FIX42_no_SOH to_string_no_SOH True] by simp
next
  case False
  define x where "x = take (n - length (built_head body)) (body @ trailer (built_head body @ body))"
  have p: "take n (buildMessage body) = built_head body @ x"
    using False by (simp add: buildMessage_frame x_def)
  then have "length (built_head body @ x) = n" using assms(1) by (metis length_take min.absorb4)
  then show ?thesis using tryExtract_built_head [of body x] assms p by simp
qed

section \<open>Checksum\<close>

definition nat_sum :: "string \<Rightarrow> nat" where
  "nat_sum s = sum_list (map of_char s)"

lemma byte_sum_nat: "byte_sum s = of_nat (nat_sum s)"
proof -
  have "foldl (\<lambda>sum c. sum + of_nat (of_char c)) k s = (k + of_nat (nat_sum s) :: u64)" for k
    by (induction s arbitrary: k) (simp_all add: nat_sum_def)
  from this [of 0] show ?thesis by (simp add: byte_sum_def)
qed

lemma checksum_nat: "checksum s = nat_sum s mod 256"
proof -
  have "unat ((of_nat n :: u64) mod 256) = n mod 256" for n
    by (simp add: unat_mod unat_of_nat take_bit_eq_mod mod_mod_cancel)
  then show ?thesis by (simp add: checksum_def byte_sum_nat)
qed

text \<open>The last occurrence of the checksum tag, whatever bytes stand before it.\<close>

lemma rfind_trailer:
  assumes "\<forall>c\<in>set ds. is_digit c"
  shows "str_rfind (x @ ''10='' @ ds @ [SOH]) ''10='' = Some (length x)"
proof -
  let ?s = "x @ ''10='' @ ds @ [SOH]"
  have "\<not> compare_eq ?s j (length ''10='') ''10=''" if j: "length x < j" "j \<le> length ?s - 3" for j
  proof
    assume "compare_eq ?s j (length ''10='') ''10=''"
    from compare_eq_nth [OF this, of 2] have "?s ! (j + 2) = CHR ''=''" using j by simp
    moreover have "((x @ ''10='') @ (ds @ [SOH])) ! (j + 2)
        = (ds @ [SOH]) ! (j + 2 - length (x @ ''10=''))"
      by (rule nth_append_right) (use j in simp)
    then have "?s ! (j + 2) = (ds @ [SOH]) ! (j - length x - 1)" by simp
    moreover have "j - length x - 1 < length (ds @ [SOH])" using j by simp
    then have "(ds @ [SOH]) ! (j - length x - 1) \<in> set (ds @ [SOH])" by (rule nth_mem)
    ultimately have "CHR ''='' \<in> set (ds @ [SOH])" by simp
    then show False using assms by force
  qed
  moreover have "compare_eq ?s (length x) (length ''10='') ''10=''" by (rule compare_eq_append)
  ultimately show ?thesis
    by (simp only: str_rfind_def) (simp, rule rfind_from_last, simp_all)
qed

lemma verifyChecksum_trailer:
  assumes "n < 256"
  shows "verifyChecksum (x @ ''10='' @ format_03d n @ [SOH]) \<longleftrightarrow> checksum x = n"
proof -
  let ?s = "x @ ''10='' @ format_03d n @ [SOH]"
  have "\<forall>c\<in>set (format_03d n). c \<noteq> SOH" using format_03d_digits by force
  from str_find_stop [OF this, of "x @ ''10=''" "[]"]
  have "str_find ?s SOH (length x + 3) = Some (length x + 3 + length (format_03d n))"
    by (simp add: numeral_3_eq_3)
  moreover have "substr ?s (length x + 3) (length x + 3 + length (format_03d n) - (length x + 3))
      = format_03d n"
    by (simp add: substr_def)
  ultimately show ?thesis
    using stoi_format_03d [of n] assms rfind_trailer [OF format_03d_digits, of x n]
    by (simp add: verifyChecksum_def Let_def)
qed

lemma verifyChecksum_built: "verifyChecksum (buildMessage body)"
  using verifyChecksum_trailer [OF checksum_less, of "built_head body @ body"]
  by (simp add: buildMessage_frame trailer_def)

lemma nat_sum_update:
  assumes "i < length s"
  shows "nat_sum (s[i := c]) + of_char (s ! i) = nat_sum s + of_char c"
  using sum_list_update_nat [of i "map of_char s" "of_char c"] assms
  by (simp add: nat_sum_def map_update)

lemma checksum_update:
  assumes "i < length s" and "c \<noteq> s ! i"
  shows "checksum (s[i := c]) \<noteq> checksum s"
proof
  assume "checksum (s[i := c]) = checksum s"
  then have "(nat_sum (s[i := c]) + of_char (s ! i)) mod 256 = (nat_sum s + of_char (s ! i)) mod 256"
    unfolding checksum_nat by (metis mod_add_left_eq)
  with nat_sum_update [OF assms(1), of c]
  have "(nat_sum s + of_char c) mod 256 = (nat_sum s + of_char (s ! i)) mod 256" by simp
  then have "(of_char c :: nat) = of_char (s ! i)" by (rule add_mod_cancel) simp_all
  then have "c = s ! i" by simp
  with assms(2) show False by simp
qed

section \<open>Fields\<close>

text \<open>The wire form of a list of fields.\<close>

definition enc_field :: "nat \<times> string \<Rightarrow> string" where
  "enc_field f = to_string (fst f) @ CHR ''='' # snd f @ [SOH]"

definition enc_fields :: "(nat \<times> string) list \<Rightarrow> string" where
  "enc_fields fs = concat (map enc_field fs)"

definition field_ok :: "nat \<times> string \<Rightarrow> bool" where
  "field_ok f \<longleftrightarrow> fst f < 2 ^ 31 \<and> SOH \<notin> set (snd f)"

definition field_map :: "(nat \<times> string) list \<Rightarrow> int \<Rightarrow> string option" where
  "field_map fs = map_of (rev (map (\<lambda>f. (int (fst f), snd f)) fs))"

lemma split_loop_field:
  assumes "field_ok f"
  shows "split_loop (pre @ enc_field f @ rest) (length pre) m =
    split_loop (pre @ enc_field f @ rest) (length (pre @ enc_field f)) (m(int (fst f) \<mapsto> snd f))"
proof -
  define t v where "t = fst f" and "v = snd f"
  let ?raw = "pre @ enc_field f @ rest" let ?eq = "length pre + length (to_string t)"
  have f: "enc_field f = to_string t @ CHR ''='' # v @ [SOH]"
    by (simp add: enc_field_def t_def v_def)
  have "\<forall>c\<in>set (to_string t). c \<noteq> CHR ''=''" using to_string_digits by force
  from str_find_stop [OF this, of pre "v @ SOH # rest"]
  have e: "str_find ?raw (CHR ''='') (length pre) = Some ?eq" by (simp add: f)
  have "\<forall>c\<in>set (CHR ''='' # v). c \<noteq> SOH" using assms by (auto simp: field_ok_def v_def)
  from str_find_stop [OF this, of "pre @ to_string t" rest]
  have s: "str_find ?raw SOH ?eq = Some (?eq + 1 + length v)" by (simp add: f)
  have t: "stoi (substr ?raw (length pre) (?eq - length pre)) = Inr (int t)"
    using assms stoi_to_string [of t] by (simp add: f field_ok_def t_def [symmetric] substr_def)
  have v: "substr ?raw (?eq + 1) (?eq + 1 + length v - ?eq - 1) = v"
    by (simp add: f substr_def)
  have lt: "length pre < length ?raw" by (simp add: f)
  have n: "?eq + 1 + length v + 1 = length (pre @ enc_field f)" by (simp add: f)
  show ?thesis
    by (subst split_loop.simps)
      (simp only: lt if_True e s t v n option.case sum.case t_def [symmetric] v_def [symmetric])
qed

lemma split_loop_end: "length raw \<le> pos \<Longrightarrow> split_loop raw pos m = m"
  by (simp add: split_loop.simps [of raw pos m])

lemma split_loop_fields:
  assumes "list_all field_ok fs"
  shows "split_loop (pre @ enc_fields fs) (length pre) m = m ++ field_map fs"
  using assms
proof (induction fs arbitrary: pre m)
  case Nil
  then show ?case by (simp add: enc_fields_def field_map_def split_loop_end)
next
  case (Cons f fs)
  then have ok: "field_ok f" and fs: "list_all field_ok fs" by simp_all
  have IH: "split_loop ((pre @ enc_field f) @ enc_fields fs) (length (pre @ enc_field f)) (m(int (fst f) \<mapsto> snd f))
      = m(int (fst f) \<mapsto> snd f) ++ field_map fs"
    using fs by (rule Cons.IH)
  have "enc_fields (f # fs) = enc_field f @ enc_fields fs" by (simp add: enc_fields_def)
  moreover have "m ++ field_map (f # fs) = m(int (fst f) \<mapsto> snd f) ++ field_map fs"
    by (auto simp: field_map_def map_add_def fun_eq_iff split: option.splits)
  ultimately show ?case using split_loop_field [OF ok, of pre "enc_fields fs" m] IH by simp
qed

lemma splitFields_enc: "list_all field_ok fs \<Longrightarrow> splitFields (enc_fields fs) = field_map fs"
  using split_loop_fields [of fs "[]" Map.empty] by (simp add: splitFields_def)

lemma to_string_tags [fix_simps]:
  "to_string (Suc 0) = ''1''" "to_string 8 = ''8''" "to_string 9 = ''9''" "to_string 10 = ''10''"
  "to_string 11 = ''11''" "to_string 35 = ''35''" "to_string 37 = ''37''" "to_string 38 = ''38''"
  "to_string 39 = ''39''" "to_string 44 = ''44''" "to_string 54 = ''54''" "to_string 55 = ''55''"
  "to_string 58 = ''58''"
  by code_simp+

text \<open>A built message whose body is a list of fields is itself a list of fields.\<close>

definition message_fields :: "(nat \<times> string) list \<Rightarrow> (nat \<times> string) list" where
  "message_fields fs =
     (8, ''FIX.4.2'') # (9, to_string (length (enc_fields fs))) #
     fs @ [(10, format_03d (checksum (built_head (enc_fields fs) @ enc_fields fs)))]"

lemma buildMessage_fields: "buildMessage (enc_fields fs) = enc_fields (message_fields fs)"
  by (simp add: buildMessage_frame trailer_def frame_head_def message_fields_def
      enc_fields_def enc_field_def fix_simps)

lemma message_fields_ok: "list_all field_ok fs \<Longrightarrow> list_all field_ok (message_fields fs)"
  using to_string_no_SOH format_03d_digits
  by (fastforce simp: message_fields_def field_ok_def)

lemma splitFields_built:
  "list_all field_ok fs \<Longrightarrow> splitFields (buildMessage (enc_fields fs)) = field_map (message_fields fs)"
  by (simp add: buildMessage_fields splitFields_enc message_fields_ok)

section \<open>Orders\<close>

definition nos_fields :: "u64 \<Rightarrow> string \<Rightarrow> char \<Rightarrow> u32 \<Rightarrow> string \<Rightarrow> string \<Rightarrow> (nat \<times> string) list" where
  "nos_fields account symb sd q ptext clOrdId =
     [(35, ''D''), (55, symb), (54, [sd]), (38, to_string (unat q)), (44, ptext),
      (1, to_string (unat account)), (11, clOrdId)]"

lemma buildNewOrderSingle_fields:
  "buildNewOrderSingle account symb sd q p clOrdId =
     buildMessage (enc_fields (nos_fields account symb sd q (to_string_double p) clOrdId))"
  by (simp add: buildNewOrderSingle_def nos_fields_def enc_fields_def enc_field_def fix_simps)

lemma nos_fields_ok:
  assumes "SOH \<notin> set symb" "sd \<noteq> SOH" "SOH \<notin> set ptext" "SOH \<notin> set clOrdId"
  shows "list_all field_ok (nos_fields account symb sd q ptext clOrdId)"
  using assms to_string_no_SOH by (auto simp: nos_fields_def field_ok_def)

lemma nos_field_map:
  fixes account symb sd q ptext clOrdId
  defines "m \<equiv> field_map (message_fields (nos_fields account symb sd q ptext clOrdId))"
  shows "m 35 = Some ''D''" "m 55 = Some symb" "m 54 = Some [sd]" "m 38 = Some (to_string (unat q))"
    "m 44 = Some ptext" "m 1 = Some (to_string (unat account))"
  by (simp_all add: m_def field_map_def message_fields_def nos_fields_def)

lemma stoul_to_string_word: "stoul (to_string (unat (w :: 'a :: len word))) = Inr (of_nat (unat w))"
  if "LENGTH('a) \<le> 64"
proof (rule stoul_to_string)
  have "unat w < 2 ^ LENGTH('a)" by (rule unsigned_less)
  also have "\<dots> \<le> 2 ^ 64" using that by (rule power_increasing) simp
  finally show "unat w < 2 ^ 64" .
qed

text \<open>Parsing a NewOrderSingle whose price text is \<open>ptext\<close>.\<close>

lemma parseOrder_nos:
  assumes "SOH \<notin> set symb" "sd \<noteq> SOH" "SOH \<notin> set ptext" "SOH \<notin> set clOrdId"
    and "stod ptext = Inr p"
  shows "parseOrder (buildMessage (enc_fields (nos_fields account symb sd q ptext clOrdId))) oid now =
    (Inr \<lparr>orderId = oid, accountId = account, symbol = symb,
          side = (if sd = CHR ''1'' then BUY else SELL), qty = q, price = p, enqueueTime = now\<rparr>,
     oid + 1)"
proof -
  let ?fs = "nos_fields account symb sd q ptext clOrdId"
  have "splitFields (buildMessage (enc_fields ?fs)) = field_map (message_fields ?fs)"
    by (rule splitFields_built) (rule nos_fields_ok [OF assms(1-4)])
  moreover have "ucast (of_nat (unat q) :: u64) = q" by simp
  ultimately show ?thesis
    by (simp add: parseOrder_def verifyChecksum_built Let_def nos_field_map has_required_def
        parse_fields_def stoul_to_string_word assms(5))
qed

section \<open>Properties\<close>

definition sample_body :: string where
  "sample_body = enc_fields (nos_fields 1 ''BTC-USD'' (CHR ''1'') 1 ''6000.000000'' ''x'')"

lemma sample_length: "length (buildMessage sample_body) = 72"
  by code_simp

text \<open>
  C24. Framing round trip: a built message at the front of the receive buffer, whatever bytes
  follow it, is extracted exactly, the bytes after it stay in the buffer, and its checksum is
  accepted.
\<close>

theorem message_roundtrip:
  assumes "length (buildMessage body @ rest) < 2 ^ 64"
  shows "tryExtractMessage (buildMessage body @ rest) = (Some (buildMessage body), rest) \<and>
    verifyChecksum (buildMessage body)"
  using tryExtract_built [OF assms] verifyChecksum_built by simp

theorem message_roundtrip_witness:
  "tryExtractMessage (buildMessage sample_body @ ''8=FIX'') = (Some (buildMessage sample_body), ''8=FIX'')"
proof -
  have "length (buildMessage sample_body @ ''8=FIX'') < 2 ^ 64" by (simp add: sample_length)
  from message_roundtrip [OF this] show ?thesis by simp
qed

text \<open>
  A message that has arrived only in part, cut at any byte, is left in the buffer: nothing
  is extracted and no byte is lost.
\<close>

lemma partial_message_waits:
  assumes "n < length (buildMessage body)" and "length (buildMessage body) < 2 ^ 64"
  shows "tryExtractMessage (take n (buildMessage body)) = (None, take n (buildMessage body))"
  using tryExtract_built_prefix [OF assms] .

theorem partial_message_waits_witness:
  "tryExtractMessage (take 40 (buildMessage sample_body)) = (None, take 40 (buildMessage sample_body))"
  by (rule partial_message_waits) (simp_all add: sample_length)

text \<open>
  C26. The checksum detects every change of a single byte before the checksum field of a built
  message: the parser rejects the changed message with bad\_checksum and does not spend an
  order id.
\<close>

theorem corruption_detected:
  assumes "i < length (buildMessage body) - 7" and "c \<noteq> buildMessage body ! i"
  shows "\<not> verifyChecksum ((buildMessage body)[i := c]) \<and>
    parseOrder ((buildMessage body)[i := c]) oid now = (Inl ''bad_checksum'', oid)"
proof -
  let ?x = "built_head body @ body"
  have i: "i < length ?x" using assms(1) by (simp add: length_buildMessage)
  have m: "buildMessage body = ?x @ ''10='' @ format_03d (checksum ?x) @ [SOH]"
    by (simp add: buildMessage_frame trailer_def)
  have "(buildMessage body)[i := c] = ?x[i := c] @ ''10='' @ format_03d (checksum ?x) @ [SOH]"
    using i unfolding m by (simp only: list_update_append1)
  moreover have "buildMessage body ! i = ?x ! i" using i unfolding m by (simp only: nth_append) simp
  with assms(2) have "checksum (?x[i := c]) \<noteq> checksum ?x" using checksum_update [OF i] by simp
  ultimately have "\<not> verifyChecksum ((buildMessage body)[i := c])"
    using verifyChecksum_trailer [OF checksum_less] by simp
  then show ?thesis by (simp add: parseOrder_def)
qed

theorem corruption_detected_witness:
  "\<not> verifyChecksum ((buildMessage sample_body)[20 := CHR ''9''])"
proof -
  have "buildMessage sample_body ! 20 \<noteq> CHR ''9''" by code_simp
  then show ?thesis
    using corruption_detected [of 20 sample_body "CHR ''9''"] by (simp add: sample_length)
qed

text \<open>
  C25. The NewOrderSingle the test client builds is parsed into the order it was built from,
  for every account, symbol and client id without a separator, every quantity and every
  whole-number price: fields, checksum, body length and the six decimals of the price survive
  the round trip, and the order gets the next order id.
\<close>

theorem new_order_roundtrip:
  assumes "SOH \<notin> set symb" and "sd \<noteq> SOH" and "SOH \<notin> set clOrdId" and "n \<le> 2 ^ 53"
  shows "parseOrder (buildNewOrderSingle account symb sd q (double_of_nat n) clOrdId) oid now =
    (Inr \<lparr>orderId = oid, accountId = account, symbol = symb,
          side = (if sd = CHR ''1'' then BUY else SELL), qty = q, price = double_of_nat n,
          enqueueTime = now\<rparr>,
     oid + 1)"
proof -
  have "SOH \<notin> set (to_string_double (double_of_nat n))"
    using to_string_no_SOH [of n] by (auto simp: to_string_double_whole [OF assms(4)])
  from parseOrder_nos [OF assms(1,2) this assms(3) stod_to_string_double [OF assms(4)]]
  show ?thesis by (simp add: buildNewOrderSingle_fields)
qed

theorem new_order_roundtrip_witness:
  "parseOrder (buildNewOrderSingle 1 ''BTC-USD'' (CHR ''1'') 1 (double_of_nat 6000) ''clord-0'') 7 0 =
    (Inr \<lparr>orderId = 7, accountId = 1, symbol = ''BTC-USD'', side = BUY, qty = 1,
          price = double_of_nat 6000, enqueueTime = 0\<rparr>, 8)"
  using new_order_roundtrip [of "''BTC-USD''" "CHR ''1''" "''clord-0''" 6000 1 1 7 0] by simp

text \<open>
  Splitting a well-formed message gives each tag the value of its last occurrence: the
  parser inverts the wire encoding of any list of fields whose tags fit an int and whose
  values hold no separator.
\<close>

lemma split_inverts_encoding:
  assumes "list_all field_ok fs"
  shows "splitFields (enc_fields fs) (int t) = map_of (rev fs) t"
proof -
  have "field_map fs (int t) = map_of (rev fs) t" for fs
    by (induction fs rule: rev_induct) (auto simp: field_map_def)
  then show ?thesis by (simp add: splitFields_enc [OF assms])
qed

theorem split_inverts_encoding_witness:
  "splitFields (enc_fields [(35, ''8''), (58, ''a''), (58, ''b'')]) (int 58) = Some ''b''"
  using split_inverts_encoding [of "[(35, ''8''), (58, ''a''), (58, ''b'')]" 58]
  by (simp add: field_ok_def)

text \<open>A sequence of messages parsed with the shared counter; the orders that result.\<close>

fun parse_all :: "(string \<times> int) list \<Rightarrow> u64 \<Rightarrow> order list" where
  "parse_all [] oid = []"
| "parse_all ((raw, now) # ms) oid =
     (case parseOrder raw oid now of
        (Inl _, oid') \<Rightarrow> parse_all ms oid'
      | (Inr ord, oid') \<Rightarrow> ord # parse_all ms oid')"

lemma parseOrder_id:
  "parseOrder raw oid now = (r, oid') \<Longrightarrow>
     (case r of
        Inl e \<Rightarrow> e \<in> {''bad_checksum'', ''unsupported_msgtype'', ''malformed_message''} \<and> oid' \<in> {oid, oid + 1}
      | Inr ord \<Rightarrow> orderId ord = oid \<and> oid' = oid + 1 \<and> wf_double (price ord))"
  by (auto simp: parseOrder_def parse_fields_def Let_def split: if_splits sum.splits dest: stod_wf)

lemma parse_all_ids:
  "\<exists>ks. map orderId (parse_all ms oid) = map (\<lambda>k. oid + of_nat k) ks \<and> sorted_wrt (<) ks \<and>
     (\<forall>k\<in>set ks. k < length ms)"
proof (induction ms oid rule: parse_all.induct)
  case (2 raw now ms oid)
  obtain r oid' where r: "parseOrder raw oid now = (r, oid')" by fastforce
  have step: "\<exists>ks. map orderId (parse_all ms oid') = map (\<lambda>k. oid + of_nat k) ks \<and> sorted_wrt (<) ks \<and>
      (\<forall>k\<in>set ks. d \<le> k \<and> k < Suc (length ms))" if d: "oid' = oid + of_nat d" "d \<le> 1" for d
  proof -
    obtain ks where ks: "map orderId (parse_all ms oid') = map (\<lambda>k. oid' + of_nat k) ks"
      "sorted_wrt (<) ks" "\<forall>k\<in>set ks. k < length ms"
      using 2 r by (cases r) auto
    then show ?thesis
      using d by (intro exI [of _ "map ((+) d) ks"]) (auto simp: sorted_wrt_map ac_simps)
  qed
  show ?case
  proof (cases r)
    case (Inl e)
    with parseOrder_id [OF r] have "oid' = oid + of_nat 0 \<or> oid' = oid + of_nat 1" by auto
    then show ?thesis using step [of 0] step [of 1] Inl r by fastforce
  next
    case (Inr ord)
    with parseOrder_id [OF r] have o: "orderId ord = oid" "oid' = oid + of_nat 1" by auto
    from step [OF o(2)] obtain ks where
      "map orderId (parse_all ms oid') = map (\<lambda>k. oid + of_nat k) ks" "sorted_wrt (<) ks"
      "\<forall>k\<in>set ks. 1 \<le> k \<and> k < Suc (length ms)" by auto
    then show ?thesis using Inr r o(1) by (intro exI [of _ "0 # ks"]) auto
  qed
qed simp

text \<open>
  Order ids are unique: however many of the messages are rejected, the orders parsed from
  fewer than two to the power of 64 messages with the shared counter have pairwise different
  ids.
\<close>

lemma order_ids_distinct:
  assumes "length ms < 2 ^ 64"
  shows "distinct (map orderId (parse_all ms oid))"
proof -
  obtain ks where ks: "map orderId (parse_all ms oid) = map (\<lambda>k. oid + of_nat k) ks"
    "sorted_wrt (<) ks" "\<forall>k\<in>set ks. k < length ms" using parse_all_ids by blast
  have "inj_on (\<lambda>k. oid + of_nat k) (set ks)"
  proof (rule inj_onI)
    fix j k assume "j \<in> set ks" "k \<in> set ks" "oid + of_nat j = oid + (of_nat k :: u64)"
    then show "j = k" using ks(3) assms by (metis add_left_cancel less_trans unat_of_nat_u64)
  qed
  moreover have "distinct ks" using ks(2) by (simp add: strict_sorted_iff)
  ultimately show ?thesis using ks(1) by (simp add: distinct_map)
qed

lemma order_ids_distinct_witness:
  "distinct (map orderId (parse_all [(buildMessage sample_body, 0), (''junk'', 1),
     (buildMessage sample_body, 2)] 1))"
  by (rule order_ids_distinct) simp

section \<open>Where the parser is not the protocol\<close>

text \<open>
  The body length is read with stoul, which accepts a minus sign and wraps, and the total
  length is computed modulo two to the power of 64: a BodyLength of minus the header length
  minus 7 makes the total 0, so the parser reports a complete message, the empty string, and
  consumes nothing.
\<close>

lemma tryExtract_negative:
  "tryExtractMessage (''8=F'' @ [SOH] @ ''9=-17'' @ [SOH] @ x) =
     (Some [], ''8=F'' @ [SOH] @ ''9=-17'' @ [SOH] @ x)"
proof -
  have "stoul ''-17'' = Inr (- 17)"
    by (simp add: stoul_def scan_int_def is_space_def is_digit_def digits_val_def digit_val_def)
  moreover have "length (frame_head ''F'' ''-17'') = 10" by (simp add: frame_head_def)
  ultimately have "tryExtractMessage (frame_head ''F'' ''-17'' @ x) = (Some [], frame_head ''F'' ''-17'' @ x)"
    using tryExtract_header [of "''F''" "''-17''" x] by (simp add: Let_def)
  then show ?thesis by (simp add: frame_head_def)
qed

text \<open>
  C40. The quantity is read into 64 bits and cut to 32: an order for two to the power of 32
  plus k shares is parsed as an order for k.
\<close>

theorem quantity_truncated:
  assumes "the (flds 38) = to_string (2 ^ 32 + k)" and "k < 2 ^ 32"
    and "parse_fields flds oid now = Inr ord"
  shows "qty ord = of_nat k"
proof -
  have "stoul (to_string (2 ^ 32 + k)) = Inr (of_nat (2 ^ 32 + k))"
    by (rule stoul_to_string) (use assms(2) in simp)
  with assms(1,3) have "qty ord = ucast (of_nat (2 ^ 32 + k) :: u64)"
    by (auto simp: parse_fields_def split: sum.splits)
  also have "\<dots> = (of_nat (2 ^ 32 + k) :: u32)" by (rule ucast_of_nat_u32)
  also have "\<dots> = of_nat k" by simp
  finally show ?thesis .
qed

definition huge_flds :: "int \<Rightarrow> string option" where
  "huge_flds = [1 \<mapsto> to_string 1, 38 \<mapsto> to_string (2 ^ 32 + 1),
     44 \<mapsto> to_string_double (double_of_nat 6000), 54 \<mapsto> ''1'', 55 \<mapsto> ''BTC-USD'']"

theorem quantity_truncated_witness:
  "\<exists>ord. parse_fields huge_flds 1 0 = Inr ord \<and> qty ord = 1"
proof -
  have "stoul (the (huge_flds 1)) = Inr (of_nat 1)" "stoul (the (huge_flds 38)) = Inr (of_nat (2 ^ 32 + 1))"
    using stoul_to_string [of 1] stoul_to_string [of "2 ^ 32 + 1"] by (simp_all add: huge_flds_def)
  moreover have "stod (the (huge_flds 44)) = Inr (double_of_nat 6000)"
    using stod_to_string_double [of 6000] by (simp add: huge_flds_def)
  ultimately obtain ord where ord: "parse_fields huge_flds 1 0 = Inr ord"
    by (auto simp: parse_fields_def)
  have "the (huge_flds 38) = to_string (2 ^ 32 + 1)" by (simp add: huge_flds_def)
  from quantity_truncated [OF this _ ord] ord show ?thesis by simp
qed

end
