(* ===== verification/EventLoop.thy ===== *)
theory EventLoop
  imports RiskValidator FixParser
begin

text \<open>
  include/EventLoop.hpp.  First the data path: bytes received on a connection are cut into
  messages (handleReadable), each message becomes a job that parses, validates and answers
  (dispatchToWorker).
\<close>

section \<open>Extracting messages from the receive buffer\<close>

text \<open>
  The loop \<open>while (true) { tryExtractMessage ... }\<close> of handleReadable: the messages it
  dispatches and the buffer it leaves.  None: the loop does not end.
\<close>

partial_function (option) extract_all :: "string \<Rightarrow> (string list \<times> string) option" where
  "extract_all buffer =
     (case tryExtractMessage buffer of
        (r, b) \<Rightarrow>
          (case r of
             None \<Rightarrow> Some ([], b)
           | Some m \<Rightarrow> Option.bind (extract_all b) (\<lambda>(ms, b'). Some (m # ms, b'))))"

text \<open>
  One call of handleReadable: the pieces recv returned until EAGAIN or end of stream are
  appended to the buffer, then messages are extracted.
\<close>

definition receive :: "string \<Rightarrow> string list \<Rightarrow> (string list \<times> string) option" where
  "receive recvBuffer pieces = extract_all (recvBuffer @ concat pieces)"

text \<open>A sequence of calls, as epoll reports the connection readable again and again.\<close>

fun receive_all :: "string \<Rightarrow> string list list \<Rightarrow> (string list \<times> string) option" where
  "receive_all buffer [] = Some ([], buffer)"
| "receive_all buffer (ps # pss) =
     Option.bind (receive buffer ps)
       (\<lambda>(ms, b). Option.bind (receive_all b pss) (\<lambda>(ms', b'). Some (ms @ ms', b')))"

section \<open>The job of a message\<close>

definition exec_report :: "validation_result \<Rightarrow> string" where
  "exec_report result =
     (let msgType = ''35=8'';
          ordStatus = (if accepted result then ''39=0'' else ''39=8'');
          body = msgType @ [SOH] @ ''37='' @ to_string (unat (vr_orderId result)) @ [SOH] @
                 ordStatus @ [SOH]
      in body @ (if \<not> accepted result then ''58='' @ reason result @ [SOH] else []))"

definition reject_body :: "string \<Rightarrow> string" where
  "reject_body rejectReason = ''35=3'' @ [SOH] @ ''58='' @ rejectReason @ [SOH]"

text \<open>
  The lambda submitted by dispatchToWorker up to its safeSend: new store, new order counter,
  answer.  The two clock readings are those of parseOrder and of validate.
\<close>

definition job :: "account_store \<Rightarrow> u64 \<Rightarrow> string \<Rightarrow> int \<Rightarrow> int \<Rightarrow> account_store \<times> u64 \<times> string" where
  "job st oid rawMsg t1 t2 =
     (case parseOrder rawMsg oid t1 of
        (Inl rejectReason, oid') \<Rightarrow> (st, oid', buildMessage (reject_body rejectReason))
      | (Inr ord, oid') \<Rightarrow>
          (case validate st ord t2 of
             (st', result) \<Rightarrow> (st', oid', buildMessage (exec_report result))))"

section \<open>Reassembly of the byte stream\<close>

lemma extract_all_None: "tryExtractMessage b = (None, b') \<Longrightarrow> extract_all b = Some ([], b')"
  by (subst extract_all.simps) simp

lemma extract_all_Some:
  "tryExtractMessage b = (Some m, b') \<Longrightarrow>
     extract_all b = Option.bind (extract_all b') (\<lambda>(ms, b''). Some (m # ms, b''))"
  by (subst extract_all.simps) simp

abbreviation built :: "string list \<Rightarrow> string" where
  "built bodies \<equiv> concat (map buildMessage bodies)"

text \<open>What is left in the buffer is a proper part of the next message, or nothing.\<close>

fun drained :: "string \<Rightarrow> string list \<Rightarrow> bool" where
  "drained p [] = (p = [])"
| "drained p (b # bs) = (length p < length (buildMessage b))"

text \<open>A prefix of a stream of messages: the whole messages of the prefix are extracted.\<close>

lemma extract_all_prefix:
  assumes "x @ y = built bs" and "length (built bs) < 2 ^ 64"
  shows "\<exists>k p. x = built (take k bs) @ p \<and> p @ y = built (drop k bs) \<and> drained p (drop k bs) \<and>
    extract_all x = Some (map buildMessage (take k bs), p)"
  using assms
proof (induction bs arbitrary: x)
  case Nil
  have "tryExtractMessage [] = (None, [])" by (simp add: tryExtractMessage_def)
  with Nil show ?case by (simp add: extract_all_None)
next
  case (Cons b bs)
  show ?case
  proof (cases "length x < length (buildMessage b)")
    case True
    have "x = take (length x) (built (b # bs))" using Cons.prems(1) by (metis append_eq_conv_conj)
    then have "x = take (length x) (buildMessage b)" using True by simp
    with tryExtract_built_prefix [OF True] Cons.prems(2) have "tryExtractMessage x = (None, x)" by simp
    then show ?thesis
      using True Cons.prems(1) by (intro exI [of _ 0]) (simp add: extract_all_None)
  next
    case False
    define x' where "x' = drop (length (buildMessage b)) x"
    have x: "x = buildMessage b @ x'" and x': "x' @ y = built bs"
      using Cons.prems(1) False
      by (auto simp: append_eq_append_conv_if x'_def split: if_splits) (metis append_take_drop_id)
    then obtain k p where k: "x' = built (take k bs) @ p" "p @ y = built (drop k bs)"
      "drained p (drop k bs)" "extract_all x' = Some (map buildMessage (take k bs), p)"
      using Cons.IH [OF x'] Cons.prems(2) by auto
    have "length x \<le> length (built (b # bs))" using Cons.prems(1) by (metis length_append le_add1)
    then have "length x < 2 ^ 64" using Cons.prems(2) by (rule le_less_trans)
    then have "length (buildMessage b @ x') < 2 ^ 64" unfolding x .
    from extract_all_Some [OF tryExtract_built [OF this]] x k show ?thesis
      by (intro exI [of _ "Suc k"] exI [of _ p]) simp
  qed
qed

lemma receive_all_stream:
  assumes "buffer @ concat (concat pss) = built bs" and "length (built bs) < 2 ^ 64"
    and "drained buffer bs"
  shows "receive_all buffer pss = Some (map buildMessage bs, [])"
  using assms
proof (induction pss arbitrary: buffer bs)
  case Nil
  then show ?case by (cases bs) auto
next
  case (Cons ps pss)
  have "(buffer @ concat ps) @ concat (concat pss) = built bs" using Cons.prems(1) by simp
  from extract_all_prefix [OF this Cons.prems(2)] obtain k p where
    k: "p @ concat (concat pss) = built (drop k bs)" "drained p (drop k bs)"
    "extract_all (buffer @ concat ps) = Some (map buildMessage (take k bs), p)" by blast
  have "built bs = built (take k bs) @ built (drop k bs)"
    by (metis append_take_drop_id concat_append map_append)
  then have "length (built (drop k bs)) < 2 ^ 64" using Cons.prems(2) by simp
  with Cons.IH [OF k(1) _ k(2)] k(3) show ?case
    by (simp add: receive_def flip: map_append)
qed

lemma drained_Nil: "drained [] bs"
  by (cases bs) (auto simp: length_buildMessage)

text \<open>
  C10. Reassembly of the TCP stream: however a stream of built messages is cut into pieces by
  recv and into batches by epoll, in the middle of a length, a tag or a checksum, the calls
  of handleReadable end, dispatch exactly these messages in their order, and leave an empty
  buffer.
\<close>

theorem stream_reassembled:
  assumes "concat (concat pss) = concat (map buildMessage bodies)"
    and "length (concat (concat pss)) < 2 ^ 64"
  shows "receive_all [] pss = Some (map buildMessage bodies, [])"
  by (rule receive_all_stream) (use assms drained_Nil in simp_all)

theorem stream_reassembled_witness:
  "receive_all [] [[take 30 (buildMessage sample_body)], [],
     [drop 30 (buildMessage sample_body), buildMessage sample_body]]
   = Some ([buildMessage sample_body, buildMessage sample_body], [])"
  using stream_reassembled [of "[[take 30 (buildMessage sample_body)], [],
     [drop 30 (buildMessage sample_body), buildMessage sample_body]]" "[sample_body, sample_body]"]
  by (simp add: sample_length del: append_take_drop_id) (simp add: append_assoc [symmetric] del: append_assoc)

lemma extract_all_cycle: "tryExtractMessage b = (Some m, b) \<Longrightarrow> extract_all b = None"
proof (rule ccontr)
  assume cyc: "tryExtractMessage b = (Some m, b)" and "extract_all b \<noteq> None"
  then obtain ms b' where r: "extract_all b = Some (ms, b')" by auto
  from extract_all_Some [OF cyc] have "extract_all b = Option.bind (extract_all b) (\<lambda>(ms, b''). Some (m # ms, b''))" .
  with r show False by simp
qed

text \<open>
  C38. The loop does not end on every input: a client that sends a header whose negative
  BodyLength makes the total length 0 keeps the event loop in the extraction loop for ever, an
  endless run of empty messages being dispatched.
\<close>

theorem negative_length_hangs:
  "extract_all (''8=F'' @ [SOH] @ ''9=-17'' @ [SOH] @ x) = None"
  by (rule extract_all_cycle) (rule tryExtract_negative)

section \<open>Answers\<close>

definition report_fields :: "validation_result \<Rightarrow> (nat \<times> string) list" where
  "report_fields res =
     [(35, ''8''), (37, to_string (unat (vr_orderId res))),
      (39, if accepted res then ''0'' else ''8'')] @
     (if accepted res then [] else [(58, reason res)])"

lemma exec_report_fields: "exec_report res = enc_fields (report_fields res)"
  by (simp add: exec_report_def report_fields_def enc_fields_def enc_field_def fix_simps)

lemma reject_fields: "reject_body why = enc_fields [(35, ''3''), (58, why)]"
  by (simp add: reject_body_def enc_fields_def enc_field_def fix_simps)

lemma decide_reason_no_SOH: "SOH \<notin> set (snd (snd (decide st ord)))"
  by (auto simp: decide_def split: prod.splits if_splits)

lemma report_fields_ok: "SOH \<notin> set (reason res) \<Longrightarrow> list_all field_ok (report_fields res)"
  using to_string_no_SOH by (auto simp: report_fields_def field_ok_def)

lemma report_map:
  fixes res
  defines "m \<equiv> field_map (message_fields (report_fields res))"
  shows "m 35 = Some ''8''" "m 37 = Some (to_string (unat (vr_orderId res)))"
    "m 39 = Some (if accepted res then ''0'' else ''8'')"
    "m 58 = (if accepted res then None else Some (reason res))"
  by (simp_all add: m_def field_map_def message_fields_def report_fields_def)

lemma splitFields_report:
  assumes "validate st ord t = (st', res)"
  shows "splitFields (buildMessage (exec_report res)) = field_map (message_fields (report_fields res))"
proof -
  have "SOH \<notin> set (reason res)"
    using decide_reason_no_SOH [of st ord] validate_fields(5) [of st ord t] assms by simp
  then show ?thesis by (simp add: exec_report_fields splitFields_built report_fields_ok)
qed

lemma job_response_built: "\<exists>body. snd (snd (job st oid raw t1 t2)) = buildMessage body"
  by (auto simp: job_def split: prod.splits sum.splits)

text \<open>
  Every answer the server sends, to an accepted, a rejected or an unparsable message, is a
  message its peer can read: it is framed, so that a reader extracts exactly it whatever
  follows, and its checksum is accepted.
\<close>

lemma answers_readable:
  assumes "length (snd (snd (job st oid raw t1 t2)) @ rest) < 2 ^ 64"
  shows "tryExtractMessage (snd (snd (job st oid raw t1 t2)) @ rest) =
      (Some (snd (snd (job st oid raw t1 t2))), rest) \<and>
    verifyChecksum (snd (snd (job st oid raw t1 t2)))"
proof -
  obtain body where "snd (snd (job st oid raw t1 t2)) = buildMessage body"
    using job_response_built by blast
  then show ?thesis using tryExtract_built [of body rest] verifyChecksum_built assms by simp
qed

lemma answers_readable_witness:
  "tryExtractMessage (snd (snd (job race_store 1 ''junk'' 0 0)) @ ''tail'') =
     (Some (snd (snd (job race_store 1 ''junk'' 0 0))), ''tail'')"
proof -
  have "snd (snd (job race_store 1 ''junk'' 0 0)) = buildMessage (reject_body ''bad_checksum'')"
    by (simp add: job_def parseOrder_def verifyChecksum_def str_rfind_def compare_eq_def substr_def
        numeral_2_eq_2)
  moreover have "length (buildMessage (reject_body ''bad_checksum'')) = 43" by code_simp
  ultimately have "length (snd (snd (job race_store 1 ''junk'' 0 0)) @ ''tail'') < 2 ^ 64" by simp
  from answers_readable [OF this] show ?thesis by simp
qed

lemma job_order:
  assumes "SOH \<notin> set symb" and "sd \<noteq> SOH" and "SOH \<notin> set clOrdId" and "wf_double p"
    and "ord = \<lparr>orderId = oid, accountId = account, symbol = symb,
      side = (if sd = CHR ''1'' then BUY else SELL), qty = q, price = six_decimals p,
      enqueueTime = t1\<rparr>"
    and "validate st ord t2 = (st', res)"
  shows "\<exists>answer. job st oid (buildNewOrderSingle account symb sd q p clOrdId) t1 t2
      = (st', oid + 1, answer) \<and>
    splitFields answer 35 = Some ''8'' \<and>
    splitFields answer 37 = Some (to_string (unat oid)) \<and>
    splitFields answer 39 = Some (if accepted res then ''0'' else ''8'') \<and>
    splitFields answer 58 = (if accepted res then None else Some (reason res))"
proof -
  from parseOrder_nos [OF assms(1,2) to_string_double_no_SOH assms(3) stod_six_decimals [OF assms(4)]]
  have "parseOrder (buildNewOrderSingle account symb sd q p clOrdId) oid t1 = (Inr ord, oid + 1)"
    by (simp add: buildNewOrderSingle_fields assms(5))
  moreover have "vr_orderId res = oid"
    using validate_fields(3) [of st ord t2] assms(5,6) by simp
  ultimately show ?thesis
    using assms(6) splitFields_report [OF assms(6)] by (simp add: job_def report_map)
qed

text \<open>For a price that is a whole number the six decimals change nothing.\<close>

lemma job_nos:
  assumes "SOH \<notin> set symb" and "sd \<noteq> SOH" and "SOH \<notin> set clOrdId" and "n \<le> 2 ^ 53"
    and "ord = \<lparr>orderId = oid, accountId = account, symbol = symb,
      side = (if sd = CHR ''1'' then BUY else SELL), qty = q, price = double_of_nat n,
      enqueueTime = t1\<rparr>"
    and "validate st ord t2 = (st', res)"
  shows "\<exists>answer. job st oid (buildNewOrderSingle account symb sd q (double_of_nat n) clOrdId) t1 t2
      = (st', oid + 1, answer) \<and>
    splitFields answer 35 = Some ''8'' \<and>
    splitFields answer 37 = Some (to_string (unat oid)) \<and>
    splitFields answer 39 = Some (if accepted res then ''0'' else ''8'') \<and>
    splitFields answer 58 = (if accepted res then None else Some (reason res))"
  by (rule job_order [OF assms(1-3) wf_double_of_nat _ assms(6)]) (simp add: assms(5) six_decimals_whole [OF assms(4)])

text \<open>
  C9. End to end: the bytes of a client's NewOrderSingle with any account, quantity and price, and
  with a symbol, a side and a clOrdId that do not contain the separator, once extracted, lead to
  exactly the validation of the order they encode, under the next order id; the answer is an
  execution report that carries this id, status 0 when the order is accepted and 8 with the reason
  of the rejection when it is not.  The message carries the price with six decimals, so the price
  of the order is \<open>six_decimals p\<close>: the price \<open>p\<close> itself for a whole number up to 2^53 (lemma
  \<open>six_decimals_whole\<close>) and for a number with six decimals up to 2^51 millionths (lemma
  \<open>six_decimals_keep\<close>), and NaN and the infinities for themselves.
\<close>

theorem order_end_to_end:
  assumes "SOH \<notin> set symb" and "sd \<noteq> SOH" and "SOH \<notin> set clOrdId" and "wf_double p"
    and "ord = \<lparr>orderId = oid, accountId = account, symbol = symb,
      side = (if sd = CHR ''1'' then BUY else SELL), qty = q, price = six_decimals p,
      enqueueTime = t1\<rparr>"
    and "validate st ord t2 = (st', res)"
  shows "\<exists>answer. job st oid (buildNewOrderSingle account symb sd q p clOrdId) t1 t2
      = (st', oid + 1, answer) \<and>
    splitFields answer 35 = Some ''8'' \<and>
    splitFields answer 37 = Some (to_string (unat oid)) \<and>
    splitFields answer 39 = Some (if accepted res then ''0'' else ''8'') \<and>
    splitFields answer 58 = (if accepted res then None else Some (reason res))"
  using assms by (rule job_order)

theorem order_end_to_end_witness:
  "\<exists>answer. job race_store 3 (buildNewOrderSingle 1 ''BTC-USD'' (CHR ''1'') 1 (double_of_nat 6000) ''c'') 0 0
      = (fst (validate race_store (race_order 3) 0), 4, answer) \<and>
    splitFields answer 39 = Some ''0''"
proof -
  have acc: "accepted (snd (validate race_store (race_order 3) 0))"
    by (simp add: validate_fields decide_accepted static_ok_def race_order_def allowedSymbols_def
        order_cost_def race_defs tryDebit_def dbl_simps)
  obtain st' res where v: "validate race_store (race_order 3) 0 = (st', res)" by fastforce
  have "six_decimals (double_of_nat 6000) = double_of_nat 6000" by (simp add: six_decimals_whole)
  with order_end_to_end [of "''BTC-USD''" "CHR ''1''" "''c''" "double_of_nat 6000" "race_order 3" 3 1 1 0 race_store 0 st' res]
  show ?thesis using v acc wf_double_of_nat [of 6000] by (auto simp: race_order_def)
qed

section \<open>A NaN price\<close>

lemma stod_nan: "stod ''nan'' = Inr NaN"
  by code_simp

text \<open>
  C37. Unlimited spending through the wire: the price text nan is read as NaN, which is not at
  most 0, so a BUY of any quantity on any existing account is accepted, whatever its balance,
  and the balance becomes NaN; after that every BUY of the account passes the balance check.
\<close>

theorem nan_order_accepted:
  assumes "symb \<in> set allowedSymbols" and "q \<noteq> 0" and "balances st account = Some b"
  shows "\<exists>st' answer.
    job st oid (buildMessage (enc_fields (nos_fields account symb (CHR ''1'') q ''nan'' ''x''))) t1 t2
      = (st', oid + 1, answer) \<and>
    splitFields answer 39 = Some ''0'' \<and> balances st' account = Some NaN \<and>
    (\<forall>amount. snd (tryDebit st' account amount))"
proof -
  define ord where "ord = \<lparr>orderId = oid, accountId = account, symbol = symb, side = BUY, qty = q,
    price = NaN, enqueueTime = t1\<rparr>"
  have "SOH \<notin> set symb" using assms(1) by (auto simp: allowedSymbols_def)
  then have p: "parseOrder (buildMessage (enc_fields (nos_fields account symb (CHR ''1'') q ''nan'' ''x'')))
      oid t1 = (Inr ord, oid + 1)"
    using parseOrder_nos [OF _ _ _ _ stod_nan] by (simp add: ord_def)
  obtain st' res where v: "validate st ord t2 = (st', res)" by fastforce
  have "order_cost ord = NaN" by (simp add: order_cost_def ord_def)
  then have "accepted res" and "balances st' account = Some NaN"
    using v validate_fields(1,2) [of st ord t2] assms
    by (auto simp: decide_accepted decide_store static_ok_def ord_def tryDebit_def)
  then show ?thesis
    using p v splitFields_report [OF v] by (simp add: job_def report_map tryDebit_def)
qed

theorem nan_order_accepted_witness:
  "\<exists>st' answer.
    job race_store 1 (buildMessage (enc_fields (nos_fields 1 ''BTC-USD'' (CHR ''1'') 1000000 ''nan'' ''x''))) 0 0
      = (st', 2, answer) \<and> splitFields answer 39 = Some ''0''"
  using nan_order_accepted [of "''BTC-USD''" 1000000 race_store 1 "double_of_nat 10000" 1 0 0]
  by (auto simp: allowedSymbols_def race_defs)

end
