(* ===== verification/Net.thy ===== *)
theory Net
  imports Server EventLoop
begin

text \<open>
  The server of include/EventLoop.hpp with its data: the descriptors and connections of theory
  Server, the receive buffer of each connection, the jobs that parse, validate and answer, the
  shared order counter and the shared store.
\<close>

section \<open>Reading\<close>

datatype recv_result = Bytes string | Eof | Again

text \<open>The loop of handleReadable around recv: the buffer afterwards, and whether the peer has closed.\<close>

fun recv_loop :: "recv_result list \<Rightarrow> string \<Rightarrow> string \<times> bool" where
  "recv_loop [] recvBuffer = (recvBuffer, False)"
| "recv_loop (Bytes tmp # rs) recvBuffer = recv_loop rs (recvBuffer @ tmp)"
| "recv_loop (Eof # rs) recvBuffer = (recvBuffer, True)"
| "recv_loop (Again # rs) recvBuffer = (recvBuffer, False)"

text \<open>
  What recv may return on one event: non-empty pieces of at most the size of \<open>tmp\<close>, then the end of
  the stream, or EAGAIN when the descriptor does not block.
\<close>

fun recv_ok :: "bool \<Rightarrow> recv_result list \<Rightarrow> bool" where
  "recv_ok nb [] = False"
| "recv_ok nb (Bytes tmp # rs) = (0 < length tmp \<and> length tmp \<le> 4096 \<and> recv_ok nb rs)"
| "recv_ok nb (Eof # rs) = (rs = [])"
| "recv_ok nb (Again # rs) = (nb \<and> rs = [])"

fun recv_bytes :: "recv_result list \<Rightarrow> string" where
  "recv_bytes (Bytes tmp # rs) = tmp @ recv_bytes rs"
| "recv_bytes _ = []"

lemma recv_loop_bytes: "fst (recv_loop rs b) = b @ recv_bytes rs"
  by (induction rs b rule: recv_loop.induct) simp_all

section \<open>State\<close>

text \<open>How far the lambda of a job has come before its safeSend.\<close>

datatype work = Parsed order | Answer string

text \<open>
  A job is named by its connection and its place there.  \<open>received\<close> are the bytes that came in on a
  connection, \<open>validated\<close> the orders in the order in which validate took effect with the clock
  readings, \<open>wire\<close> the bytes that each call of send put on a socket, with the job that called it,
  and \<open>sent\<close> the answers that were sent to the last byte, with the socket that byte went to.
\<close>

record net =
  srv :: server
  recvBuffer :: "nat \<Rightarrow> string"
  store :: account_store
  nextOrderId :: u64
  works :: "nat \<times> nat \<rightharpoonup> work"
  received :: "nat \<Rightarrow> string"
  validated :: "((nat \<times> nat) \<times> order \<times> int) list"
  wire :: "((nat \<times> nat) \<times> sock option \<times> string) list"
  sent :: "((nat \<times> nat) \<times> sock option \<times> string) list"

definition net_start :: "server \<Rightarrow> account_store \<Rightarrow> net" where
  "net_start s st = \<lparr>srv = s, recvBuffer = (\<lambda>_. []), store = st, nextOrderId = 1, works = Map.empty,
     received = (\<lambda>_. []), validated = [], wire = [], sent = []\<rparr>"

abbreviation nconn :: "net \<Rightarrow> nat \<Rightarrow> connection" where
  "nconn n k \<equiv> conn_of (srv n) k"

section \<open>Steps\<close>

text \<open>Job \<open>i\<close> of connection \<open>k\<close> with the answer \<open>a\<close> has made a step, after which the connection is \<open>c'\<close>.\<close>

definition answer_step :: "nat \<Rightarrow> nat \<Rightarrow> string \<Rightarrow> connection \<Rightarrow> net \<Rightarrow> net" where
  "answer_step k i a c' n =
     (let c = nconn n k; target = fds (srv n) (fd_of (srv n) k)
      in n\<lparr>srv := update_conn k c' (srv n),
           wire := wire n @ map (\<lambda>p. ((k, i), target, fst (snd p))) (drop (length (puts c)) (puts c')),
           sent := sent n @ (if length (answered c) < length (answered c') then [((k, i), target, a)] else [])\<rparr>)"

text \<open>
  The rule \<open>answers\<close> covers every result \<open>r\<close> that a call of send may have: all that is left, a part of
  it, or an error.
\<close>

inductive net_step :: "net \<Rightarrow> net \<Rightarrow> bool" where
  accepts: "waiting (srv n) \<Longrightarrow> listenFd (srv n) \<in> interest (srv n) \<Longrightarrow> fresh_fds rs (srv n) \<Longrightarrow>
     net_step n (n\<lparr>srv := handle_event (Event (listenFd (srv n)) rs False []) (srv n)\<rparr>)"
| readable: "waiting (srv n) \<Longrightarrow> fd \<in> interest (srv n) \<Longrightarrow> fd \<noteq> listenFd (srv n) \<Longrightarrow>
     connections (srv n) fd = Some k \<Longrightarrow> recv_ok (fd \<in> nonblocking (srv n)) rs \<Longrightarrow>
     recv_loop rs (recvBuffer n k) = (b, eof) \<Longrightarrow> extract_all b = Some (ms, b') \<Longrightarrow>
     net_step n (n\<lparr>srv := handle_event (Event fd [] eof ms) (srv n), recvBuffer := (recvBuffer n)(k := b'),
       received := (received n)(k := received n k @ recv_bytes rs)\<rparr>)"
| loop: "k < length (objs (srv n)) \<Longrightarrow>
     net_step n (n\<lparr>srv := update_conn k (loop_step (loop (nconn n k)) (nconn n k)) (srv n)\<rparr>)"
| parses: "k < length (objs (srv n)) \<Longrightarrow> i < length (jobs (nconn n k)) \<Longrightarrow> jobs (nconn n k) ! i = JWork rawMsg \<Longrightarrow>
     works n (k, i) = None \<Longrightarrow> parseOrder rawMsg (nextOrderId n) t1 = (Inr ord, oid) \<Longrightarrow>
     net_step n (n\<lparr>nextOrderId := oid, works := (works n)((k, i) \<mapsto> Parsed ord)\<rparr>)"
| rejects: "k < length (objs (srv n)) \<Longrightarrow> i < length (jobs (nconn n k)) \<Longrightarrow> jobs (nconn n k) ! i = JWork rawMsg \<Longrightarrow>
     works n (k, i) = None \<Longrightarrow> parseOrder rawMsg (nextOrderId n) t1 = (Inl rejectReason, oid) \<Longrightarrow>
     net_step n (n\<lparr>nextOrderId := oid, works := (works n)((k, i) \<mapsto> Answer (buildMessage (reject_body rejectReason)))\<rparr>)"
| validates: "works n (k, i) = Some (Parsed ord) \<Longrightarrow> validate (store n) ord t2 = (st', result) \<Longrightarrow>
     net_step n (n\<lparr>store := st', works := (works n)((k, i) \<mapsto> Answer (buildMessage (exec_report result))),
       validated := validated n @ [((k, i), ord, t2)]\<rparr>)"
| answers: "k < length (objs (srv n)) \<Longrightarrow> i < length (jobs (nconn n k)) \<Longrightarrow> works n (k, i) = Some (Answer a) \<Longrightarrow>
     job_step a r i (nconn n k) = Some c' \<Longrightarrow> net_step n (answer_step k i a c' n)"
| stops: "waiting (srv n) \<Longrightarrow> handleSigint (Some (srv n)) = Some s' \<Longrightarrow> net_step n (n\<lparr>srv := s'\<rparr>)"

text \<open>The data does not change what the sockets and connections do: every step is one of theory Server, or none.\<close>

lemma net_server:
  assumes "net_step n n'"
  shows "srv n' = srv n \<or> server_step (srv n) (srv n')"
  using assms
proof cases
  case (accepts rs)
  with server_step.event [of "srv n" "listenFd (srv n)" rs False "[]"] show ?thesis by simp
next
  case (readable fd k rs b eof ms b')
  with server_step.event [of "srv n" fd "[]" eof ms] show ?thesis by simp
next
  case (answers k i a r c')
  then show ?thesis using server_step.job [of k "srv n" i a r c'] by (simp add: answer_step_def Let_def)
qed (auto intro: server_step.intros)

lemma net_server_run:
  assumes "net_step\<^sup>*\<^sup>* n n'"
  shows "server_step\<^sup>*\<^sup>* (srv n) (srv n')"
  using assms
  by (induction rule: rtranclp_induct) (auto dest: net_server intro: rtranclp.rtrancl_into_rtrancl)

section \<open>Jobs and their messages\<close>

fun job_message :: "jpc \<Rightarrow> string option" where
  "job_message (JWork m) = Some m" | "job_message (JSend m a s) = Some m" | "job_message _ = None"

fun to_dispatch :: "lpc \<Rightarrow> string list" where
  "to_dispatch (LDisp eof ms) = ms" | "to_dispatch (LSub eof m ms) = m # ms" | "to_dispatch _ = []"

definition jobs_aligned :: "connection \<Rightarrow> bool" where
  "jobs_aligned c \<longleftrightarrow> length (jobs c) = length (arrived c) \<and>
     (\<forall>i < length (jobs c). \<forall>m. job_message (jobs c ! i) = Some m \<longrightarrow> m = arrived c ! i)"

lemma fin_frame: "arrived (fst (tryFinalize f c)) = arrived c" "puts (fst (tryFinalize f c)) = puts c"
    "failed (fst (tryFinalize f c)) = failed c" "dropped (fst (tryFinalize f c)) = dropped c"
    "writeMutex (fst (tryFinalize f c)) = writeMutex c" "jobs (fst (tryFinalize f c)) = jobs c" "loop (fst (tryFinalize f c)) = loop c"
  by (cases f; simp)+

definition same_sends :: "connection \<Rightarrow> connection \<Rightarrow> bool" where
  "same_sends c c' \<longleftrightarrow> puts c' = puts c \<and> failed c' = failed c \<and> dropped c' = dropped c \<and> writeMutex c' = writeMutex c"

lemma loop_step_jobs:
  shows "\<exists>ms. jobs (loop_step (loop c) c) = jobs c @ map JWork ms \<and> arrived (loop_step (loop c) c) = arrived c @ ms"
    and "same_sends c (loop_step (loop c) c)"
    and "arrived (loop_step (loop c) c) @ to_dispatch (loop (loop_step (loop c) c)) = arrived c @ to_dispatch (loop c)"
proof -
  have "(\<exists>ms. jobs (loop_step (loop c) c) = jobs c @ map JWork ms \<and> arrived (loop_step (loop c) c) = arrived c @ ms) \<and>
    same_sends c (loop_step (loop c) c) \<and>
    arrived (loop_step (loop c) c) @ to_dispatch (loop (loop_step (loop c) c)) = arrived c @ to_dispatch (loop c)"
  proof (cases "loop c")
    case (LDisp eof ms)
    then show ?thesis by (cases ms) (simp_all add: same_sends_def)
  next
    case (LSub eof m ms)
    then show ?thesis by (auto simp: same_sends_def intro: exI [of _ "[m]"])
  next
    case (LFin f)
    then show ?thesis using fin_frame [of f c] by (auto simp: same_sends_def split: prod.split)
  qed (simp_all add: same_sends_def)
  then show "\<exists>ms. jobs (loop_step (loop c) c) = jobs c @ map JWork ms \<and> arrived (loop_step (loop c) c) = arrived c @ ms"
    "same_sends c (loop_step (loop c) c)"
    "arrived (loop_step (loop c) c) @ to_dispatch (loop (loop_step (loop c) c)) = arrived c @ to_dispatch (loop c)"
    by blast+
qed

text \<open>The step of a job: its message stays its own until it is over.\<close>

lemma job_step_jobs:
  assumes "job_step a r i c = Some c'"
  obtains p where "jobs c' = (jobs c)[i := p]" "job_message p = None \<or> job_message p = job_message (jobs c ! i)"
    "arrived c' = arrived c" "loop c' = loop c"
proof -
  have A: "arrived c' = arrived c \<and> loop c' = loop c"
  proof (cases "jobs c ! i")
    case (JFin f)
    with assms fin_frame [of f c] show ?thesis by (auto simp: job_step_def send_enter_def split: if_splits prod.splits)
  qed (use assms in \<open>auto simp: job_step_def send_enter_def split: if_splits\<close>)
  from assms show thesis
  proof (cases rule: job_step_cases)
    case (round m a0 s0)
    from round(2) show thesis
      by (cases rule: send_round_cases [of s0 a0 r i m c]) (use round A that in simp_all)
  qed (use A that in simp_all)
qed

text \<open>
  A step that sends nothing: connections are added at the end, and to each connection only jobs with
  their messages.
\<close>

definition extends :: "server \<Rightarrow> server \<Rightarrow> bool" where
  "extends s t \<longleftrightarrow> length (objs s) \<le> length (objs t) \<and> delivered t = delivered s \<and>
     (\<forall>k < length (objs s). same_sends (conn_of s k) (conn_of t k) \<and>
        (\<exists>ms. jobs (conn_of t k) = jobs (conn_of s k) @ map JWork ms \<and> arrived (conn_of t k) = arrived (conn_of s k) @ ms)) \<and>
     (\<forall>k. length (objs s) \<le> k \<and> k < length (objs t) \<longrightarrow> conn_of t k = new_connection)"

lemma extends_accepts: "extends s (acceptNewConnections rs s)"
proof -
  obtain fs where "objs (acceptNewConnections rs s) = objs s @ map (\<lambda>f. (f, new_connection)) fs"
    "delivered (acceptNewConnections rs s) = delivered s" using accepts_objs by blast
  then show ?thesis by (auto simp: extends_def same_sends_def nth_append)
qed

lemma extends_route: "extends s (route fd eof ms s)"
proof (cases "connections s fd")
  case None
  then show ?thesis by (auto simp: route_def extends_def same_sends_def)
next
  case (Some k)
  have "objs (route fd eof ms s) = (objs s)[k := (fd_of s k, handleReadable eof ms (conn_of s k))]"
    "delivered (route fd eof ms s) = delivered s" using Some by (simp_all add: route_def Let_def)
  moreover have "jobs (snd ((objs s)[k := (fd_of s k, handleReadable eof ms (conn_of s k))] ! j)) = jobs (conn_of s j) \<and>
      arrived (snd ((objs s)[k := (fd_of s k, handleReadable eof ms (conn_of s k))] ! j)) = arrived (conn_of s j) \<and>
      same_sends (conn_of s j) (snd ((objs s)[k := (fd_of s k, handleReadable eof ms (conn_of s k))] ! j))"
    if "j < length (objs s)" for j
    using that by (cases "j = k") (simp_all add: handleReadable_def same_sends_def)
  ultimately show ?thesis by (auto simp: extends_def)
qed

lemma extends_loop:
  assumes "k < length (objs s)"
  shows "extends s (update_conn k (loop_step (loop (conn_of s k)) (conn_of s k)) s)"
proof -
  note L = loop_step_jobs [of "conn_of s k"]
  have "delivered (update_conn k (loop_step (loop (conn_of s k)) (conn_of s k)) s) = delivered s"
    using L(2) by (simp add: same_sends_def update_conn_def Let_def close_fd_def)
  moreover have "same_sends c c" for c by (simp add: same_sends_def)
  ultimately show ?thesis using L(1,2) assms by (auto simp: extends_def update_conn_fields(5) nth_list_update)
qed

lemma stop_objs:
  assumes "j < length (objs s)"
  shows "objs (stop s) ! j = objs s ! j \<or> connections s (fd_of s j) = Some j \<and> objs (stop s) ! j = stop_conn (objs s ! j)"
  using assms by (auto simp: stop_def Let_def close_fd_def)

lemma stop_lengths: "length (objs (stop s)) = length (objs s)" "delivered (stop s) = delivered s"
  by (simp_all add: stop_def Let_def close_fd_def)

lemma extends_stop: "extends s (stop s)"
proof -
  have "jobs (conn_of (stop s) j) = jobs (conn_of s j) \<and> arrived (conn_of (stop s) j) = arrived (conn_of s j) \<and>
      same_sends (conn_of s j) (conn_of (stop s) j)"
    if "j < length (objs s)" for j
    using stop_objs [OF that] by (auto simp: stop_conn_def same_sends_def)
  with stop_lengths show ?thesis by (auto simp: extends_def)
qed

lemma extends_job:
  assumes "extends s t" and "k < length (objs s)" and "i < length (jobs (conn_of s k))"
  shows "k < length (objs t)" and "i < length (jobs (conn_of t k))" and "jobs (conn_of t k) ! i = jobs (conn_of s k) ! i"
    and "length (jobs (conn_of s k)) = length (arrived (conn_of s k)) \<Longrightarrow> arrived (conn_of t k) ! i = arrived (conn_of s k) ! i"
  using assms by (auto simp: extends_def nth_append)

lemma extends_fresh_job:
  assumes "extends s t" and "k < length (objs t)" and "i < length (jobs (conn_of t k))"
  shows "(\<exists>m. jobs (conn_of t k) ! i = JWork m) \<or> k < length (objs s) \<and> i < length (jobs (conn_of s k))"
proof (cases "k < length (objs s)")
  case True
  with assms(1) obtain ms where "jobs (conn_of t k) = jobs (conn_of s k) @ map JWork ms" by (auto simp: extends_def)
  with assms(3) True show ?thesis by (auto simp: nth_append)
next
  case False
  with assms have "conn_of t k = new_connection" by (simp add: extends_def)
  with assms(3) show ?thesis by (simp add: new_connection_def)
qed

section \<open>The invariant\<close>

text \<open>What a job has computed, from its message and the orders validated so far.\<close>

fun work_ok :: "account_store \<Rightarrow> ((nat \<times> nat) \<times> order \<times> int) list \<Rightarrow> string \<Rightarrow> nat \<times> nat \<Rightarrow> work \<Rightarrow> bool" where
  "work_ok st0 vs m x (Parsed ord) \<longleftrightarrow> (\<exists>oid t1. fst (parseOrder m oid t1) = Inr ord) \<and> x \<notin> fst ` set vs"
| "work_ok st0 vs m x (Answer a) \<longleftrightarrow>
     (\<exists>oid t1 why. fst (parseOrder m oid t1) = Inl why \<and> a = buildMessage (reject_body why) \<and> x \<notin> fst ` set vs) \<or>
     (\<exists>p < length vs. \<exists>oid t1. fst (vs ! p) = x \<and> fst (parseOrder m oid t1) = Inr (fst (snd (vs ! p))) \<and>
        a = buildMessage (exec_report (snd (validate_all st0 (map snd vs)) ! p)))"

definition works_inv :: "account_store \<Rightarrow> net \<Rightarrow> bool" where
  "works_inv st0 n \<longleftrightarrow>
     (\<forall>k i w. works n (k, i) = Some w \<longrightarrow> k < length (objs (srv n)) \<and> i < length (jobs (nconn n k)) \<and>
        work_ok st0 (validated n) (arrived (nconn n k) ! i) (k, i) w) \<and>
     (\<forall>k i. k < length (objs (srv n)) \<longrightarrow> i < length (jobs (nconn n k)) \<longrightarrow>
        (\<exists>m. jobs (nconn n k) ! i = JWork m) \<or> (\<exists>a. works n (k, i) = Some (Answer a))) \<and>
     store n = fst (validate_all st0 (map snd (validated n))) \<and> distinct (map fst (validated n)) \<and>
     (\<forall>x \<in> fst ` set (validated n). \<exists>a. works n x = Some (Answer a))"

definition sent_inv :: "net \<Rightarrow> bool" where
  "sent_inv n \<longleftrightarrow> distinct (map fst (sent n)) \<and>
     (\<forall>k i so a. ((k, i), so, a) \<in> set (sent n) \<longrightarrow> works n (k, i) = Some (Answer a) \<and> k < length (objs (srv n)) \<and>
        i < length (jobs (nconn n k)) \<and> job_message (jobs (nconn n k) ! i) = None \<and>
        (a = [] \<or> (\<exists>b. ((k, i), so, b) \<in> set (wire n)))) \<and>
     (\<forall>k i so b. ((k, i), so, b) \<in> set (wire n) \<longrightarrow> k < length (objs (srv n)) \<and> i < length (jobs (nconn n k))) \<and>
     delivered (srv n) = map (\<lambda>((k, i), so, b). (k, so, arrived (nconn n k) ! i)) (wire n)"

text \<open>The entries of a job in a log, and the bytes in the log for a job or for a connection.\<close>

definition entries_of :: "nat \<times> nat \<Rightarrow> ((nat \<times> nat) \<times> sock option \<times> string) list \<Rightarrow> string list" where
  "entries_of x es = map (snd \<circ> snd) (filter (\<lambda>e. fst e = x) es)"

definition bytes_of :: "nat \<times> nat \<Rightarrow> ((nat \<times> nat) \<times> sock option \<times> string) list \<Rightarrow> string" where
  "bytes_of x es = concat (entries_of x es)"

definition bytes_to :: "nat \<Rightarrow> ((nat \<times> nat) \<times> sock option \<times> string) list \<Rightarrow> string" where
  "bytes_to k es = concat (map (snd \<circ> snd) (filter (\<lambda>e. fst (fst e) = k) es))"

text \<open>
  How far the answer of a job has come, from what it has computed, its bytes on the wire, its
  entries among the answers sent, whether a call of send has failed for it, and whether an answer
  of its connection was given up because the connection was not alive.
\<close>

fun status_ok :: "work option \<Rightarrow> string \<Rightarrow> string list \<Rightarrow> bool \<Rightarrow> bool \<Rightarrow> jpc \<Rightarrow> bool" where
  "status_ok w b answers fail dead (JWork m) = (b = [] \<and> answers = [] \<and> \<not> fail)"
| "status_ok w b answers fail dead (JSend m a s) = (w = Some (Answer a) \<and> b = take s a \<and> (s < length a \<or> a = []) \<and> answers = [] \<and> \<not> fail)"
| "status_ok w b answers fail dead p =
     (\<exists>a. w = Some (Answer a) \<and>
        (\<not> fail \<and> b = a \<and> answers = [a] \<or> fail \<and> (\<exists>s. b = take s a) \<and> answers = [] \<or>
         \<not> fail \<and> b = [] \<and> answers = [] \<and> dead))"

definition in_flight :: "connection \<Rightarrow> string" where
  "in_flight c =
     (case writeMutex c of
        Some i \<Rightarrow> (case jobs c ! i of JSend m a s \<Rightarrow> take s a | _ \<Rightarrow> [])
      | None \<Rightarrow> [])"

text \<open>
  The bytes on the wire are those of the answers: of each job a prefix of its answer, of a
  connection without a failing send the answers one after the other.
\<close>

definition conn_wire_ok :: "net \<Rightarrow> nat \<Rightarrow> bool" where
  "conn_wire_ok n k \<longleftrightarrow>
     (\<forall>i. i \<in> fst ` set (failed (nconn n k)) \<longrightarrow> i < length (jobs (nconn n k))) \<and>
     (\<forall>i < length (jobs (nconn n k)).
        status_ok (works n (k, i)) (bytes_of (k, i) (wire n)) (entries_of (k, i) (sent n))
          (i \<in> fst ` set (failed (nconn n k))) (dropped (nconn n k) \<noteq> []) (jobs (nconn n k) ! i)) \<and>
     (failed (nconn n k) = [] \<longrightarrow> bytes_to k (wire n) = bytes_to k (sent n) @ in_flight (nconn n k))"

definition wire_inv :: "net \<Rightarrow> bool" where
  "wire_inv n \<longleftrightarrow> (\<forall>k < length (objs (srv n)). conn_wire_ok n k)"

definition stream_ok :: "string \<Rightarrow> string \<Rightarrow> string list \<Rightarrow> bool" where
  "stream_ok x b ms \<longleftrightarrow>
     (\<forall>y bs. x @ y = built bs \<longrightarrow> length (built bs) < 2 ^ 64 \<longrightarrow>
        (\<exists>j. ms = map buildMessage (take j bs) \<and> x = built (take j bs) @ b \<and> b @ y = built (drop j bs) \<and> drained b (drop j bs)))"

definition stream_inv :: "net \<Rightarrow> bool" where
  "stream_inv n \<longleftrightarrow>
     (\<forall>k < length (objs (srv n)). jobs_aligned (nconn n k) \<and>
        stream_ok (received n k) (recvBuffer n k) (arrived (nconn n k) @ to_dispatch (loop (nconn n k)))) \<and>
     (\<forall>k. length (objs (srv n)) \<le> k \<longrightarrow> received n k = [] \<and> recvBuffer n k = [])"

subsection \<open>Jobs that do not send\<close>

lemma works_extends:
  assumes w: "works_inv st0 n" and a: "\<And>k. k < length (objs (srv n)) \<Longrightarrow> jobs_aligned (nconn n k)" and e: "extends (srv n) (srv n')"
    and f: "works n' = works n" "validated n' = validated n" "store n' = store n"
  shows "works_inv st0 n'"
proof -
  have old: "k < length (objs (srv n')) \<and> i < length (jobs (nconn n' k)) \<and>
      jobs (nconn n' k) ! i = jobs (nconn n k) ! i \<and> arrived (nconn n' k) ! i = arrived (nconn n k) ! i"
    if "k < length (objs (srv n))" "i < length (jobs (nconn n k))" for k i
    using extends_job [OF e that] a [OF that(1)] by (simp add: jobs_aligned_def)
  have "k < length (objs (srv n')) \<and> i < length (jobs (nconn n' k)) \<and>
      work_ok st0 (validated n') (arrived (nconn n' k) ! i) (k, i) u" if "works n' (k, i) = Some u" for k i u
  proof -
    have "k < length (objs (srv n))" "i < length (jobs (nconn n k))" "work_ok st0 (validated n) (arrived (nconn n k) ! i) (k, i) u"
      using w that unfolding works_inv_def f by blast+
    with old f show ?thesis by simp
  qed
  moreover have "(\<exists>m. jobs (nconn n' k) ! i = JWork m) \<or> (\<exists>a. works n' (k, i) = Some (Answer a))"
    if "k < length (objs (srv n'))" "i < length (jobs (nconn n' k))" for k i
    using extends_fresh_job [OF e that] w old [of k i] unfolding works_inv_def f by metis
  ultimately show ?thesis using w unfolding works_inv_def f by blast
qed

lemma sent_extends:
  assumes s: "sent_inv n" and a: "\<And>k. k < length (objs (srv n)) \<Longrightarrow> jobs_aligned (nconn n k)" and e: "extends (srv n) (srv n')"
    and f: "works n' = works n" "sent n' = sent n" "wire n' = wire n"
  shows "sent_inv n'"
proof -
  have old: "k < length (objs (srv n')) \<and> i < length (jobs (nconn n' k)) \<and>
      jobs (nconn n' k) ! i = jobs (nconn n k) ! i \<and> arrived (nconn n' k) ! i = arrived (nconn n k) ! i"
    if "k < length (objs (srv n))" "i < length (jobs (nconn n k))" for k i
    using extends_job [OF e that] a [OF that(1)] by (simp add: jobs_aligned_def)
  have S: "works n (k, i) = Some (Answer v)" "k < length (objs (srv n))" "i < length (jobs (nconn n k))"
      "job_message (jobs (nconn n k) ! i) = None" "v = [] \<or> (\<exists>b. ((k, i), so, b) \<in> set (wire n))"
    if "((k, i), so, v) \<in> set (sent n)" for k i so v
    using s that unfolding sent_inv_def by blast+
  have W: "k < length (objs (srv n)) \<and> i < length (jobs (nconn n k))" if "((k, i), so, b) \<in> set (wire n)" for k i so b
    using s that unfolding sent_inv_def by blast
  have "delivered (srv n') = map (\<lambda>((k, i), so, b). (k, so, arrived (nconn n k) ! i)) (wire n)"
    using s e by (simp add: sent_inv_def extends_def)
  also have "\<dots> = map (\<lambda>((k, i), so, b). (k, so, arrived (nconn n' k) ! i)) (wire n')"
    unfolding f by (rule map_cong) (use W old in \<open>auto split: prod.split\<close>)
  finally have "delivered (srv n') = map (\<lambda>((k, i), so, b). (k, so, arrived (nconn n' k) ! i)) (wire n')" .
  moreover have "works n' (k, i) = Some (Answer v) \<and> k < length (objs (srv n')) \<and> i < length (jobs (nconn n' k)) \<and>
      job_message (jobs (nconn n' k) ! i) = None \<and> (v = [] \<or> (\<exists>b. ((k, i), so, b) \<in> set (wire n')))"
    if "((k, i), so, v) \<in> set (sent n')" for k i so v
    using S [OF that [unfolded f]] old [of k i] f by simp
  moreover have "k < length (objs (srv n')) \<and> i < length (jobs (nconn n' k))" if "((k, i), so, b) \<in> set (wire n')" for k i so b
    using W [OF that [unfolded f]] old [of k i] by simp
  ultimately show ?thesis using s unfolding sent_inv_def f by blast
qed

lemma entries_none: "(\<And>so b. (x, so, b) \<notin> set es) \<Longrightarrow> entries_of x es = []"
  by (force simp: entries_of_def filter_empty_conv)

lemma bytes_to_none: "(\<And>i so b. ((k, i), so, b) \<notin> set es) \<Longrightarrow> bytes_to k es = []"
  by (force simp: bytes_to_def filter_empty_conv)

lemma net_lock:
  assumes "server_inv (srv n)" and "k < length (objs (srv n))"
  shows "lock_inv (nconn n k)"
  using server_invD(1) [OF assms] conn_invD(8) by (simp add: conn_ok_def)

lemma wire_extends:
  assumes w: "wire_inv n" and s: "sent_inv n" and inv: "server_inv (srv n)" and e: "extends (srv n) (srv n')"
    and f: "works n' = works n" "sent n' = sent n" "wire n' = wire n"
  shows "wire_inv n'"
  unfolding wire_inv_def
proof (intro allI impI)
  fix k assume k': "k < length (objs (srv n'))"
  have S: "k < length (objs (srv n)) \<and> i < length (jobs (nconn n k))" if "((k, i), so, v) \<in> set (sent n) \<union> set (wire n)" for k i so v
    using s that unfolding sent_inv_def by blast
  show "conn_wire_ok n' k"
  proof (cases "k < length (objs (srv n))")
    case False
    with e k' have "nconn n' k = new_connection" by (simp add: extends_def)
    moreover have "bytes_to k (wire n) = []" "bytes_to k (sent n) = []" by (rule bytes_to_none; use S False in blast)+
    ultimately show ?thesis by (simp add: conn_wire_ok_def f new_connection_def in_flight_def)
  next
    case True
    let ?c = "nconn n k" and ?c' = "nconn n' k"
    obtain ms where J: "jobs ?c' = jobs ?c @ map JWork ms" and SS: "same_sends ?c ?c'"
      using e True by (auto simp: extends_def)
    have W: "conn_wire_ok n k" using w True by (simp add: wire_inv_def)
    have "in_flight ?c' = in_flight ?c"
      using net_lock [OF inv True] SS
      by (auto simp: lock_inv_def same_sends_def in_flight_def J nth_append split: option.split)
    moreover have "status_ok (works n (k, i)) (bytes_of (k, i) (wire n)) (entries_of (k, i) (sent n))
        (i \<in> fst ` set (failed ?c)) (dropped ?c \<noteq> []) (jobs ?c' ! i)" if "i < length (jobs ?c')" for i
    proof (cases "i < length (jobs ?c)")
      case True
      with W show ?thesis by (simp add: conn_wire_ok_def J nth_append)
    next
      case False
      have "entries_of (k, i) (wire n) = []" "entries_of (k, i) (sent n) = []" by (rule entries_none; use S False in blast)+
      moreover have "i \<notin> fst ` set (failed ?c)" using W False unfolding conn_wire_ok_def by blast
      moreover have "jobs ?c' ! i = JWork (ms ! (i - length (jobs ?c)))" using that False by (simp add: J nth_append)
      ultimately show ?thesis by (simp add: bytes_of_def)
    qed
    ultimately show ?thesis using W SS unfolding conn_wire_ok_def f same_sends_def by (auto simp: J)
  qed
qed

text \<open>parseOrder or validate: only the data changes.\<close>

lemma status_no_answer:
  "status_ok w b answers fail dead p \<Longrightarrow> (\<And>a. w \<noteq> Some (Answer a)) \<Longrightarrow> status_ok w' b answers fail dead p"
  by (cases p) auto

lemma wire_data:
  assumes w: "wire_inv n" and na: "\<And>a. works n (k, i) \<noteq> Some (Answer a)"
    and f: "srv n' = srv n" "works n' = (works n)((k, i) \<mapsto> u)" "sent n' = sent n" "wire n' = wire n"
  shows "wire_inv n'"
  unfolding wire_inv_def
proof (intro allI impI)
  fix j assume j: "j < length (objs (srv n'))"
  have W: "conn_wire_ok n j" using w j f(1) by (simp add: wire_inv_def)
  have "status_ok (works n' (j, h)) (bytes_of (j, h) (wire n)) (entries_of (j, h) (sent n))
        (h \<in> fst ` set (failed (nconn n j))) (dropped (nconn n j) \<noteq> []) (jobs (nconn n j) ! h)"
    if "h < length (jobs (nconn n j))" for h
  proof (cases "(j, h) = (k, i)")
    case True
    have "status_ok (works n (j, h)) (bytes_of (j, h) (wire n)) (entries_of (j, h) (sent n))
        (h \<in> fst ` set (failed (nconn n j))) (dropped (nconn n j) \<noteq> []) (jobs (nconn n j) ! h)"
      using W that by (simp add: conn_wire_ok_def)
    then show ?thesis by (rule status_no_answer) (use na True in auto)
  next
    case False
    then have "works n' (j, h) = works n (j, h)" by (auto simp: f(2))
    with W that show ?thesis by (simp add: conn_wire_ok_def)
  qed
  with W show "conn_wire_ok n' j" unfolding conn_wire_ok_def f(1,3,4) by blast
qed

lemma validate_all_snoc:
  "validate_all st (os @ [(ord, t)]) =
     (let (st1, rs) = validate_all st os; (st2, r) = validate st1 ord t in (st2, rs @ [r]))"
  by (induction st os rule: validate_all.induct) (auto simp: Let_def split: prod.split)

lemma validate_all_length: "length (snd (validate_all st os)) = length os"
  by (induction st os rule: validate_all.induct) (auto simp: Let_def split: prod.split)

lemma work_ok_snoc:
  assumes "work_ok st0 vs m x w" and "x \<noteq> y"
  shows "work_ok st0 (vs @ [(y, ord, t)]) m x w"
proof (cases w)
  case (Answer a)
  have nth: "snd (validate_all st0 (map snd (vs @ [(y, ord, t)]))) ! p = snd (validate_all st0 (map snd vs)) ! p" if "p < length vs" for p
    using that validate_all_length [of st0 "map snd vs"]
    by (auto simp: validate_all_snoc Let_def nth_append split: prod.split)
  show ?thesis
  proof (cases "\<exists>oid t1 why. fst (parseOrder m oid t1) = Inl why \<and> a = buildMessage (reject_body why) \<and> x \<notin> fst ` set vs")
    case True
    then show ?thesis using assms(2) unfolding Answer by auto
  next
    case False
    then obtain p oid t1 where p: "p < length vs" "fst (vs ! p) = x" "fst (parseOrder m oid t1) = Inr (fst (snd (vs ! p)))"
        "a = buildMessage (exec_report (snd (validate_all st0 (map snd vs)) ! p))"
      using assms(1) unfolding Answer by auto
    have "fst ((vs @ [(y, ord, t)]) ! p) = x \<and> fst (parseOrder m oid t1) = Inr (fst (snd ((vs @ [(y, ord, t)]) ! p))) \<and>
        a = buildMessage (exec_report (snd (validate_all st0 (map snd (vs @ [(y, ord, t)]))) ! p))"
      using p nth [OF p(1)] by (simp add: nth_append)
    then show ?thesis unfolding Answer using p(1) by (auto intro!: exI [of _ p])
  qed
qed (use assms in auto)

lemma works_parse:
  assumes w: "works_inv st0 n" and k: "k < length (objs (srv n))" "i < length (jobs (nconn n k))"
    and fresh: "works n (k, i) = None"
    and ok: "work_ok st0 (validated n) (arrived (nconn n k) ! i) (k, i) u"
  shows "works_inv st0 (n\<lparr>nextOrderId := oid, works := (works n)((k, i) \<mapsto> u)\<rparr>)"
proof -
  let ?n' = "n\<lparr>nextOrderId := oid, works := (works n)((k, i) \<mapsto> u)\<rparr>"
  have jw: "\<exists>m. jobs (nconn n k) ! i = JWork m" using w k fresh unfolding works_inv_def by fastforce
  have nv: "(k, i) \<notin> fst ` set (validated n)" using w fresh unfolding works_inv_def by fastforce
  have "k' < length (objs (srv n)) \<and> i' < length (jobs (nconn n k')) \<and> work_ok st0 (validated n) (arrived (nconn n k') ! i') (k', i') u'"
    if "works ?n' (k', i') = Some u'" for k' i' u'
  proof (cases "(k', i') = (k, i)")
    case True
    with that k ok show ?thesis by simp
  next
    case False
    with that have "works n (k', i') = Some u'" by auto
    with w show ?thesis unfolding works_inv_def by blast
  qed
  moreover have "(\<exists>m. jobs (nconn n k') ! i' = JWork m) \<or> (\<exists>a. works ?n' (k', i') = Some (Answer a))"
    if "k' < length (objs (srv n))" "i' < length (jobs (nconn n k'))" for k' i'
    using w that jw unfolding works_inv_def by (cases "(k', i') = (k, i)") auto
  moreover have "\<exists>a. works ?n' x = Some (Answer a)" if "x \<in> fst ` set (validated n)" for x
  proof -
    have "x \<noteq> (k, i)" using that nv by metis
    moreover have "\<exists>a. works n x = Some (Answer a)" using w that unfolding works_inv_def by blast
    ultimately show ?thesis by simp
  qed
  ultimately show ?thesis using w unfolding works_inv_def by simp
qed

lemma works_validate:
  assumes w: "works_inv st0 n" and p: "works n (k, i) = Some (Parsed ord)"
    and v: "validate (store n) ord t2 = (st', result)"
  shows "works_inv st0 (n\<lparr>store := st', works := (works n)((k, i) \<mapsto> Answer (buildMessage (exec_report result))),
       validated := validated n @ [((k, i), ord, t2)]\<rparr>)" (is "works_inv st0 ?n'")
proof -
  let ?vs = "validated n @ [((k, i), ord, t2)]"
  have W: "k' < length (objs (srv n)) \<and> i' < length (jobs (nconn n k')) \<and> work_ok st0 (validated n) (arrived (nconn n k') ! i') (k', i') u"
    if "works n (k', i') = Some u" for k' i' u using w that unfolding works_inv_def by blast
  have st: "store n = fst (validate_all st0 (map snd (validated n)))" using w by (simp add: works_inv_def)
  obtain oid t1 where po: "fst (parseOrder (arrived (nconn n k) ! i) oid t1) = Inr ord" and nv: "(k, i) \<notin> fst ` set (validated n)"
    using W [OF p] by auto
  have va: "validate_all st0 (map snd ?vs) = (st', snd (validate_all st0 (map snd (validated n))) @ [result])"
    using v st by (auto simp: validate_all_snoc Let_def split: prod.split)
  have own: "work_ok st0 ?vs (arrived (nconn n k) ! i) (k, i) (Answer (buildMessage (exec_report result)))"
  proof -
    have "fst (?vs ! length (validated n)) = (k, i) \<and> fst (parseOrder (arrived (nconn n k) ! i) oid t1) = Inr (fst (snd (?vs ! length (validated n)))) \<and>
        buildMessage (exec_report result) = buildMessage (exec_report (snd (validate_all st0 (map snd ?vs)) ! length (validated n)))"
      using po va validate_all_length [of st0 "map snd (validated n)"] by (simp add: nth_append)
    then show ?thesis unfolding work_ok.simps
      by (intro disjI2 exI [of _ "length (validated n)"] conjI exI [of _ oid] exI [of _ t1]) simp_all
  qed
  have "k' < length (objs (srv n)) \<and> i' < length (jobs (nconn n k')) \<and> work_ok st0 ?vs (arrived (nconn n k') ! i') (k', i') u"
    if "works ?n' (k', i') = Some u" for k' i' u
  proof (cases "(k', i') = (k, i)")
    case True
    then have "k' = k" "i' = i" "u = Answer (buildMessage (exec_report result))" using that by simp_all
    with own W [OF p] show ?thesis by blast
  next
    case False
    with that have "works n (k', i') = Some u" by auto
    from W [OF this] work_ok_snoc [OF _ False] show ?thesis by blast
  qed
  moreover have "(\<exists>m. jobs (nconn n k') ! i' = JWork m) \<or> (\<exists>a. works ?n' (k', i') = Some (Answer a))"
    if "k' < length (objs (srv n))" "i' < length (jobs (nconn n k'))" for k' i'
    using w that unfolding works_inv_def by (cases "(k', i') = (k, i)") auto
  moreover have "distinct (map fst ?vs)" using w nv by (simp add: works_inv_def)
  moreover have "\<exists>a. works ?n' x = Some (Answer a)" if "x \<in> fst ` set ?vs" for x
    using w that unfolding works_inv_def by (cases "x = (k, i)") auto
  ultimately show ?thesis using va unfolding works_inv_def by simp
qed

subsection \<open>Jobs that send\<close>

text \<open>What a step of job \<open>i\<close> of connection \<open>k\<close> leaves alone.\<close>

lemma job_frame:
  assumes k: "k < length (objs s)" and i: "i < length (jobs (conn_of s k))" and st: "job_step a r i (conn_of s k) = Some c'"
  shows "length (objs (update_conn k c' s)) = length (objs s)"
    and "arrived (conn_of (update_conn k c' s) j) = arrived (conn_of s j)"
    and "loop (conn_of (update_conn k c' s) j) = loop (conn_of s j)"
    and "length (jobs (conn_of (update_conn k c' s) j)) = length (jobs (conn_of s j))"
    and "(j, h) \<noteq> (k, i) \<Longrightarrow> jobs (conn_of (update_conn k c' s) j) ! h = jobs (conn_of s j) ! h"
    and "jobs (conn_of (update_conn k c' s) k) = jobs c'"
proof -
  obtain p where p: "jobs c' = (jobs (conn_of s k))[i := p]" and A: "arrived c' = arrived (conn_of s k)" "loop c' = loop (conn_of s k)"
    by (rule job_step_jobs [OF st])
  note U = update_conn_fields(5) [of k c' s]
  have c: "conn_of (update_conn k c' s) j = (if j = k then c' else conn_of s j)" for j
    using k by (simp add: U)
  show "length (objs (update_conn k c' s)) = length (objs s)" by (simp add: U)
  show "arrived (conn_of (update_conn k c' s) j) = arrived (conn_of s j)" "loop (conn_of (update_conn k c' s) j) = loop (conn_of s j)"
    using A by (simp_all add: c)
  show "length (jobs (conn_of (update_conn k c' s) j)) = length (jobs (conn_of s j))" by (simp add: c p)
  show "jobs (conn_of (update_conn k c' s) j) ! h = jobs (conn_of s j) ! h" if "(j, h) \<noteq> (k, i)"
    using that by (auto simp: c p)
  show "jobs (conn_of (update_conn k c' s) k) = jobs c'" by (simp add: c)
qed

lemma works_answer:
  assumes w: "works_inv st0 n" and k: "k < length (objs (srv n))" "i < length (jobs (nconn n k))"
    and a: "works n (k, i) = Some (Answer a)" and st: "job_step a r i (nconn n k) = Some c'"
  shows "works_inv st0 (answer_step k i a c' n)"
proof -
  note F = job_frame [OF k st]
  have "(\<exists>m. jobs (conn_of (update_conn k c' (srv n)) j) ! h = JWork m) \<or> (\<exists>a. works n (j, h) = Some (Answer a))"
    if "j < length (objs (srv n))" "h < length (jobs (nconn n j))" for j h
  proof (cases "(j, h) = (k, i)")
    case False
    with w that F(5) [OF False] show ?thesis unfolding works_inv_def by simp
  qed (use a in simp)
  then show ?thesis using w unfolding works_inv_def by (simp add: answer_step_def Let_def F(1,2,4))
qed

text \<open>What a step of a job adds to the logs.\<close>

lemma job_step_logs:
  assumes "job_step a r i c = Some c'"
  obtains (same) "puts c' = puts c" "answered c' = answered c"
  | (part) m data s where "jobs c ! i = JSend m data s" "s < length data" "answered c' = answered c"
      "puts c' = puts c @ [(m, transferred data s r, closes c = 0)]"
  | (last) m data s where "jobs c ! i = JSend m data s" "jobs c' = (jobs c)[i := JDec]"
      "answered c' = answered c @ [(m, closes c = 0)]"
      "puts c' = puts c @ (if length data \<le> s then [] else [(m, transferred data s r, closes c = 0)])"
  using assms
proof (cases rule: job_step_cases)
  case (round m data s)
  from round(2) show thesis
    by (cases rule: send_round_cases [of s data r i m c]) (use round that in auto)
qed (use same in auto)

lemma sent_answer:
  assumes s: "sent_inv n" and w: "wire_inv n" and al: "jobs_aligned (nconn n k)"
    and k: "k < length (objs (srv n))" "i < length (jobs (nconn n k))"
    and a: "works n (k, i) = Some (Answer a)" and st: "job_step a r i (nconn n k) = Some c'"
  shows "sent_inv (answer_step k i a c' n)" (is "sent_inv ?n'")
proof -
  note F = job_frame [OF k st]
  let ?c = "nconn n k" and ?t = "update_conn k c' (srv n)" and ?so = "fds (srv n) (fd_of (srv n) k)"
  obtain p where p: "jobs c' = (jobs ?c)[i := p]" "job_message p = None \<or> job_message p = job_message (jobs ?c ! i)"
    by (rule job_step_jobs [OF st])
  have S: "works n (j, h) = Some (Answer v) \<and> j < length (objs (srv n)) \<and> h < length (jobs (nconn n j)) \<and>
      job_message (jobs (nconn n j) ! h) = None \<and> (v = [] \<or> (\<exists>b. ((j, h), so, b) \<in> set (wire n)))"
    if "((j, h), so, v) \<in> set (sent n)" for j h so v
    using s that unfolding sent_inv_def by blast
  have S': "works n (j, h) = Some (Answer v) \<and> j < length (objs (srv n)) \<and> h < length (jobs (nconn n j)) \<and>
      job_message (jobs (conn_of ?t j) ! h) = None \<and> (v = [] \<or> (\<exists>b. ((j, h), so, b) \<in> set (wire n)))"
    if "((j, h), so, v) \<in> set (sent n)" for j h so v
  proof (cases "(j, h) = (k, i)")
    case True
    with S [OF that] p(1,2) k show ?thesis by (auto simp: F(6))
  next
    case False
    with S [OF that] F(5) [OF False] show ?thesis by simp
  qed
  have W: "j < length (objs (srv n)) \<and> h < length (jobs (nconn n j))" if "((j, h), so, b) \<in> set (wire n)" for j h so b
    using s that unfolding sent_inv_def by blast
  have old: "delivered (srv n) = map (\<lambda>((j, h), so, b). (j, so, arrived (nconn n j) ! h)) (wire n)" "distinct (map fst (sent n))"
    using s by (simp_all add: sent_inv_def)
  obtain ps where ps: "puts c' = puts ?c @ ps" "\<And>q. q \<in> set ps \<Longrightarrow> fst q = arrived ?c ! i"
    using st
  proof (cases rule: job_step_logs)
    case same
    with that [of "[]"] show thesis by simp
  next
    case (part m data s)
    then have "m = arrived ?c ! i" using al k(2) by (simp add: jobs_aligned_def)
    with that part show thesis by simp
  next
    case (last m data s)
    then have "m = arrived ?c ! i" using al k(2) by (simp add: jobs_aligned_def)
    then show thesis by (intro that [OF last(4)]) (simp split: if_splits)
  qed
  have "delivered ?t = delivered (srv n) @ map (\<lambda>q. (k, ?so, arrived ?c ! i)) ps"
    using ps(2) by (simp add: update_conn_def Let_def close_fd_def ps(1))
  then have del: "delivered (srv ?n') = map (\<lambda>((j, h), so, b). (j, so, arrived (nconn ?n' j) ! h)) (wire ?n')"
    by (simp add: answer_step_def Let_def old(1) ps(1) F(2) comp_def)
  have wires: "((j, h), so, b) \<in> set (wire ?n') \<Longrightarrow> j < length (objs (srv n)) \<and> h < length (jobs (nconn n j))" for j h so b
    using W k by (auto simp: answer_step_def Let_def)
  have incl: "set (wire n) \<subseteq> set (wire ?n')" by (auto simp: answer_step_def Let_def)
  have G: "works ?n' = works n" "length (objs (srv ?n')) = length (objs (srv n))"
    "\<And>j. length (jobs (nconn ?n' j)) = length (jobs (nconn n j))" "srv ?n' = ?t"
    by (simp_all add: answer_step_def Let_def F(1,4))
  have conclude: "sent_inv ?n'" if "distinct (map fst (sent ?n'))"
    and "\<And>j h so v. ((j, h), so, v) \<in> set (sent ?n') \<Longrightarrow>
      works n (j, h) = Some (Answer v) \<and> j < length (objs (srv n)) \<and> h < length (jobs (nconn n j)) \<and>
      job_message (jobs (conn_of ?t j) ! h) = None \<and> (v = [] \<or> (\<exists>b. ((j, h), so, b) \<in> set (wire ?n')))"
    unfolding sent_inv_def G(1-3) using that wires del unfolding G(4) by blast
  show ?thesis
    using st
  proof (cases rule: job_step_logs)
    case (last m data s)
    then have n: "sent ?n' = sent n @ [((k, i), ?so, a)]" by (simp add: answer_step_def Let_def)
    have "status_ok (works n (k, i)) (bytes_of (k, i) (wire n)) (entries_of (k, i) (sent n))
          (i \<in> fst ` set (failed ?c)) (dropped ?c \<noteq> []) (JSend m data s)"
      using w k last(1) unfolding wire_inv_def conn_wire_ok_def by metis
    then have d: "data = a" "s < length a \<or> a = []" using a by auto
    have "(k, i) \<notin> fst ` set (sent n)"
    proof
      assume "(k, i) \<in> fst ` set (sent n)"
      then obtain so v where "((k, i), so, v) \<in> set (sent n)" by auto
      from S [OF this] last(1) show False by simp
    qed
    then have "distinct (map fst (sent ?n'))" using old(2) by (simp add: n)
    moreover have "a = [] \<or> (\<exists>b. ((k, i), ?so, b) \<in> set (wire ?n'))"
      using d last(4) by (auto simp: answer_step_def Let_def)
    moreover have "job_message (jobs (conn_of ?t k) ! i) = None" using last(2) k(2) by (simp add: F(6))
    ultimately have "works n (j, h) = Some (Answer v) \<and> j < length (objs (srv n)) \<and> h < length (jobs (nconn n j)) \<and>
        job_message (jobs (conn_of ?t j) ! h) = None \<and> (v = [] \<or> (\<exists>b. ((j, h), so, b) \<in> set (wire ?n')))"
      if "((j, h), so, v) \<in> set (sent ?n')" for j h so v
      using that S' [of j h so v] incl a k unfolding n by auto
    from conclude [OF \<open>distinct (map fst (sent ?n'))\<close> this] show ?thesis .
  next
    case same
    then have n: "sent ?n' = sent n" by (simp add: answer_step_def Let_def)
    show ?thesis by (rule conclude; unfold n) (use old(2) S' incl in blast)+
  next
    case (part m data s)
    then have n: "sent ?n' = sent n" by (simp add: answer_step_def Let_def)
    show ?thesis by (rule conclude; unfold n) (use old(2) S' incl in blast)+
  qed
qed

text \<open>The bytes on the wire after the step of a job.\<close>

lemma entries_append: "entries_of x (es @ es') = entries_of x es @ entries_of x es'"
  by (simp add: entries_of_def)

lemma bytes_of_append: "bytes_of x (es @ es') = bytes_of x es @ bytes_of x es'"
  by (simp add: bytes_of_def entries_append)

lemma bytes_to_append: "bytes_to k (es @ es') = bytes_to k es @ bytes_to k es'"
  by (simp add: bytes_to_def)

lemma log_single [simp]:
  "entries_of x [] = []" "bytes_of x [] = []" "bytes_to k [] = []"
  "entries_of x [(y, so, b)] = (if y = x then [b] else [])" "bytes_of x [(y, so, b)] = (if y = x then b else [])"
  "bytes_to k [(y, so, b)] = (if fst y = k then b else [])"
  by (simp_all add: entries_of_def bytes_of_def bytes_to_def)

lemma take_transferred: "take s a @ transferred a s r = take (s + nat r) a"
  by (simp add: transferred_def take_add)

lemma status_dead: "status_ok w b answers fail dead p \<Longrightarrow> (dead \<Longrightarrow> dead') \<Longrightarrow> status_ok w b answers fail dead' p"
  by (cases p) auto

lemma in_flight_idle: "writeMutex c = None \<Longrightarrow> in_flight c = []"
  by (simp add: in_flight_def)

lemma in_flight_sending: "writeMutex c = Some i \<Longrightarrow> jobs c ! i = JSend m a s \<Longrightarrow> in_flight c = take s a"
  by (simp add: in_flight_def)

text \<open>
  The job itself, and its connection: \<open>dw\<close> and \<open>ds\<close> are what the step appends to the two logs, with
  \<open>b\<close> the bytes of the job and \<open>W\<close>, \<open>S\<close> the bytes of the connection before.
\<close>

lemma own_status:
  assumes st: "job_step a r i c = Some c'" and i: "i < length (jobs c)" and w: "w = Some (Answer a)"
    and s: "status_ok w b answers (i \<in> fst ` set (failed c)) (dropped c \<noteq> []) (jobs c ! i)"
    and lk: "lock_inv c"
  shows "status_ok w (b @ concat (map (fst \<circ> snd) (drop (length (puts c)) (puts c'))))
      (answers @ (if length (answered c) < length (answered c') then [a] else []))
      (i \<in> fst ` set (failed c')) (dropped c' \<noteq> []) (jobs c' ! i)"
    and "failed c' = [] \<Longrightarrow> W = S @ in_flight c \<Longrightarrow>
      W @ concat (map (fst \<circ> snd) (drop (length (puts c)) (puts c'))) =
      (S @ (if length (answered c) < length (answered c') then a else [])) @ in_flight c'"
proof -
  have mx: "writeMutex c = Some i" if "jobs c ! i = JSend m d t" for m d t
    using lk i that unfolding lock_inv_def by (metis sending.simps(1))
  have fl: "in_flight c' = in_flight c" if "writeMutex c' = writeMutex c" "jobs c' = (jobs c)[i := v]" "\<not> sending (jobs c ! i)" for v
  proof (cases "writeMutex c")
    case (Some j)
    then have "sending (jobs c ! j)" using lk unfolding lock_inv_def by blast
    then have "j \<noteq> i" using that(3) by metis
    with that Some show ?thesis by (simp add: in_flight_def)
  qed (use that in \<open>simp add: in_flight_idle\<close>)
  show "status_ok w (b @ concat (map (fst \<circ> snd) (drop (length (puts c)) (puts c'))))
      (answers @ (if length (answered c) < length (answered c') then [a] else []))
      (i \<in> fst ` set (failed c')) (dropped c' \<noteq> []) (jobs c' ! i)"
    using st
  proof (cases rule: job_step_cases)
    case (after f)
    from after(1) have "status_ok w b answers fail dead (jobs c ! i) = status_ok w b answers fail dead (JFin f)" for fail dead
      by (elim disjE exE) simp_all
    with s after i show ?thesis by (simp del: status_ok.simps)
  next
    case (round m d t)
    have d: "d = a" "b = take t a" "t < length a \<or> a = []" "answers = []" "i \<notin> fst ` set (failed c)"
      using s w unfolding round(1) by simp_all
    show ?thesis
    proof (cases rule: send_round_cases [of t d r i m c])
      case more
      with round(2) d i w show ?thesis by (simp add: take_transferred)
    next
      case all
      have "take t a @ (if length a \<le> t then [] else transferred a t r) = a"
        using all(1) d(1,3) by (auto simp: take_transferred)
      with all round(2) d i w show ?thesis by (simp split: if_splits)
    next
      case failed
      then have "status_ok w b answers True (dropped c' \<noteq> []) JDec" using d w by auto
      with failed round(2) i show ?thesis by (simp del: status_ok.simps)
    qed
  next
    case (lock m)
    with s i w show ?thesis by simp
  next
    case (dead m)
    with s i w show ?thesis by simp
  qed
  show "W @ concat (map (fst \<circ> snd) (drop (length (puts c)) (puts c'))) =
      (S @ (if length (answered c) < length (answered c') then a else [])) @ in_flight c'"
    if nf: "failed c' = []" and W: "W = S @ in_flight c"
    using st
  proof (cases rule: job_step_cases)
    case (lock m)
    then have "in_flight c' = []" "in_flight c = []" using i by (simp_all add: in_flight_def)
    with lock W show ?thesis by simp
  next
    case (dead m)
    with fl [of JDec] W show ?thesis by simp
  next
    case (after f)
    with fl [of "JFin f"] W show ?thesis by auto
  next
    case (round m d t)
    have d: "d = a" "t < length a \<or> a = []" using s w round(1) by auto
    have fc: "in_flight c = take t a" using in_flight_sending [OF mx [OF round(1)] round(1)] d by simp
    show ?thesis
    proof (cases rule: send_round_cases [of t d r i m c])
      case more
      then have "in_flight c' = take (t + nat r) a"
        using round(2) d i mx [OF round(1)] by (simp add: in_flight_sending)
      with more round(2) d W fc show ?thesis by (simp add: take_transferred)
    next
      case all
      then have "in_flight c' = []" using round(2) by (simp add: in_flight_idle)
      moreover have "take t a @ (if length d \<le> t then [] else transferred d t r) = a"
        using all(1) d by (auto simp: take_transferred)
      ultimately show ?thesis using all(4,6) round(2) d W fc by (simp split: if_splits)
    qed (use nf round(2) in simp)
  qed
qed

lemma job_step_failed:
  assumes "job_step a r i c = Some c'"
  shows "failed c' = failed c \<or> (\<exists>m. failed c' = failed c @ [(i, m)])" and "dropped c \<noteq> [] \<Longrightarrow> dropped c' \<noteq> []"
proof -
  have "(failed c' = failed c \<or> (\<exists>m. failed c' = failed c @ [(i, m)])) \<and> (dropped c \<noteq> [] \<longrightarrow> dropped c' \<noteq> [])"
    using assms
  proof (cases rule: job_step_cases)
    case (round m d t)
    then show ?thesis by (cases rule: send_round_cases [of t d r i m c]) simp_all
  qed simp_all
  then show "failed c' = failed c \<or> (\<exists>m. failed c' = failed c @ [(i, m)])" "dropped c \<noteq> [] \<Longrightarrow> dropped c' \<noteq> []"
    by blast+
qed

lemma log_job:
  "bytes_of x (map (\<lambda>p. (y, so, f p)) ps) = (if y = x then concat (map f ps) else [])"
  "bytes_to k (map (\<lambda>p. (y, so, f p)) ps) = (if fst y = k then concat (map f ps) else [])"
  by (auto simp: bytes_of_def entries_of_def bytes_to_def filter_map comp_def)

lemma wire_answer:
  assumes w: "wire_inv n" and inv: "server_inv (srv n)"
    and k: "k < length (objs (srv n))" "i < length (jobs (nconn n k))"
    and a: "works n (k, i) = Some (Answer a)" and st: "job_step a r i (nconn n k) = Some c'"
  shows "wire_inv (answer_step k i a c' n)" (is "wire_inv ?n'")
  unfolding wire_inv_def
proof (intro allI impI)
  note F = job_frame [OF k st]
  let ?c = "nconn n k" and ?so = "fds (srv n) (fd_of (srv n) k)" and ?ps = "drop (length (puts (nconn n k))) (puts c')"
  fix j assume "j < length (objs (srv ?n'))"
  then have j: "j < length (objs (srv n))" by (simp add: answer_step_def Let_def F(1))
  have n': "works ?n' = works n" "wire ?n' = wire n @ map (\<lambda>p. ((k, i), ?so, (fst \<circ> snd) p)) ?ps"
    "sent ?n' = sent n @ (if length (answered ?c) < length (answered c') then [((k, i), ?so, a)] else [])"
    by (simp_all add: answer_step_def Let_def)
  have cj: "nconn ?n' j = (if j = k then c' else nconn n j)"
    using k by (simp add: answer_step_def Let_def update_conn_fields(5))
  have W: "conn_wire_ok n j" using w j by (simp add: wire_inv_def)
  have other: "bytes_of x (wire ?n') = bytes_of x (wire n)" "entries_of x (sent ?n') = entries_of x (sent n)" if "x \<noteq> (k, i)" for x
    using that by (auto simp: n' bytes_of_append entries_append log_job)
  show "conn_wire_ok ?n' j"
  proof (cases "j = k")
    case False
    then have "bytes_to j (wire ?n') = bytes_to j (wire n)" "bytes_to j (sent ?n') = bytes_to j (sent n)"
      by (simp_all add: n' bytes_to_append log_job)
    moreover have "bytes_of (j, h) (wire ?n') = bytes_of (j, h) (wire n)" "entries_of (j, h) (sent ?n') = entries_of (j, h) (sent n)" for h
      using other [of "(j, h)"] False by simp_all
    ultimately show ?thesis using W False unfolding conn_wire_ok_def cj n'(1) by simp
  next
    case True
    obtain p where p: "jobs c' = (jobs ?c)[i := p]" by (rule job_step_jobs [OF st])
    have b: "bytes_of (k, i) (wire ?n') = bytes_of (k, i) (wire n) @ concat (map (fst \<circ> snd) ?ps)"
      "entries_of (k, i) (sent ?n') = entries_of (k, i) (sent n) @ (if length (answered ?c) < length (answered c') then [a] else [])"
      "bytes_to k (wire ?n') = bytes_to k (wire n) @ concat (map (fst \<circ> snd) ?ps)"
      "bytes_to k (sent ?n') = bytes_to k (sent n) @ (if length (answered ?c) < length (answered c') then a else [])"
      by (simp_all add: n' bytes_of_append entries_append bytes_to_append log_job comp_def)
    have S: "status_ok (works n (k, h)) (bytes_of (k, h) (wire n)) (entries_of (k, h) (sent n))
        (h \<in> fst ` set (failed ?c)) (dropped ?c \<noteq> []) (jobs ?c ! h)" if "h < length (jobs ?c)" for h
      using W that True by (simp add: conn_wire_ok_def)
    note own = own_status [OF st k(2) a S [OF k(2)] net_lock [OF inv k(1)]]
    have "h < length (jobs c')" if "h \<in> fst ` set (failed c')" for h
    proof -
      have "h \<in> fst ` set (failed ?c) \<or> h = i" using job_step_failed(1) [OF st] that by auto
      with W k(2) True show ?thesis unfolding conn_wire_ok_def p length_list_update by blast
    qed
    moreover have "status_ok (works n (k, h)) (bytes_of (k, h) (wire ?n')) (entries_of (k, h) (sent ?n'))
        (h \<in> fst ` set (failed c')) (dropped c' \<noteq> []) (jobs c' ! h)" if "h < length (jobs c')" for h
    proof (cases "h = i")
      case True
      with own(1) show ?thesis by (simp only: b)
    next
      case False
      then have "h \<in> fst ` set (failed c') \<longleftrightarrow> h \<in> fst ` set (failed ?c)" using job_step_failed(1) [OF st] by auto
      then have "status_ok (works n (k, h)) (bytes_of (k, h) (wire ?n')) (entries_of (k, h) (sent ?n'))
        (h \<in> fst ` set (failed c')) (dropped ?c \<noteq> []) (jobs c' ! h)"
        using S [of h] that False other [of "(k, h)"] by (simp add: p)
      then show ?thesis by (rule status_dead) (rule job_step_failed(2) [OF st])
    qed
    moreover have "bytes_to k (wire ?n') = bytes_to k (sent ?n') @ in_flight c'" if nf: "failed c' = []"
    proof -
      have "failed ?c = []" using job_step_failed(1) [OF st] nf by auto
      then have "bytes_to k (wire n) = bytes_to k (sent n) @ in_flight ?c" using W True by (simp add: conn_wire_ok_def)
      from own(2) [OF nf this] show ?thesis by (simp only: b)
    qed
    ultimately show ?thesis using True unfolding conn_wire_ok_def cj n'(1) by simp
  qed
qed

subsection \<open>The streams\<close>

lemma stream_idle: "jobs_aligned new_connection" "to_dispatch (loop new_connection) = []" "arrived new_connection = []"
  by (simp_all add: jobs_aligned_def new_connection_def)

lemma stream_start: "stream_ok [] [] []"
  unfolding stream_ok_def by (auto intro!: exI [of _ 0] simp: drained_Nil)

lemma aligned_extends:
  assumes "jobs_aligned c" and "jobs c' = jobs c @ map JWork ms" and "arrived c' = arrived c @ ms"
  shows "jobs_aligned c'"
  using assms by (auto simp: jobs_aligned_def nth_append)

text \<open>One call of handleReadable: the new bytes complete some more messages.\<close>

lemma stream_read:
  assumes ok: "stream_ok x b ms" and e: "extract_all (b @ z) = Some (ms', b')"
  shows "stream_ok (x @ z) b' (ms @ ms')"
  unfolding stream_ok_def
proof (intro allI impI)
  fix y bs assume y: "(x @ z) @ y = built bs" and l: "length (built bs) < 2 ^ 64"
  from y l ok obtain j where j: "ms = map buildMessage (take j bs)" "x = built (take j bs) @ b" "b @ z @ y = built (drop j bs)"
    unfolding stream_ok_def by (metis append.assoc)
  have "length (built (drop j bs)) \<le> length (built bs)" unfolding j(3) [symmetric] y [symmetric] j(2) by simp
  with l have l': "length (built (drop j bs)) < 2 ^ 64" by (rule le_less_trans [rotated])
  obtain i p where p: "b @ z = built (take i (drop j bs)) @ p" "p @ y = built (drop i (drop j bs))" "drained p (drop i (drop j bs))"
      "extract_all (b @ z) = Some (map buildMessage (take i (drop j bs)), p)"
    using extract_all_prefix [of "b @ z" y "drop j bs", OF _ l'] j(3) by auto
  have t: "take (j + i) bs = take j bs @ take i (drop j bs)" by (rule take_add)
  show "\<exists>h. ms @ ms' = map buildMessage (take h bs) \<and> x @ z = built (take h bs) @ b' \<and> b' @ y = built (drop h bs) \<and> drained b' (drop h bs)"
    using j p e by (intro exI [of _ "j + i"]) (auto simp: t add.commute [of i j])
qed

lemma stream_conn:
  assumes i: "stream_inv n" and len: "length (objs (srv n')) = length (objs (srv n))"
    and f: "received n' = received n" "recvBuffer n' = recvBuffer n"
    and c: "\<And>j. j < length (objs (srv n)) \<Longrightarrow> jobs_aligned (nconn n' j) \<and>
      arrived (nconn n' j) @ to_dispatch (loop (nconn n' j)) = arrived (nconn n j) @ to_dispatch (loop (nconn n j))"
  shows "stream_inv n'"
  using i c unfolding stream_inv_def len f by simp

lemma stream_step:
  assumes i: "stream_inv n" and inv: "server_inv (srv n)" and st: "net_step n n'"
  shows "stream_inv n'"
proof -
  have al: "jobs_aligned (nconn n j)" if "j < length (objs (srv n))" for j using i that by (simp add: stream_inv_def)
  from st show ?thesis
  proof cases
    case (accepts rs)
    obtain fs where fs: "objs (srv n') = objs (srv n) @ map (\<lambda>f. (f, new_connection)) fs"
      using accepts accepts_objs [of rs "srv n"] by auto
    have "jobs_aligned (nconn n' j) \<and> stream_ok (received n j) (recvBuffer n j) (arrived (nconn n' j) @ to_dispatch (loop (nconn n' j)))"
      if "j < length (objs (srv n'))" for j
    proof (cases "j < length (objs (srv n))")
      case True
      with i show ?thesis by (simp add: stream_inv_def fs nth_append)
    next
      case False
      with that have "nconn n' j = new_connection" by (simp add: fs nth_append)
      moreover have "received n j = []" "recvBuffer n j = []" using i False by (simp_all add: stream_inv_def)
      ultimately show ?thesis using stream_idle stream_start by simp
    qed
    moreover have "length (objs (srv n)) \<le> length (objs (srv n'))" by (simp add: fs)
    ultimately show ?thesis using i accepts(1) unfolding stream_inv_def by simp
  next
    case (readable fd k rs b eof ms b')
    have k: "k < length (objs (srv n))" "fd_of (srv n) k = fd" using server_invD(3) [OF inv readable(5)] by auto
    have "routed (nconn n k)" using server_invD(1) [OF inv k(1)] readable(5) k(2) by (simp add: conn_ok_def)
    then have idle: "loop (nconn n k) = LIdle" by (rule routed_idle [OF inv readable(2) k(1)])
    have b: "b = recvBuffer n k @ recv_bytes rs" using recv_loop_bytes [of rs "recvBuffer n k"] readable(7) by simp
    have "stream_ok (received n k) (recvBuffer n k) (arrived (nconn n k) @ to_dispatch (loop (nconn n k)))"
      using i k(1) by (simp add: stream_inv_def)
    then have "stream_ok (received n k) (recvBuffer n k) (arrived (nconn n k))" by (simp add: idle)
    from stream_read [OF this readable(8) [unfolded b]]
    have ok: "stream_ok (received n k @ recv_bytes rs) b' (arrived (nconn n k) @ ms)" .
    have ob: "objs (srv n') = (objs (srv n))[k := (fd, handleReadable eof ms (nconn n k))]"
      using readable(1,4,5) k(2) by (simp add: route_def Let_def)
    have nc: "nconn n' j = (if j = k then handleReadable eof ms (nconn n k) else nconn n j)" for j using k(1) by (simp add: ob)
    have "jobs_aligned (handleReadable eof ms (nconn n k))" using al [OF k(1)] by (simp add: jobs_aligned_def handleReadable_def)
    moreover have "arrived (handleReadable eof ms (nconn n k)) @ to_dispatch (loop (handleReadable eof ms (nconn n k))) = arrived (nconn n k) @ ms"
      by (simp add: handleReadable_def)
    moreover have "received n' = (received n)(k := received n k @ recv_bytes rs)" "recvBuffer n' = (recvBuffer n)(k := b')"
      "length (objs (srv n')) = length (objs (srv n))" unfolding ob by (simp_all add: readable(1))
    ultimately show ?thesis using i ok k(1) unfolding stream_inv_def nc by simp
  next
    case (loop k)
    have ob: "objs (srv n') = (objs (srv n))[k := (fd_of (srv n) k, loop_step (loop (nconn n k)) (nconn n k))]"
      by (simp add: loop(1) update_conn_fields(5))
    note L = loop_step_jobs [of "nconn n k"]
    show ?thesis
    proof (rule stream_conn [OF i])
      show "jobs_aligned (nconn n' j) \<and> arrived (nconn n' j) @ to_dispatch (loop (nconn n' j)) = arrived (nconn n j) @ to_dispatch (loop (nconn n j))"
        if "j < length (objs (srv n))" for j
        using L(1,3) al [OF that] aligned_extends [OF al [OF that]] loop(2) by (cases "j = k") (auto simp: ob)
    qed (simp_all add: loop(1) update_conn_fields(5))
  next
    case (answers k i a r c')
    have n': "srv n' = update_conn k c' (srv n)" "received n' = received n" "recvBuffer n' = recvBuffer n"
      by (simp_all add: answers(1) answer_step_def Let_def)
    note F = job_frame [OF answers(2,3,5)]
    obtain p where p: "jobs c' = (jobs (nconn n k))[i := p]" "job_message p = None \<or> job_message p = job_message (jobs (nconn n k) ! i)"
      by (rule job_step_jobs [OF answers(5)])
    show ?thesis
    proof (rule stream_conn [OF i])
      show "jobs_aligned (nconn n' j) \<and> arrived (nconn n' j) @ to_dispatch (loop (nconn n' j)) = arrived (nconn n j) @ to_dispatch (loop (nconn n j))"
        if j: "j < length (objs (srv n))" for j
      proof -
        have "m = arrived (nconn n j) ! h" if "h < length (jobs (nconn n j))" "job_message (jobs (nconn n' j) ! h) = Some m" for h m
        proof (cases "(j, h) = (k, i)")
          case True
          with that p have "job_message (jobs (nconn n j) ! h) = Some m" using answers(3) n' by (simp add: F(6))
          with al [OF j] that(1) show ?thesis by (simp add: jobs_aligned_def)
        next
          case False
          with that al [OF j] n' F(5) [OF False] show ?thesis by (simp add: jobs_aligned_def)
        qed
        with al [OF j] show ?thesis using n' by (simp add: jobs_aligned_def F(2-4))
      qed
    qed (simp_all add: n' F(1))
  next
    case (stops s')
    then have s': "srv n' = stop (srv n)" "received n' = received n" "recvBuffer n' = recvBuffer n" by (simp_all add: handleSigint_def)
    show ?thesis
    proof (rule stream_conn [OF i])
      show "jobs_aligned (nconn n' j) \<and> arrived (nconn n' j) @ to_dispatch (loop (nconn n' j)) = arrived (nconn n j) @ to_dispatch (loop (nconn n j))"
        if j: "j < length (objs (srv n))" for j
        using stop_objs [OF j]
      proof
        assume c: "connections (srv n) (fd_of (srv n) j) = Some j \<and> objs (stop (srv n)) ! j = stop_conn (objs (srv n) ! j)"
        then have "routed (nconn n j)" using server_invD(1) [OF inv j] by (simp add: conn_ok_def)
        then have "loop (nconn n j) = LIdle" by (rule routed_idle [OF inv stops(2) j])
        with c al [OF j] show ?thesis by (simp add: s' stop_conn_def jobs_aligned_def)
      qed (use al [OF j] in \<open>simp add: s'\<close>)
    qed (simp_all add: s' stop_lengths)
  qed (use i in \<open>simp_all add: stream_inv_def\<close>)
qed

section \<open>Every run\<close>

definition net_inv :: "account_store \<Rightarrow> net \<Rightarrow> bool" where
  "net_inv st0 n \<longleftrightarrow> server_inv (srv n) \<and> works_inv st0 n \<and> sent_inv n \<and> stream_inv n \<and> wire_inv n"

lemma net_inv_step:
  assumes inv: "net_inv st0 n" and st: "net_step n n'"
  shows "net_inv st0 n'"
proof -
  have I: "server_inv (srv n)" "works_inv st0 n" "sent_inv n" "stream_inv n" "wire_inv n" using inv by (simp_all add: net_inv_def)
  have al: "jobs_aligned (nconn n k)" if "k < length (objs (srv n))" for k using I(4) that by (simp add: stream_inv_def)
  have "server_inv (srv n')" using net_server [OF st] server_step_inv [OF I(1)] I(1) by (elim disjE) simp_all
  moreover have "works_inv st0 n' \<and> sent_inv n' \<and> wire_inv n'"
    using st
  proof cases
    case (accepts rs)
    then have e: "extends (srv n) (srv n')" using extends_accepts by simp
    from works_extends [OF I(2) al e] sent_extends [OF I(3) al e] wire_extends [OF I(5,3,1) e] accepts(1) show ?thesis by simp
  next
    case (readable fd k rs b eof ms b')
    then have e: "extends (srv n) (srv n')" using extends_route by simp
    from works_extends [OF I(2) al e] sent_extends [OF I(3) al e] wire_extends [OF I(5,3,1) e] readable(1) show ?thesis by simp
  next
    case (loop k)
    then have e: "extends (srv n) (srv n')" using extends_loop by simp
    from works_extends [OF I(2) al e] sent_extends [OF I(3) al e] wire_extends [OF I(5,3,1) e] loop(1) show ?thesis by simp
  next
    case (stops s')
    then have e: "extends (srv n) (srv n')" using extends_stop by (auto simp: handleSigint_def)
    from works_extends [OF I(2) al e] sent_extends [OF I(3) al e] wire_extends [OF I(5,3,1) e] stops(1) show ?thesis by simp
  next
    case (parses k i rawMsg t1 ord oid)
    have m: "rawMsg = arrived (nconn n k) ! i" using al [OF parses(2)] parses(3,4) by (simp add: jobs_aligned_def)
    have nv: "(k, i) \<notin> fst ` set (validated n)" using I(2) parses(5) unfolding works_inv_def by fastforce
    have "fst (parseOrder (arrived (nconn n k) ! i) (nextOrderId n) t1) = Inr ord" using parses(6) m by simp
    then have "work_ok st0 (validated n) (arrived (nconn n k) ! i) (k, i) (Parsed ord)" using nv by auto
    from works_parse [OF I(2) parses(2,3,5) this, of oid] I(3) parses(1,5)
    show ?thesis by (auto simp: sent_inv_def intro: wire_data [OF I(5), of k i])
  next
    case (rejects k i rawMsg t1 why oid)
    have m: "rawMsg = arrived (nconn n k) ! i" using al [OF rejects(2)] rejects(3,4) by (simp add: jobs_aligned_def)
    have nv: "(k, i) \<notin> fst ` set (validated n)" using I(2) rejects(5) unfolding works_inv_def by fastforce
    have "fst (parseOrder (arrived (nconn n k) ! i) (nextOrderId n) t1) = Inl why" using rejects(6) m by simp
    then have "work_ok st0 (validated n) (arrived (nconn n k) ! i) (k, i) (Answer (buildMessage (reject_body why)))" using nv by auto
    from works_parse [OF I(2) rejects(2,3,5) this, of oid] I(3) rejects(1,5)
    show ?thesis by (auto simp: sent_inv_def intro: wire_data [OF I(5), of k i])
  next
    case (validates k i ord t2 st' result)
    from works_validate [OF I(2) validates(2,3)] I(3) validates(1,2)
    show ?thesis by (auto simp: sent_inv_def intro: wire_data [OF I(5), of k i])
  next
    case (answers k i a r c')
    from works_answer [OF I(2) answers(2-5)] sent_answer [OF I(3,5) al [OF answers(2)] answers(2-5)]
      wire_answer [OF I(5,1) answers(2-5)] answers(1)
    show ?thesis by simp
  qed
  ultimately show ?thesis using stream_step [OF I(4,1) st] by (simp add: net_inv_def)
qed

lemma net_start_inv:
  assumes "server_starts s"
  shows "net_inv st0 (net_start s st0)"
proof -
  have "objs s = []" "delivered s = []"
    using assms by (auto simp: server_starts_def run_setup_def setupListenSocket_def setNonBlocking_def registerFd_def
        new_server_def Let_def)
  with server_inv_start [OF assms] show ?thesis
    by (simp add: net_inv_def net_start_def works_inv_def sent_inv_def stream_inv_def wire_inv_def)
qed

interpretation net: invariant_system "\<lambda>n. \<exists>s. server_starts s \<and> n = net_start s st0" net_step "net_inv st0" for st0
  by unfold_locales (auto intro: net_start_inv net_inv_step)

lemma net_reachable:
  assumes "0 \<le> lf" and "0 \<le> ef" and "lf \<noteq> ef"
    and "net_step\<^sup>*\<^sup>* (net_start (run_setup lf bindOk listenOk ef new_server) st0) n"
  shows "net_inv st0 n"
proof (rule net.reachable_inv [OF _ assms(4)])
  show "\<exists>s. server_starts s \<and> net_start (run_setup lf bindOk listenOk ef new_server) st0 = net_start s st0"
    using assms(1-3) unfolding server_starts_def by blast
qed

text \<open>
  C7. The server answers as if it validated one order after the other: in every interleaving of
  the event loop and the jobs of any number of clients, the store is that of the sequence of the
  validated orders, in which the order of each message occurs at most once; every answer that is
  sent belongs to a message of its connection, at most one to each message, and is the rejection
  of a message that does not parse or the report of the result its order has in that sequence.
\<close>

theorem server_sequential:
  assumes "0 \<le> lf" and "0 \<le> ef" and "lf \<noteq> ef"
    and "net_step\<^sup>*\<^sup>* (net_start (run_setup lf bindOk listenOk ef new_server) st0) n"
  shows "store n = fst (validate_all st0 (map snd (validated n))) \<and>
    distinct (map fst (validated n)) \<and> distinct (map fst (sent n)) \<and>
    (\<forall>k i so a. ((k, i), so, a) \<in> set (sent n) \<longrightarrow>
       i < length (arrived (nconn n k)) \<and>
       ((\<exists>oid t1 why. fst (parseOrder (arrived (nconn n k) ! i) oid t1) = Inl why \<and> a = buildMessage (reject_body why)) \<or>
        (\<exists>p < length (validated n). \<exists>oid t1. fst (validated n ! p) = (k, i) \<and>
           fst (parseOrder (arrived (nconn n k) ! i) oid t1) = Inr (fst (snd (validated n ! p))) \<and>
           a = buildMessage (exec_report (snd (validate_all st0 (map snd (validated n))) ! p)))))"
proof -
  have I: "works_inv st0 n" "sent_inv n" "stream_inv n" using net_reachable [OF assms] by (simp_all add: net_inv_def)
  have "i < length (arrived (nconn n k)) \<and> work_ok st0 (validated n) (arrived (nconn n k) ! i) (k, i) (Answer a)"
    if "((k, i), so, a) \<in> set (sent n)" for k i so a
  proof -
    have s: "works n (k, i) = Some (Answer a)" "k < length (objs (srv n))" "i < length (jobs (nconn n k))"
      using I(2) that unfolding sent_inv_def by blast+
    have "work_ok st0 (validated n) (arrived (nconn n k) ! i) (k, i) (Answer a)" using I(1) s(1) unfolding works_inv_def by blast
    moreover have "jobs_aligned (nconn n k)" using I(3) s(2) by (simp add: stream_inv_def)
    ultimately show ?thesis using s(3) by (simp add: jobs_aligned_def)
  qed
  note sound = this
  have "store n = fst (validate_all st0 (map snd (validated n)))" "distinct (map fst (validated n))" "distinct (map fst (sent n))"
    using I by (simp_all add: works_inv_def sent_inv_def)
  then show ?thesis using sound unfolding work_ok.simps by blast
qed

section \<open>Served clients\<close>

text \<open>The runs of theory Server in which the ends of the streams do not race, with the data.\<close>

definition quiet_net_step :: "net \<Rightarrow> net \<Rightarrow> bool" where
  "quiet_net_step n n' \<longleftrightarrow> net_step n n' \<and> (\<forall>p \<in> set (objs (srv n')). quiet (snd p))"

lemma quiet_net_run:
  assumes "quiet_net_step\<^sup>*\<^sup>* n n'"
  shows "net_step\<^sup>*\<^sup>* n n'" and "quiet_server_step\<^sup>*\<^sup>* (srv n) (srv n')"
proof -
  have "net_step\<^sup>*\<^sup>* n n' \<and> quiet_server_step\<^sup>*\<^sup>* (srv n) (srv n')"
    using assms
  proof (induction rule: rtranclp_induct)
    case (step a b)
    then have ab: "net_step a b" "\<forall>p \<in> set (objs (srv b)). quiet (snd p)" by (simp_all add: quiet_net_step_def)
    then have "srv b = srv a \<or> quiet_server_step (srv a) (srv b)" using net_server by (auto simp: quiet_server_step_def)
    with step.IH ab(1) show ?case by (auto intro: rtranclp.rtrancl_into_rtrancl)
  qed simp
  then show "net_step\<^sup>*\<^sup>* n n'" "quiet_server_step\<^sup>*\<^sup>* (srv n) (srv n')" by blast+
qed

text \<open>When the bytes are exactly a stream of messages, nothing is left in the buffer.\<close>

lemma stream_complete:
  assumes "stream_ok (built bs) b ms" and "length (built bs) < 2 ^ 64"
  shows "ms = map buildMessage bs \<and> b = []"
proof -
  from assms obtain j where j: "ms = map buildMessage (take j bs)" "b @ [] = built (drop j bs)" "drained b (drop j bs)"
    unfolding stream_ok_def by (metis append_Nil2)
  have "drop j bs = []"
  proof (cases "drop j bs")
    case (Cons x xs)
    with j(2,3) show ?thesis by simp
  qed simp
  with j show ?thesis by simp
qed

lemma buildMessage_not_empty: "buildMessage b \<noteq> []"
  using length_buildMessage [of b] by auto

lemma answer_not_empty:
  assumes "work_ok st0 vs m x (Answer a)"
  shows "a \<noteq> []"
  using assms unfolding work_ok.simps by (metis buildMessage_not_empty)

lemma entries_mem: "v \<in> set (entries_of x es) \<longleftrightarrow> (\<exists>so. (x, so, v) \<in> set es)"
  by (force simp: entries_of_def)

text \<open>
  C8. A client is served completely, unless its own socket refuses bytes: when everything a client
  sent was a sequence of messages, however it was cut into pieces, and its connection is over
  without a race at the end of the stream, then every byte that was sent for the client went to
  its own socket, although descriptor numbers are reused and other clients are served at the same
  time; each of its messages has got its complete answer, once, unless a call of send failed for
  it, and then the client got a prefix of that answer (the code drops the rest when the buffer of
  the socket is full); and if no call of send failed, what the client reads is the answers to all
  its messages one after the other, not mixed.
\<close>

theorem client_served:
  assumes "0 \<le> lf" and "0 \<le> ef" and "lf \<noteq> ef"
    and "quiet_net_step\<^sup>*\<^sup>* (net_start (run_setup lf bindOk listenOk ef new_server) st0) n"
    and "k < length (objs (srv n))" and "finished (nconn n k)"
    and "received n k = concat (map buildMessage bs)" and "length (concat (map buildMessage bs)) < 2 ^ 64"
  shows "arrived (nconn n k) = map buildMessage bs \<and> distinct (map fst (sent n)) \<and>
    (\<forall>i so b. ((k, i), so, b) \<in> set (wire n) \<longrightarrow> so = Some (Client k)) \<and>
    (\<forall>i so a. ((k, i), so, a) \<in> set (sent n) \<longrightarrow> so = Some (Client k) \<and> bytes_of (k, i) (wire n) = a) \<and>
    (\<forall>i. i < length bs \<longleftrightarrow>
       (\<exists>so a. ((k, i), so, a) \<in> set (sent n)) \<noteq> (i \<in> fst ` set (failed (nconn n k)))) \<and>
    (\<forall>i \<in> fst ` set (failed (nconn n k)).
       \<exists>a s. works n (k, i) = Some (Answer a) \<and> bytes_of (k, i) (wire n) = take s a) \<and>
    (failed (nconn n k) = [] \<longrightarrow>
       (\<forall>i. i < length bs \<longleftrightarrow> (\<exists>so a. ((k, i), so, a) \<in> set (sent n))) \<and>
       bytes_to k (wire n) = bytes_to k (sent n))"
proof -
  note Q = quiet_net_run [OF assms(4)]
  have I: "works_inv st0 n" "sent_inv n" "stream_inv n" "wire_inv n" "server_inv (srv n)"
    using net_reachable [OF assms(1-3) Q(1)] by (simp_all add: net_inv_def)
  have "server_starts (run_setup lf bindOk listenOk ef new_server)" using assms(1-3) unfolding server_starts_def by blast
  from answers.reachable_inv [OF this] Q(2) have ok: "answers_ok (srv n)" by (simp add: net_start_def)
  have dr: "dropped (nconn n k) = []" using ok assms(5) quiet_invD(6) by (simp add: answers_ok_def)
  have "to_dispatch (loop (nconn n k)) = []" using assms(6) by (auto simp: finished_def)
  with I(3) assms(5,7) have "stream_ok (built bs) (recvBuffer n k) (arrived (nconn n k))" by (auto simp: stream_inv_def)
  with assms(8) have arr: "arrived (nconn n k) = map buildMessage bs" using stream_complete by blast
  have len: "length (jobs (nconn n k)) = length bs" using I(3) assms(5) arr by (simp add: stream_inv_def jobs_aligned_def)
  have over: "jobs (nconn n k) ! i = JFin FDone" if "i < length bs" for i
    using assms(6) that len by (simp add: finished_def)
  have W: "conn_wire_ok n k" using I(4) assms(5) by (simp add: wire_inv_def)
  have st: "\<exists>a. works n (k, i) = Some (Answer a) \<and>
      (i \<notin> fst ` set (failed (nconn n k)) \<and> bytes_of (k, i) (wire n) = a \<and> entries_of (k, i) (sent n) = [a] \<or>
       i \<in> fst ` set (failed (nconn n k)) \<and> (\<exists>s. bytes_of (k, i) (wire n) = take s a) \<and> entries_of (k, i) (sent n) = [])"
    if "i < length bs" for i
    using W that dr over [OF that] len unfolding conn_wire_ok_def by fastforce
  have lt: "i < length bs" if "(\<exists>so a. ((k, i), so, a) \<in> set (sent n)) \<or> i \<in> fst ` set (failed (nconn n k))" for i
  proof -
    have "i < length (jobs (nconn n k))" if "((k, i), so, a) \<in> set (sent n)" for so a
      using I(2) that unfolding sent_inv_def by blast
    moreover have "i < length (jobs (nconn n k))" if "i \<in> fst ` set (failed (nconn n k))"
      using W that unfolding conn_wire_ok_def by blast
    ultimately have "i < length (jobs (nconn n k))" using that by blast
    then show ?thesis by (simp add: len)
  qed
  have mem: "(\<exists>so a. ((k, i), so, a) \<in> set (sent n)) \<longleftrightarrow> entries_of (k, i) (sent n) \<noteq> []" for i
    using entries_mem [of _ "(k, i)" "sent n"] by (metis list.set_intros(1) neq_Nil_conv empty_iff list.set(1))
  have target: "so = Some (Client k)" if "((k, i), so, b) \<in> set (wire n)" for i so b
  proof -
    have "delivered (srv n) = map (\<lambda>((j, i), so, b). (j, so, arrived (nconn n j) ! i)) (wire n)"
      using I(2) by (simp add: sent_inv_def)
    moreover have "(k, so, arrived (nconn n k) ! i) = (\<lambda>((j, i), so, b). (j, so, arrived (nconn n j) ! i)) ((k, i), so, b)" by simp
    ultimately have "(k, so, arrived (nconn n k) ! i) \<in> set (delivered (srv n))"
      using that by (metis (no_types, lifting) image_eqI list.set_map)
    with ok show ?thesis by (fastforce simp: answers_ok_def)
  qed
  have own: "so = Some (Client k) \<and> bytes_of (k, i) (wire n) = a" if e: "((k, i), so, a) \<in> set (sent n)" for i so a
  proof -
    have w: "works n (k, i) = Some (Answer a)" and b: "a = [] \<or> (\<exists>b. ((k, i), so, b) \<in> set (wire n))"
      using I(2) e unfolding sent_inv_def by blast+
    have "work_ok st0 (validated n) (arrived (nconn n k) ! i) (k, i) (Answer a)" using I(1) w unfolding works_inv_def by blast
    then have "a \<noteq> []" by (rule answer_not_empty)
    with b obtain b' where "((k, i), so, b') \<in> set (wire n)" by blast
    then have "so = Some (Client k)" by (rule target)
    moreover have "i < length bs" using lt e by blast
    moreover have "a \<in> set (entries_of (k, i) (sent n))" using e entries_mem by blast
    ultimately show ?thesis using st [of i] by auto
  qed
  have one: "i < length bs \<longleftrightarrow> (\<exists>so a. ((k, i), so, a) \<in> set (sent n)) \<noteq> (i \<in> fst ` set (failed (nconn n k)))" for i
  proof (cases "i < length bs")
    case True
    with st [of i] show ?thesis unfolding mem by auto
  next
    case False
    with lt [of i] show ?thesis by blast
  qed
  have "in_flight (nconn n k) = []"
  proof (cases "writeMutex (nconn n k)")
    case (Some j)
    then have "j < length bs \<and> sending (jobs (nconn n k) ! j)"
      using net_lock [OF I(5) assms(5)] len unfolding lock_inv_def by metis
    with over [of j] show ?thesis by simp
  qed (simp add: in_flight_idle)
  then have "bytes_to k (wire n) = bytes_to k (sent n)" if "failed (nconn n k) = []" using W that by (simp add: conn_wire_ok_def)
  moreover have "i < length bs \<longleftrightarrow> (\<exists>so a. ((k, i), so, a) \<in> set (sent n))" if "failed (nconn n k) = []" for i
    using one [of i] that by simp
  moreover have "\<exists>a s. works n (k, i) = Some (Answer a) \<and> bytes_of (k, i) (wire n) = take s a"
    if "i \<in> fst ` set (failed (nconn n k))" for i
    using st [OF lt [of i]] that by blast
  moreover have "distinct (map fst (sent n))" using I(2) by (simp add: sent_inv_def)
  ultimately show ?thesis using arr target own one by blast
qed

section \<open>A run\<close>

text \<open>Commands, to run the server along a given interleaving; \<open>NAnswer\<close> has the result of send.\<close>

datatype net_cmd = NAccept "int list" | NRead int "recv_result list" | NLoop nat | NParse nat nat int | NValidate nat nat int | NAnswer nat nat int

fun net_exec :: "net_cmd \<Rightarrow> net \<Rightarrow> net" where
  "net_exec (NAccept rs) n =
     (if waiting (srv n) \<and> listenFd (srv n) \<in> interest (srv n) \<and> fresh_fds rs (srv n)
      then n\<lparr>srv := handle_event (Event (listenFd (srv n)) rs False []) (srv n)\<rparr> else n)"
| "net_exec (NRead fd rs) n =
     (case connections (srv n) fd of
        None \<Rightarrow> n
      | Some k \<Rightarrow>
          (if waiting (srv n) \<and> fd \<in> interest (srv n) \<and> fd \<noteq> listenFd (srv n) \<and> recv_ok (fd \<in> nonblocking (srv n)) rs
           then case recv_loop rs (recvBuffer n k) of (b, eof) \<Rightarrow>
             (case extract_all b of
                None \<Rightarrow> n
              | Some (ms, b') \<Rightarrow>
                  n\<lparr>srv := handle_event (Event fd [] eof ms) (srv n), recvBuffer := (recvBuffer n)(k := b'),
                    received := (received n)(k := received n k @ recv_bytes rs)\<rparr>)
           else n))"
| "net_exec (NLoop k) n =
     (if k < length (objs (srv n))
      then n\<lparr>srv := update_conn k (loop_step (loop (nconn n k)) (nconn n k)) (srv n)\<rparr> else n)"
| "net_exec (NParse k i t1) n =
     (if k < length (objs (srv n)) \<and> i < length (jobs (nconn n k)) \<and> works n (k, i) = None
      then case jobs (nconn n k) ! i of
          JWork rawMsg \<Rightarrow>
            (case parseOrder rawMsg (nextOrderId n) t1 of
               (Inr ord, oid) \<Rightarrow> n\<lparr>nextOrderId := oid, works := (works n)((k, i) \<mapsto> Parsed ord)\<rparr>
             | (Inl why, oid) \<Rightarrow>
                 n\<lparr>nextOrderId := oid, works := (works n)((k, i) \<mapsto> Answer (buildMessage (reject_body why)))\<rparr>)
        | _ \<Rightarrow> n
      else n)"
| "net_exec (NValidate k i t2) n =
     (case works n (k, i) of
        Some (Parsed ord) \<Rightarrow>
          (case validate (store n) ord t2 of
             (st', result) \<Rightarrow>
               n\<lparr>store := st', works := (works n)((k, i) \<mapsto> Answer (buildMessage (exec_report result))),
                 validated := validated n @ [((k, i), ord, t2)]\<rparr>)
      | _ \<Rightarrow> n)"
| "net_exec (NAnswer k i r) n =
     (if k < length (objs (srv n)) \<and> i < length (jobs (nconn n k)) then
        case works n (k, i) of
          Some (Answer a) \<Rightarrow>
            (case job_step a r i (nconn n k) of None \<Rightarrow> n | Some c' \<Rightarrow> answer_step k i a c' n)
        | _ \<Rightarrow> n
      else n)"

lemma net_exec_step: "net_exec x n = n \<or> net_step n (net_exec x n)"
proof (cases x)
  case (NAccept rs)
  then show ?thesis using net_step.accepts [of n rs] by auto
next
  case (NRead fd rs)
  show ?thesis
  proof (cases "connections (srv n) fd")
    case (Some k)
    obtain b eof where b: "recv_loop rs (recvBuffer n k) = (b, eof)" by fastforce
    show ?thesis using NRead Some b net_step.readable [OF _ _ _ Some _ b] by (auto split: option.split)
  qed (use NRead in simp)
next
  case (NLoop k)
  then show ?thesis using net_step.loop [of k n] by auto
next
  case (NParse k i t1)
  then show ?thesis using net_step.parses [of k n i] net_step.rejects [of k n i]
    by (auto split: jpc.split prod.split sum.split)
next
  case (NValidate k i t2)
  then show ?thesis using net_step.validates [of n k i] by (auto split: option.split work.split prod.split)
next
  case (NAnswer k i r)
  show ?thesis
  proof (cases "k < length (objs (srv n)) \<and> i < length (jobs (nconn n k))")
    case True
    then show ?thesis using NAnswer net_step.answers [of k n i _ r] by (auto split: option.split work.split)
  qed (use NAnswer in auto)
qed

fun quiet_cmds :: "net_cmd list \<Rightarrow> net \<Rightarrow> bool" where
  "quiet_cmds [] n = True"
| "quiet_cmds (x # xs) n = (list_all (\<lambda>p. quiet (snd p)) (objs (srv (net_exec x n))) \<and> quiet_cmds xs (net_exec x n))"

lemma quiet_cmds_steps: "quiet_cmds xs n \<Longrightarrow> quiet_net_step\<^sup>*\<^sup>* n (fold net_exec xs n)"
proof (induction xs arbitrary: n)
  case (Cons x xs)
  then have "quiet_net_step\<^sup>*\<^sup>* n (net_exec x n)"
    using net_exec_step [of x n] by (auto simp: quiet_net_step_def list_all_iff)
  with Cons show ?case by (auto intro: rtranclp_trans)
qed simp

text \<open>
  A client connects, sends one order in two pieces, is answered by two calls of send and closes
  its side.
\<close>

definition demo_msg :: string where
  "demo_msg = buildMessage sample_body"

definition demo_ord :: order where
  "demo_ord = \<lparr>orderId = 1, accountId = 1, symbol = ''BTC-USD'', side = BUY, qty = 1,
     price = double_of_nat 6000, enqueueTime = 10\<rparr>"

definition demo_pieces :: "string \<times> string" where
  "demo_pieces = (take 30 demo_msg, drop 30 demo_msg)"

definition demo_answer :: string where
  "demo_answer = buildMessage (exec_report (snd (validate race_store demo_ord 20)))"

definition demo_rest :: int where
  "demo_rest = int (length demo_answer - 5)"

definition demo_net_cmds :: "net_cmd list" where
  "demo_net_cmds = [NAccept [5, -1], NRead 5 [Bytes (fst demo_pieces), Bytes (snd demo_pieces), Again],
     NLoop 0, NLoop 0, NLoop 0, NParse 0 0 10, NValidate 0 0 20, NAnswer 0 0 0, NAnswer 0 0 5, NAnswer 0 0 demo_rest,
     NAnswer 0 0 0, NAnswer 0 0 0,
     NRead 5 [Eof], NLoop 0, NLoop 0, NLoop 0, NLoop 0, NLoop 0, NLoop 0, NLoop 0]"

definition demo_net :: net where
  "demo_net = fold net_exec demo_net_cmds (net_start (run_setup 3 True True 4 new_server) race_store)"

lemma demo_msg_facts:
  "length (fst demo_pieces) = 30" "length (snd demo_pieces) = 42" "fst demo_pieces @ snd demo_pieces = demo_msg"
  "extract_all demo_msg = Some ([demo_msg], [])" "extract_all [] = Some ([], [])"
  "parseOrder demo_msg 1 10 = (Inr demo_ord, 2)"
proof -
  have l: "length demo_msg = 72" by (simp add: demo_msg_def sample_length)
  then show "length (fst demo_pieces) = 30" "length (snd demo_pieces) = 42" "fst demo_pieces @ snd demo_pieces = demo_msg"
    by (simp_all add: demo_pieces_def)
  have "receive_all [] [[demo_msg]] = Some (map buildMessage [sample_body], [])"
    by (rule receive_all_stream [OF _ _ drained_Nil]) (use l in \<open>simp_all add: demo_msg_def\<close>)
  then show "extract_all demo_msg = Some ([demo_msg], [])"
    by (auto simp: receive_def demo_msg_def split: option.splits bind_splits)
  show "extract_all [] = Some ([], [])" by (rule extract_all_None) (simp add: tryExtractMessage_def)
  have t: "to_string_double (double_of_nat 6000) = ''6000.000000''"
    by (simp add: to_string_double_whole) code_simp
  have "stod ''6000.000000'' = Inr (double_of_nat 6000)" using stod_to_string_double [of 6000] unfolding t by simp
  then show "parseOrder demo_msg 1 10 = (Inr demo_ord, 2)"
    unfolding demo_msg_def sample_body_def demo_ord_def by (subst parseOrder_nos) simp_all
qed

lemmas demo_net_simps = demo_net_cmds_def run_setup_def setupListenSocket_def setNonBlocking_def registerFd_def
  new_server_def waiting_def accept_one_def route_def update_conn_def close_fd_def new_connection_def handleReadable_def
  job_step_def send_enter_def sent_all_def answer_step_def Let_def net_start_def

lemma demo_net_run:
  "quiet_cmds demo_net_cmds (net_start (run_setup 3 True True 4 new_server) race_store)"
  "length (objs (srv demo_net)) = 1" "finished (nconn demo_net 0)" "received demo_net 0 = demo_msg"
  "validated demo_net = [((0, 0), demo_ord, 20)]" "failed (nconn demo_net 0) = []"
  "sent demo_net = [((0, 0), Some (Client 0), demo_answer)]"
  "wire demo_net = [((0, 0), Some (Client 0), take 5 demo_answer), ((0, 0), Some (Client 0), drop 5 demo_answer)]"
proof -
  obtain st1 r1 where v: "validate race_store demo_ord 20 = (st1, r1)" by fastforce
  define a where "a = buildMessage (exec_report r1)"
  have da: "demo_answer = a" by (simp add: demo_answer_def v a_def)
  have l: "5 < length a" using length_buildMessage [of "exec_report r1"] by (simp add: a_def)
  then have r: "5 + nat demo_rest = length a" "0 < demo_rest" by (simp_all add: demo_rest_def da)
  have r1: "send_round 5 i m a 0 c =
      c\<lparr>puts := puts c @ [(m, take 5 a, closes c = 0)], jobs := (jobs c)[i := JSend m a 5]\<rparr>" for i m c
    using l by (auto simp: send_defs transferred_def)
  have r2: "send_round demo_rest i m a 5 c = sent_all i m (c\<lparr>puts := puts c @ [(m, drop 5 a, closes c = 0)]\<rparr>)" for i m c
    using l r by (simp add: send_round_def Let_def transferred_def)
  note S = demo_net_simps demo_msg_facts v a_def [symmetric] da r1 r2
  show "quiet_cmds demo_net_cmds (net_start (run_setup 3 True True 4 new_server) race_store)"
    by (simp add: S quiet_def all_done_def)
  show "length (objs (srv demo_net)) = 1" "finished (nconn demo_net 0)" "received demo_net 0 = demo_msg"
    "validated demo_net = [((0, 0), demo_ord, 20)]" "failed (nconn demo_net 0) = []"
    "sent demo_net = [((0, 0), Some (Client 0), demo_answer)]"
    "wire demo_net = [((0, 0), Some (Client 0), take 5 demo_answer), ((0, 0), Some (Client 0), drop 5 demo_answer)]"
    unfolding demo_net_def by (simp_all add: S finished_def)
qed

lemma demo_net_steps:
  "quiet_net_step\<^sup>*\<^sup>* (net_start (run_setup 3 True True 4 new_server) race_store) demo_net"
  unfolding demo_net_def by (rule quiet_cmds_steps [OF demo_net_run(1)])

theorem server_sequential_witness:
  "store demo_net = fst (validate race_store demo_ord 20) \<and> length (sent demo_net) = 1"
  using server_sequential [OF _ _ _ quiet_net_run(1) [OF demo_net_steps]] demo_net_run(5,7)
  by (simp add: case_prod_unfold Let_def)

theorem client_served_witness:
  "arrived (nconn demo_net 0) = [demo_msg] \<and> (\<exists>so a. ((0, 0), so, a) \<in> set (sent demo_net)) \<and>
   fst (snd (hd (sent demo_net))) = Some (Client 0) \<and> bytes_to 0 (wire demo_net) = bytes_to 0 (sent demo_net)"
proof -
  have l: "length (concat (map buildMessage [sample_body])) < 2 ^ 64" by (simp add: sample_length)
  have r: "received demo_net 0 = concat (map buildMessage [sample_body])" by (simp add: demo_net_run(4) demo_msg_def)
  have k: "0 < length (objs (srv demo_net))" by (simp add: demo_net_run(2))
  note C = client_served [OF _ _ _ demo_net_steps k demo_net_run(3) r l, simplified]
  have "arrived (nconn demo_net 0) = map buildMessage [sample_body]" using C by simp
  moreover have "so = Some (Client 0)" if "((0, 0), so, a) \<in> set (sent demo_net)" for so a
    using conjunct1 [OF conjunct2 [OF conjunct2 [OF conjunct2 [OF C]]]] that by blast
  moreover have "bytes_to 0 (wire demo_net) = bytes_to 0 (sent demo_net)" using C demo_net_run(6) by simp
  ultimately show ?thesis by (simp add: demo_net_run(7) demo_msg_def)
qed

end
