(* ===== verification/MutexPool.thy ===== *)
theory MutexPool
  imports TaskQueue "HOL-Library.Multiset"
begin

text \<open>
  The pool of include/ThreadPool.hpp built with HFT\_MUTEX\_QUEUE (the target hft\_engine\_mutex): the
  workers and the submitting threads meet in the monitor of theory TaskQueue.  A stretch of code
  under the mutex is one step; waiting on a condition variable and being notified are explicit,
  as are spurious wake-ups, because the notifications come after the mutex was released.
\<close>

section \<open>State\<close>

text \<open>A worker: about to lock in pop, waiting on notEmpty, about to notify notFull, running a job, ended.\<close>

datatype 'a mworker = MEnter | MWait | MNotifyFull 'a | MRun 'a | MExit

text \<open>A submitting thread: outside, about to lock in push, waiting on notFull, about to notify notEmpty.\<close>

datatype 'a mpusher = MIdle | MPush 'a | MFull 'a | MNotifyEmpty

text \<open>A thread in shutdown: outside, about to set the flag, about to notify each of the two variables, joining.\<close>

datatype mcloser = CIdle | CFlag | CNotEmpty | CNotFull | CJoin | CDone

record 'a mpool =
  mqueue :: "'a task_queue"
  mshutting :: bool
  mworkers :: "'a mworker list"
  mpushers :: "'a mpusher list"
  mclosers :: "mcloser list"
  maccepted :: "'a list"
  mexecuted :: "'a list"

definition new_mpool :: "nat \<Rightarrow> nat \<Rightarrow> nat \<Rightarrow> nat \<Rightarrow> 'a mpool" where
  "new_mpool queueCapacity numThreads m k =
     \<lparr>mqueue = new_queue queueCapacity, mshutting = False,
      mworkers = replicate (if numThreads = 0 then 1 else numThreads) MEnter,
      mpushers = replicate m MIdle, mclosers = replicate k CIdle, maccepted = [], mexecuted = []\<rparr>"

section \<open>Steps\<close>

abbreviation set_mworker :: "nat \<Rightarrow> 'a mworker \<Rightarrow> 'a mpool \<Rightarrow> 'a mpool" where
  "set_mworker i w s \<equiv> s\<lparr>mworkers := (mworkers s)[i := w]\<rparr>"

abbreviation set_mpusher :: "nat \<Rightarrow> 'a mpusher \<Rightarrow> 'a mpool \<Rightarrow> 'a mpool" where
  "set_mpusher j p s \<equiv> s\<lparr>mpushers := (mpushers s)[j := p]\<rparr>"

abbreviation set_mcloser :: "nat \<Rightarrow> mcloser \<Rightarrow> 'a mpool \<Rightarrow> 'a mpool" where
  "set_mcloser k c s \<equiv> s\<lparr>mclosers := (mclosers s)[k := c]\<rparr>"

text \<open>None: the thread cannot move by itself.  The notifications are steps of their own below.\<close>

definition mworker_step :: "nat \<Rightarrow> 'a mpool \<Rightarrow> 'a mpool option" where
  "mworker_step i s =
     (case mworkers s ! i of
        MEnter \<Rightarrow>
          Some (case pop (mqueue s) of
              None \<Rightarrow> set_mworker i MWait s
            | Some (None, q) \<Rightarrow> set_mworker i MExit s
            | Some (Some x, q) \<Rightarrow> set_mworker i (MNotifyFull x) (s\<lparr>mqueue := q\<rparr>))
      | MRun x \<Rightarrow> Some (set_mworker i MEnter (s\<lparr>mexecuted := mexecuted s @ [x]\<rparr>))
      | _ \<Rightarrow> None)"

definition mpusher_step :: "nat \<Rightarrow> 'a mpool \<Rightarrow> 'a mpool option" where
  "mpusher_step j s =
     (case mpushers s ! j of
        MPush x \<Rightarrow>
          Some (case push x (mqueue s) of
              None \<Rightarrow> set_mpusher j (MFull x) s
            | Some (ok, q) \<Rightarrow>
                if ok then set_mpusher j MNotifyEmpty (s\<lparr>mqueue := q, maccepted := maccepted s @ [x]\<rparr>)
                else set_mpusher j MIdle s)
      | _ \<Rightarrow> None)"

fun wake_worker :: "'a mworker \<Rightarrow> 'a mworker" where
  "wake_worker MWait = MEnter"
| "wake_worker w = w"

fun wake_pusher :: "'a mpusher \<Rightarrow> 'a mpusher" where
  "wake_pusher (MFull x) = MPush x"
| "wake_pusher p = p"

definition mcloser_step :: "nat \<Rightarrow> 'a mpool \<Rightarrow> 'a mpool option" where
  "mcloser_step k s =
     (case mclosers s ! k of
        CIdle \<Rightarrow> Some (if mshutting s then set_mcloser k CDone s else set_mcloser k CFlag (s\<lparr>mshutting := True\<rparr>))
      | CFlag \<Rightarrow> Some (set_mcloser k CNotEmpty (s\<lparr>mqueue := shutdown (mqueue s)\<rparr>))
      | CNotEmpty \<Rightarrow> Some (set_mcloser k CNotFull (s\<lparr>mworkers := map wake_worker (mworkers s)\<rparr>))
      | CNotFull \<Rightarrow> Some (set_mcloser k CJoin (s\<lparr>mpushers := map wake_pusher (mpushers s)\<rparr>))
      | CJoin \<Rightarrow> if \<forall>w \<in> set (mworkers s). w = MExit then Some (set_mcloser k CDone s) else None
      | CDone \<Rightarrow> None)"

text \<open>
  What the threads do by themselves.  notify\_one wakes one of the threads that wait, if there is
  one; a thread that was woken looks at its predicate again.
\<close>

inductive mpool_own :: "'a mpool \<Rightarrow> 'a mpool \<Rightarrow> bool" where
  worker: "i < length (mworkers s) \<Longrightarrow> mworker_step i s = Some t \<Longrightarrow> mpool_own s t"
| pusher: "j < length (mpushers s) \<Longrightarrow> mpusher_step j s = Some t \<Longrightarrow> mpool_own s t"
| closer: "k < length (mclosers s) \<Longrightarrow> mclosers s ! k \<noteq> CIdle \<Longrightarrow> mcloser_step k s = Some t \<Longrightarrow> mpool_own s t"
| notify_full: "i < length (mworkers s) \<Longrightarrow> mworkers s ! i = MNotifyFull x \<Longrightarrow>
     j < length (mpushers s) \<Longrightarrow> mpushers s ! j = MFull y \<Longrightarrow>
     mpool_own s (set_mworker i (MRun x) (set_mpusher j (MPush y) s))"
| notify_full_none: "i < length (mworkers s) \<Longrightarrow> mworkers s ! i = MNotifyFull x \<Longrightarrow>
     (\<forall>y. MFull y \<notin> set (mpushers s)) \<Longrightarrow> mpool_own s (set_mworker i (MRun x) s)"
| notify_empty: "j < length (mpushers s) \<Longrightarrow> mpushers s ! j = MNotifyEmpty \<Longrightarrow>
     i < length (mworkers s) \<Longrightarrow> mworkers s ! i = MWait \<Longrightarrow>
     mpool_own s (set_mpusher j MIdle (set_mworker i MEnter s))"
| notify_empty_none: "j < length (mpushers s) \<Longrightarrow> mpushers s ! j = MNotifyEmpty \<Longrightarrow>
     MWait \<notin> set (mworkers s) \<Longrightarrow> mpool_own s (set_mpusher j MIdle s)"

text \<open>The steps of the pool: those, a new call of submit or of shutdown, and the spurious wake-ups.\<close>

inductive mpool_step :: "'a mpool \<Rightarrow> 'a mpool \<Rightarrow> bool" where
  own: "mpool_own s t \<Longrightarrow> mpool_step s t"
| submits: "j < length (mpushers s) \<Longrightarrow> mpushers s ! j = MIdle \<Longrightarrow> mpool_step s (set_mpusher j (MPush x) s)"
| shuts: "k < length (mclosers s) \<Longrightarrow> mclosers s ! k = CIdle \<Longrightarrow> mcloser_step k s = Some t \<Longrightarrow> mpool_step s t"
| spurious_worker: "i < length (mworkers s) \<Longrightarrow> mworkers s ! i = MWait \<Longrightarrow> mpool_step s (set_mworker i MEnter s)"
| spurious_pusher: "j < length (mpushers s) \<Longrightarrow> mpushers s ! j = MFull x \<Longrightarrow> mpool_step s (set_mpusher j (MPush x) s)"

lemma mpool_cases:
  assumes "mpool_step s t"
  obtains (worker) i where "i < length (mworkers s)" "mworker_step i s = Some t"
    | (pusher) j where "j < length (mpushers s)" "mpusher_step j s = Some t"
    | (closer) k where "k < length (mclosers s)" "mcloser_step k s = Some t"
    | (submits) j x where "t = set_mpusher j (MPush x) s" "j < length (mpushers s)" "mpushers s ! j = MIdle"
    | (notify_full) i x j y where "t = set_mworker i (MRun x) (set_mpusher j (MPush y) s)"
      "i < length (mworkers s)" "mworkers s ! i = MNotifyFull x" "j < length (mpushers s)" "mpushers s ! j = MFull y"
    | (notify_full_none) i x where "t = set_mworker i (MRun x) s" "i < length (mworkers s)"
      "mworkers s ! i = MNotifyFull x" "\<forall>y. MFull y \<notin> set (mpushers s)"
    | (notify_empty) j i where "t = set_mpusher j MIdle (set_mworker i MEnter s)"
      "j < length (mpushers s)" "mpushers s ! j = MNotifyEmpty" "i < length (mworkers s)" "mworkers s ! i = MWait"
    | (notify_empty_none) j where "t = set_mpusher j MIdle s" "j < length (mpushers s)"
      "mpushers s ! j = MNotifyEmpty" "MWait \<notin> set (mworkers s)"
    | (spurious_worker) i where "t = set_mworker i MEnter s" "i < length (mworkers s)" "mworkers s ! i = MWait"
    | (spurious_pusher) j x where "t = set_mpusher j (MPush x) s" "j < length (mpushers s)" "mpushers s ! j = MFull x"
  using assms
proof cases
  case own
  then show ?thesis
  proof cases
    case (worker i)
    then show ?thesis by (rule that(1))
  next
    case (pusher j)
    then show ?thesis by (rule that(2))
  next
    case (closer k)
    from this(1,3) show ?thesis by (rule that(3))
  next
    case (notify_full i x j y)
    then show ?thesis by (rule that(5))
  next
    case (notify_full_none i x)
    then show ?thesis by (rule that(6))
  next
    case (notify_empty j i)
    then show ?thesis by (rule that(7))
  next
    case (notify_empty_none j)
    then show ?thesis by (rule that(8))
  qed
next
  case (submits j x)
  then show ?thesis by (rule that(4))
next
  case (shuts k)
  from this(1,3) show ?thesis by (rule that(3))
next
  case (spurious_worker i)
  then show ?thesis by (rule that(9))
next
  case (spurious_pusher j x)
  then show ?thesis by (rule that(10))
qed

text \<open>Weights: workers about to look at the queue, workers and pushers with a notification to make, pushers about to look.\<close>

fun entering :: "'a mworker \<Rightarrow> nat" where "entering MEnter = 1" | "entering w = 0"
fun freeing :: "'a mworker \<Rightarrow> nat" where "freeing (MNotifyFull x) = 1" | "freeing w = 0"
fun pushing :: "'a mpusher \<Rightarrow> nat" where "pushing (MPush x) = 1" | "pushing p = 0"
fun telling :: "'a mpusher \<Rightarrow> nat" where "telling MNotifyEmpty = 1" | "telling p = 0"

text \<open>Whether a thread can go on by itself.\<close>

definition mcan_move :: "'a mpool \<Rightarrow> bool" where
  "mcan_move s \<longleftrightarrow>
     (\<exists>i < length (mworkers s). mworker_step i s \<noteq> None \<or> freeing (mworkers s ! i) = 1) \<or>
     (\<exists>j < length (mpushers s). mpusher_step j s \<noteq> None \<or> mpushers s ! j = MNotifyEmpty) \<or>
     (\<exists>k < length (mclosers s). mclosers s ! k \<noteq> CIdle \<and> mcloser_step k s \<noteq> None)"

section \<open>The invariant\<close>

fun mheld :: "'a mworker \<Rightarrow> 'a multiset" where
  "mheld (MNotifyFull x) = {#x#}" | "mheld (MRun x) = {#x#}" | "mheld w = {#}"

abbreviation some_full :: "'a mpool \<Rightarrow> bool" where
  "some_full s \<equiv> \<exists>y. MFull y \<in> set (mpushers s)"

definition down_ok :: "'a mpool \<Rightarrow> bool" where
  "down_ok s \<longleftrightarrow>
     (shutdown_flag (mqueue s) \<longrightarrow> MWait \<in> set (mworkers s) \<longrightarrow> CNotEmpty \<in> set (mclosers s)) \<and>
     (shutdown_flag (mqueue s) \<longrightarrow> some_full s \<longrightarrow> CNotEmpty \<in> set (mclosers s) \<or> CNotFull \<in> set (mclosers s)) \<and>
     (MExit \<in> set (mworkers s) \<longrightarrow> shutdown_flag (mqueue s) \<and> queue (mqueue s) = []) \<and>
     (\<forall>c \<in> {CNotEmpty, CNotFull, CJoin}. c \<in> set (mclosers s) \<longrightarrow> shutdown_flag (mqueue s))"

definition items_ok :: "'a mpool \<Rightarrow> bool" where
  "items_ok s \<longleftrightarrow> mset (maccepted s) = mset (queue (mqueue s)) + sum_list (map mheld (mworkers s)) + mset (mexecuted s)"


section \<open>The steps, case by case\<close>

lemma mworker_step_cases:
  assumes "mworker_step i s = Some t"
  obtains (waits) "mworkers s ! i = MEnter" "queue (mqueue s) = []" "\<not> shutdown_flag (mqueue s)"
      "t = set_mworker i MWait s"
    | (ends) "mworkers s ! i = MEnter" "queue (mqueue s) = []" "shutdown_flag (mqueue s)"
      "t = set_mworker i MExit s"
    | (takes) x xs where "mworkers s ! i = MEnter" "queue (mqueue s) = x # xs"
      "t = set_mworker i (MNotifyFull x) (s\<lparr>mqueue := (mqueue s)\<lparr>queue := xs\<rparr>\<rparr>)"
    | (runs) x where "mworkers s ! i = MRun x" "t = set_mworker i MEnter (s\<lparr>mexecuted := mexecuted s @ [x]\<rparr>)"
  using assms unfolding mworker_step_def pop_def notEmpty_pred_def
  by (auto split: mworker.splits if_splits list.splits)

lemma mpusher_step_cases:
  assumes "mpusher_step j s = Some t"
  obtains (full) x where "mpushers s ! j = MPush x" "capacity (mqueue s) \<le> length (queue (mqueue s))"
      "\<not> shutdown_flag (mqueue s)" "t = set_mpusher j (MFull x) s"
    | (refused) x where "mpushers s ! j = MPush x" "shutdown_flag (mqueue s)" "t = set_mpusher j MIdle s"
    | (accepted) x where "mpushers s ! j = MPush x" "length (queue (mqueue s)) < capacity (mqueue s)"
      "\<not> shutdown_flag (mqueue s)"
      "t = set_mpusher j MNotifyEmpty (s\<lparr>mqueue := (mqueue s)\<lparr>queue := queue (mqueue s) @ [x]\<rparr>, maccepted := maccepted s @ [x]\<rparr>)"
  using assms unfolding mpusher_step_def push_def notFull_pred_def
  by (auto split: mpusher.splits if_splits)

lemma wake_worker_frame [simp]:
  "entering w \<le> entering (wake_worker w)" "freeing (wake_worker w) = freeing w" "mheld (wake_worker w) = mheld w"
  "wake_worker w \<noteq> MWait" "wake_worker w = MExit \<longleftrightarrow> w = MExit"
  by (cases w; simp)+

lemma wake_pusher_frame [simp]:
  "telling (wake_pusher p) = telling p" "wake_pusher p \<noteq> MFull x"
  by (cases p; simp)+

lemma woken_workers [simp]:
  "MWait \<notin> wake_worker ` A" "MExit \<in> wake_worker ` A \<longleftrightarrow> MExit \<in> A" "MFull x \<notin> wake_pusher ` B"
  by (metis imageE wake_worker_frame(4)) (metis image_iff wake_worker_frame(5), metis imageE wake_pusher_frame(2))

text \<open>Who waits after one thread has moved.\<close>

lemma full_upd:
  assumes "\<exists>y. MFull y \<in> set (ps[j := p])" and "\<forall>y. p \<noteq> MFull y"
  shows "\<exists>y. MFull y \<in> set ps"
  using assms in_set_update by metis

section \<open>Nobody waits without a reason\<close>

text \<open>
  While a worker waits, every queued item has a worker that is about to look at the queue or a
  notification on its way; while a submitting thread waits, so has every free place.
\<close>

definition worker_seen :: "'a mpool \<Rightarrow> bool" where
  "worker_seen s \<longleftrightarrow> (MWait \<in> set (mworkers s) \<longrightarrow>
     length (queue (mqueue s)) \<le> sum_list (map entering (mworkers s)) + sum_list (map telling (mpushers s)))"

definition pusher_seen :: "'a mpool \<Rightarrow> bool" where
  "pusher_seen s \<longleftrightarrow> (some_full s \<longrightarrow> \<not> shutdown_flag (mqueue s) \<longrightarrow>
     capacity (mqueue s) \<le> length (queue (mqueue s)) + sum_list (map pushing (mpushers s)) + sum_list (map freeing (mworkers s)))"

lemmas weight_upd = sum_list_map_update [where 'b = nat]

lemma worker_seen_step:
  assumes "worker_seen s" and "mpool_step s t"
  shows "worker_seen t"
  using assms(2)
proof (cases rule: mpool_cases)
  case (worker i)
  note u = weight_upd [OF worker(1), of entering] and m = in_set_update [of MWait "mworkers s" i]
  from worker(2) show ?thesis
  proof (cases rule: mworker_step_cases)
    case (takes x xs)
    with assms(1) m [of "MNotifyFull x"] u [of "MNotifyFull x"] show ?thesis by (auto simp: worker_seen_def)
  next
    case (runs x)
    with assms(1) m [of MEnter] u [of MEnter] show ?thesis by (auto simp: worker_seen_def)
  qed (simp_all add: worker_seen_def)
next
  case (pusher j)
  note u = weight_upd [OF pusher(1), of telling]
  from pusher(2) show ?thesis
  proof (cases rule: mpusher_step_cases)
    case (full x)
    with assms(1) u [of "MFull x"] show ?thesis by (simp add: worker_seen_def)
  next
    case (refused x)
    with assms(1) u [of MIdle] show ?thesis by (simp add: worker_seen_def)
  next
    case (accepted x)
    with assms(1) u [of MNotifyEmpty] show ?thesis by (simp add: worker_seen_def)
  qed
next
  case (closer k)
  with assms(1) show ?thesis
    by (cases "mclosers s ! k")
      (auto simp: mcloser_step_def worker_seen_def shutdown_def comp_def split: if_splits)
next
  case (submits j x)
  with assms(1) weight_upd [OF submits(2), of telling "MPush x"] show ?thesis by (simp add: worker_seen_def)
next
  case (notify_full i x j y)
  with assms(1) weight_upd [OF notify_full(2), of entering "MRun x"] weight_upd [OF notify_full(4), of telling "MPush y"]
    in_set_update [of MWait "mworkers s" i "MRun x"]
  show ?thesis by (auto simp: worker_seen_def)
next
  case (notify_full_none i x)
  with assms(1) weight_upd [OF notify_full_none(2), of entering "MRun x"] in_set_update [of MWait "mworkers s" i "MRun x"]
  show ?thesis by (auto simp: worker_seen_def)
next
  case (notify_empty j i)
  with assms(1) weight_upd [OF notify_empty(4), of entering MEnter] weight_upd [OF notify_empty(2), of telling MIdle]
    in_set_update [of MWait "mworkers s" i MEnter]
  show ?thesis by (auto simp: worker_seen_def)
next
  case (notify_empty_none j)
  then show ?thesis by (simp add: worker_seen_def)
next
  case (spurious_worker i)
  with assms(1) weight_upd [OF spurious_worker(2), of entering MEnter] in_set_update [of MWait "mworkers s" i MEnter]
  show ?thesis by (auto simp: worker_seen_def)
next
  case (spurious_pusher j x)
  with assms(1) weight_upd [OF spurious_pusher(2), of telling "MPush x"] show ?thesis by (simp add: worker_seen_def)
qed


lemma pusher_seen_step:
  assumes "pusher_seen s" and "mpool_step s t"
  shows "pusher_seen t"
  using assms(2)
proof (cases rule: mpool_cases)
  case (worker i)
  note u = weight_upd [OF worker(1), of freeing]
  from worker(2) show ?thesis
  proof (cases rule: mworker_step_cases)
    case waits
    with assms(1) u [of MWait] show ?thesis by (simp add: pusher_seen_def)
  next
    case ends
    then show ?thesis by (simp add: pusher_seen_def)
  next
    case (takes x xs)
    with assms(1) u [of "MNotifyFull x"] show ?thesis by (simp add: pusher_seen_def)
  next
    case (runs x)
    with assms(1) u [of MEnter] show ?thesis by (simp add: pusher_seen_def)
  qed
next
  case (pusher j)
  note u = weight_upd [OF pusher(1), of pushing]
  from pusher(2) show ?thesis
  proof (cases rule: mpusher_step_cases)
    case (accepted x)
    with assms(1) u [of MNotifyEmpty] full_upd [of "mpushers s" j MNotifyEmpty] show ?thesis
      by (auto simp: pusher_seen_def)
  qed (simp_all add: pusher_seen_def)
next
  case (closer k)
  with assms(1) show ?thesis
    by (cases "mclosers s ! k")
      (auto simp: mcloser_step_def pusher_seen_def shutdown_def comp_def split: if_splits)
next
  case (submits j x)
  with assms(1) weight_upd [OF submits(2), of pushing "MPush x"] full_upd [of "mpushers s" j "MPush x"]
  show ?thesis by (auto simp: pusher_seen_def)
next
  case (notify_full i x j y)
  with assms(1) weight_upd [OF notify_full(2), of freeing "MRun x"] weight_upd [OF notify_full(4), of pushing "MPush y"]
    full_upd [of "mpushers s" j "MPush y"]
  show ?thesis by (auto simp: pusher_seen_def)
next
  case (notify_full_none i x)
  then show ?thesis by (simp add: pusher_seen_def)
next
  case (notify_empty j i)
  with assms(1) weight_upd [OF notify_empty(4), of freeing MEnter] weight_upd [OF notify_empty(2), of pushing MIdle]
    full_upd [of "mpushers s" j MIdle]
  show ?thesis by (auto simp: pusher_seen_def)
next
  case (notify_empty_none j)
  with assms(1) weight_upd [OF notify_empty_none(2), of pushing MIdle] full_upd [of "mpushers s" j MIdle]
  show ?thesis by (auto simp: pusher_seen_def)
next
  case (spurious_worker i)
  with assms(1) weight_upd [OF spurious_worker(2), of freeing MEnter] show ?thesis by (simp add: pusher_seen_def)
next
  case (spurious_pusher j x)
  with assms(1) weight_upd [OF spurious_pusher(2), of pushing "MPush x"] full_upd [of "mpushers s" j "MPush x"]
  show ?thesis by (auto simp: pusher_seen_def)
qed

section \<open>Shutdown\<close>

text \<open>Until shutdown has notified a variable, a thread that waits on it has the notification coming.\<close>

lemma down_closer:
  assumes d: "down_ok s" and k: "k < length (mclosers s)" and st: "mcloser_step k s = Some t"
  shows "down_ok t"
proof -
  note other = mem_upd_other [OF k]
  have mem: "mclosers s ! k \<in> set (mclosers s)" using k by simp
  show ?thesis
  proof (cases "mclosers s ! k")
    case CIdle
    with st have "t = set_mcloser k CDone s \<or> t = set_mcloser k CFlag (s\<lparr>mshutting := True\<rparr>)"
      by (cases "mshutting s") (simp_all add: mcloser_step_def)
    with d CIdle show ?thesis by (elim disjE) (simp_all add: down_ok_def other)
  next
    case CFlag
    then have "t = set_mcloser k CNotEmpty (s\<lparr>mqueue := shutdown (mqueue s)\<rparr>)" using st by (simp add: mcloser_step_def)
    with d mem_upd_self [OF k, of CNotEmpty] show ?thesis by (simp add: down_ok_def shutdown_def)
  next
    case CNotEmpty
    then have "t = set_mcloser k CNotFull (s\<lparr>mworkers := map wake_worker (mworkers s)\<rparr>)"
      using st by (simp add: mcloser_step_def)
    moreover have "shutdown_flag (mqueue s)" using d mem CNotEmpty by (simp add: down_ok_def)
    ultimately show ?thesis using d mem_upd_self [OF k, of CNotFull] by (simp add: down_ok_def)
  next
    case CNotFull
    then have "t = set_mcloser k CJoin (s\<lparr>mpushers := map wake_pusher (mpushers s)\<rparr>)"
      using st by (simp add: mcloser_step_def)
    moreover have "shutdown_flag (mqueue s)" using d mem CNotFull by (simp add: down_ok_def)
    ultimately show ?thesis using d CNotFull by (simp add: down_ok_def other)
  next
    case CJoin
    then have "t = set_mcloser k CDone s" using st by (simp add: mcloser_step_def split: if_splits)
    moreover have "shutdown_flag (mqueue s)" using d mem CJoin by (simp add: down_ok_def)
    ultimately show ?thesis using d CJoin by (simp add: down_ok_def other)
  qed (use st in \<open>simp add: mcloser_step_def\<close>)
qed

lemma down_step:
  assumes d: "down_ok s" and "mpool_step s t"
  shows "down_ok t"
  using assms(2)
proof (cases rule: mpool_cases)
  case (worker i)
  note m = in_set_update [of _ "mworkers s" i]
  from worker(2) show ?thesis
  proof (cases rule: mworker_step_cases)
    case waits
    with d m [of _ MWait] show ?thesis by (auto simp: down_ok_def)
  next
    case ends
    with d m [of _ MExit] show ?thesis by (auto simp: down_ok_def)
  next
    case (takes x xs)
    with d m [of _ "MNotifyFull x"] show ?thesis by (auto simp: down_ok_def)
  next
    case (runs x)
    with d m [of _ MEnter] show ?thesis by (auto simp: down_ok_def)
  qed
next
  case (pusher j)
  from pusher(2) show ?thesis
  proof (cases rule: mpusher_step_cases)
    case (full x)
    with d show ?thesis by (auto simp: down_ok_def)
  next
    case (refused x)
    with d full_upd [of "mpushers s" j MIdle] show ?thesis by (auto simp: down_ok_def)
  next
    case (accepted x)
    with d full_upd [of "mpushers s" j MNotifyEmpty] show ?thesis by (auto simp: down_ok_def)
  qed
next
  case (closer k)
  from down_closer [OF d this(1,2)] show ?thesis .
next
  case (submits j x)
  with d full_upd [of "mpushers s" j "MPush x"] show ?thesis by (auto simp: down_ok_def)
next
  case (notify_full i x j y)
  with d in_set_update [of _ "mworkers s" i "MRun x"] full_upd [of "mpushers s" j "MPush y"]
  show ?thesis by (auto simp: down_ok_def)
next
  case (notify_full_none i x)
  with d in_set_update [of _ "mworkers s" i "MRun x"] show ?thesis by (auto simp: down_ok_def)
next
  case (notify_empty j i)
  with d in_set_update [of _ "mworkers s" i MEnter] full_upd [of "mpushers s" j MIdle]
  show ?thesis by (auto simp: down_ok_def)
next
  case (notify_empty_none j)
  with d full_upd [of "mpushers s" j MIdle] show ?thesis by (auto simp: down_ok_def)
next
  case (spurious_worker i)
  with d in_set_update [of _ "mworkers s" i MEnter] show ?thesis by (auto simp: down_ok_def)
next
  case (spurious_pusher j x)
  with d full_upd [of "mpushers s" j "MPush x"] show ?thesis by (auto simp: down_ok_def)
qed


section \<open>Accepted and executed jobs\<close>

lemma mheld_upd:
  assumes "i < length ws" and "M = E + sum_list (map mheld ws) + X" and "M' + E + X + mheld (ws ! i) = M + E' + X' + mheld v"
  shows "M' = E' + sum_list (map mheld (ws[i := v])) + X'"
proof -
  have "(E + X) + (M' + mheld (ws ! i)) = (E + X) + (E' + X' + (sum_list (map mheld ws) + mheld v))"
    using assms(3) unfolding assms(2) by (simp only: ac_simps)
  then have "M' + mheld (ws ! i) = E' + X' + (sum_list (map mheld (ws[i := v])) + mheld (ws ! i))"
    using sum_list_map_update [OF assms(1), of mheld v] by simp
  then show ?thesis by (simp add: ac_simps)
qed

lemma items_same:
  assumes "items_ok s" and "i < length (mworkers s)" and "mheld v = mheld (mworkers s ! i)"
    and "mworkers t = (mworkers s)[i := v]" and "mqueue t = mqueue s" "maccepted t = maccepted s" "mexecuted t = mexecuted s"
  shows "items_ok t"
  using assms sum_list_map_update [OF assms(2), of mheld v] by (simp add: items_ok_def)

lemma items_worker:
  assumes "items_ok s" and "i < length (mworkers s)" and "mworker_step i s = Some t"
  shows "items_ok t"
  using assms(3)
proof (cases rule: mworker_step_cases)
  case waits
  then show ?thesis by (intro items_same [OF assms(1,2), of MWait]) simp_all
next
  case ends
  then show ?thesis by (intro items_same [OF assms(1,2), of MExit]) simp_all
next
  case (takes x xs)
  have "mset (maccepted s) = mset xs + sum_list (map mheld ((mworkers s)[i := MNotifyFull x])) + mset (mexecuted s)"
    by (rule mheld_upd [OF assms(2) assms(1) [unfolded items_ok_def]]) (simp add: takes)
  with takes show ?thesis by (simp add: items_ok_def)
next
  case (runs x)
  have "mset (maccepted s) = mset (queue (mqueue s)) + sum_list (map mheld ((mworkers s)[i := MEnter])) + mset (mexecuted s @ [x])"
    by (rule mheld_upd [OF assms(2) assms(1) [unfolded items_ok_def]]) (simp add: runs)
  with runs show ?thesis by (simp add: items_ok_def)
qed

lemma items_step:
  assumes "items_ok s" and "mpool_step s t"
  shows "items_ok t"
  using assms(2)
proof (cases rule: mpool_cases)
  case (worker i)
  from items_worker [OF assms(1) this] show ?thesis .
next
  case (pusher j)
  from pusher(2) show ?thesis
    by (cases rule: mpusher_step_cases) (use assms(1) in \<open>simp_all add: items_ok_def\<close>)
next
  case (closer k)
  with assms(1) show ?thesis
    by (cases "mclosers s ! k") (auto simp: mcloser_step_def items_ok_def shutdown_def comp_def split: if_splits)
next
  case (notify_full i x j y)
  then show ?thesis by (intro items_same [OF assms(1) notify_full(2), of "MRun x"]) simp_all
next
  case (notify_full_none i x)
  then show ?thesis by (intro items_same [OF assms(1) notify_full_none(2), of "MRun x"]) simp_all
next
  case (notify_empty j i)
  then show ?thesis by (intro items_same [OF assms(1) notify_empty(4), of MEnter]) simp_all
next
  case (spurious_worker i)
  then show ?thesis by (intro items_same [OF assms(1) spurious_worker(2), of MEnter]) simp_all
qed (use assms(1) in \<open>simp_all add: items_ok_def\<close>)

section \<open>The invariant of the pool\<close>

lemma mcloser_frame:
  assumes "mcloser_step k s = Some t"
  shows "capacity (mqueue t) = capacity (mqueue s)" "queue (mqueue t) = queue (mqueue s)"
    "length (mworkers t) = length (mworkers s)"
  using assms by (cases "mclosers s ! k"; auto simp: mcloser_step_def shutdown_def split: if_splits)+

lemma mpool_frame:
  assumes "mpool_step s t"
  shows "capacity (mqueue t) = capacity (mqueue s) \<and> length (mworkers t) = length (mworkers s)"
  using assms
proof (cases rule: mpool_cases)
  case (worker i)
  from this(2) show ?thesis by (cases rule: mworker_step_cases) simp_all
next
  case (pusher j)
  from this(2) show ?thesis by (cases rule: mpusher_step_cases) simp_all
next
  case (closer k)
  from mcloser_frame [OF this(2)] show ?thesis by simp
qed simp_all

definition mpool_inv :: "'a mpool \<Rightarrow> bool" where
  "mpool_inv s \<longleftrightarrow> worker_seen s \<and> pusher_seen s \<and> down_ok s \<and> items_ok s \<and>
     mworkers s \<noteq> [] \<and> length (queue (mqueue s)) \<le> capacity (mqueue s)"

definition mpool_starts :: "'a mpool \<Rightarrow> bool" where
  "mpool_starts s \<longleftrightarrow> (\<exists>c n m k. s = new_mpool c n m k)"

lemma mpool_bounded:
  assumes "mpool_step s t" and "length (queue (mqueue s)) \<le> capacity (mqueue s)"
  shows "length (queue (mqueue t)) \<le> capacity (mqueue t)"
  using assms(1)
proof (cases rule: mpool_cases)
  case (pusher j)
  from pusher(2) show ?thesis by (cases rule: mpusher_step_cases) (use assms(2) in simp_all)
next
  case (worker i)
  from worker(2) show ?thesis by (cases rule: mworker_step_cases) (use assms(2) in simp_all)
next
  case (closer k)
  with mcloser_frame [OF this(2)] assms(2) show ?thesis by simp
qed (use assms(2) in simp_all)

lemma mheld_none: "\<forall>w \<in> set ws. mheld w = {#} \<Longrightarrow> sum_list (map mheld ws) = {#}"
  by (induction ws) auto

interpretation mp: invariant_system mpool_starts mpool_step mpool_inv
proof
  show "mpool_inv s" if st: "mpool_starts s" for s :: "'a mpool"
  proof -
    obtain c n m k where s: "s = new_mpool c n m k" using st unfolding mpool_starts_def by blast
    have "sum_list (map mheld (mworkers s)) = {#}" by (rule mheld_none) (simp add: s new_mpool_def)
    then show ?thesis
      by (simp add: s mpool_inv_def worker_seen_def pusher_seen_def down_ok_def items_ok_def new_mpool_def new_queue_def)
  qed
  show "mpool_inv t" if i: "mpool_inv s" and st: "mpool_step s t" for s t :: "'a mpool"
  proof -
    from i have w: "worker_seen s" "pusher_seen s" "down_ok s" "items_ok s" "mworkers s \<noteq> []"
        "length (queue (mqueue s)) \<le> capacity (mqueue s)"
      by (simp_all add: mpool_inv_def)
    have "mworkers t \<noteq> []" using mpool_frame [OF st] w(5) by auto
    with worker_seen_step [OF w(1) st] pusher_seen_step [OF w(2) st] down_step [OF w(3) st] items_step [OF w(4) st]
      mpool_bounded [OF st w(6)]
    show ?thesis by (simp add: mpool_inv_def)
  qed
qed

lemma mpool_reachable:
  assumes "mpool_step\<^sup>*\<^sup>* (new_mpool c n m k) s"
  shows "mpool_inv s" and "capacity (mqueue s) = c"
proof -
  have "mpool_starts (new_mpool c n m k)" by (auto simp: mpool_starts_def)
  from mp.reachable_inv [OF this assms] show "mpool_inv s" .
  from assms show "capacity (mqueue s) = c"
    by (induction rule: rtranclp_induct) (simp_all add: new_mpool_def new_queue_def mpool_frame)
qed

lemma mpool_invD:
  assumes "mpool_inv s"
  shows "worker_seen s" "pusher_seen s" "down_ok s" "items_ok s" "mworkers s \<noteq> []"
  using assms by (simp_all add: mpool_inv_def)

section \<open>Quiescence\<close>

lemma mstuck_worker:
  assumes "\<not> mcan_move s" and "w \<in> set (mworkers s)"
  shows "w = MWait \<or> w = MExit"
proof -
  obtain i where i: "i < length (mworkers s)" "mworkers s ! i = w" using assms(2) by (auto simp: in_set_conv_nth)
  with assms(1) have "mworker_step i s = None" "freeing w \<noteq> 1" unfolding mcan_move_def by blast+
  with i show ?thesis by (cases w) (simp_all add: mworker_step_def)
qed

lemma mstuck_pusher:
  assumes "\<not> mcan_move s" and "p \<in> set (mpushers s)"
  shows "p = MIdle \<or> (\<exists>x. p = MFull x)"
proof -
  obtain j where j: "j < length (mpushers s)" "mpushers s ! j = p" using assms(2) by (auto simp: in_set_conv_nth)
  with assms(1) have "mpusher_step j s = None" "p \<noteq> MNotifyEmpty" unfolding mcan_move_def by blast+
  with j show ?thesis by (cases p) (simp_all add: mpusher_step_def)
qed

lemma mstuck_closer:
  assumes "\<not> mcan_move s" and "c \<in> set (mclosers s)"
  shows "c = CIdle \<or> c = CDone \<or> c = CJoin \<and> \<not> (\<forall>w \<in> set (mworkers s). w = MExit)"
proof -
  obtain k where k: "k < length (mclosers s)" "mclosers s ! k = c" using assms(2) by (auto simp: in_set_conv_nth)
  with assms(1) have "c = CIdle \<or> mcloser_step k s = None" unfolding mcan_move_def by blast
  with k show ?thesis by (cases c) (auto simp: mcloser_step_def split: if_splits)
qed

lemma weights_zero:
  assumes "\<And>x. x \<in> set xs \<Longrightarrow> f x = (0 :: nat)"
  shows "sum_list (map f xs) = 0"
  using assms by (simp add: sum_list_eq_0_iff)

lemma mstuck_waiting:
  assumes r: "mpool_inv s" and st: "\<not> mcan_move s"
  shows "MWait \<in> set (mworkers s) \<Longrightarrow> queue (mqueue s) = [] \<and> \<not> shutdown_flag (mqueue s)"
    and "0 < capacity (mqueue s) \<Longrightarrow> MFull x \<notin> set (mpushers s)"
proof -
  note I = mpool_invD [OF r] and W = mstuck_worker [OF st] and P = mstuck_pusher [OF st] and C = mstuck_closer [OF st]
  have z: "sum_list (map entering (mworkers s)) = 0" "sum_list (map freeing (mworkers s)) = 0"
    by (rule weights_zero, drule W, fastforce)+
  have z': "sum_list (map telling (mpushers s)) = 0" "sum_list (map pushing (mpushers s)) = 0"
    by (rule weights_zero, drule P, fastforce)+
  have nc: "CNotEmpty \<notin> set (mclosers s)" "CNotFull \<notin> set (mclosers s)" using C by blast+
  show q: "queue (mqueue s) = [] \<and> \<not> shutdown_flag (mqueue s)" if "MWait \<in> set (mworkers s)"
    using that I(1,3) z z' nc by (simp add: worker_seen_def down_ok_def)
  show "MFull x \<notin> set (mpushers s)" if "0 < capacity (mqueue s)"
  proof
    assume f: "MFull x \<in> set (mpushers s)"
    then have ns: "\<not> shutdown_flag (mqueue s)" using I(3) nc by (auto simp: down_ok_def)
    with I(3) have "MExit \<notin> set (mworkers s)" by (auto simp: down_ok_def)
    with W I(5) have "MWait \<in> set (mworkers s)" by (cases "mworkers s") auto
    with q have "queue (mqueue s) = []" by blast
    with f ns I(2) z z' that show False unfolding pusher_seen_def by auto
  qed
qed

section \<open>Termination\<close>

text \<open>
  How much the threads can still do by themselves: every step of a job through the pool, every look
  at the queue and every notification is counted, for shutdown with all the threads it can wake.
\<close>

fun worker_work :: "'a mworker \<Rightarrow> nat" where
  "worker_work MEnter = 1" | "worker_work MWait = 0" | "worker_work (MNotifyFull x) = 4"
| "worker_work (MRun x) = 2" | "worker_work MExit = 0"

fun pusher_work :: "'a mpusher \<Rightarrow> nat" where
  "pusher_work MIdle = 0" | "pusher_work (MPush x) = 7" | "pusher_work (MFull x) = 6" | "pusher_work MNotifyEmpty = 2"

fun closer_work :: "nat \<Rightarrow> nat \<Rightarrow> mcloser \<Rightarrow> nat" where
  "closer_work n m CIdle = n + m + 5" | "closer_work n m CFlag = n + m + 4" | "closer_work n m CNotEmpty = n + m + 3"
| "closer_work n m CNotFull = m + 2" | "closer_work n m CJoin = 1" | "closer_work n m CDone = 0"

definition mwork :: "'a mpool \<Rightarrow> nat" where
  "mwork s = sum_list (map worker_work (mworkers s)) + sum_list (map pusher_work (mpushers s)) +
     4 * length (queue (mqueue s)) +
     sum_list (map (closer_work (length (mworkers s)) (length (mpushers s))) (mclosers s))"

lemma sum_list_one_more:
  assumes "\<And>x. f (g x) \<le> Suc (f x)"
  shows "sum_list (map f (map g xs)) \<le> sum_list (map f xs) + length xs"
proof (induction xs)
  case (Cons x xs)
  with assms [of x] show ?case by simp
qed simp

lemma woken_work:
  "sum_list (map worker_work (map wake_worker ws)) \<le> sum_list (map worker_work ws) + length ws"
  "sum_list (map pusher_work (map wake_pusher ps)) \<le> sum_list (map pusher_work ps) + length ps"
proof -
  have "worker_work (wake_worker w) \<le> Suc (worker_work w)" for w :: "'a mworker" by (cases w) simp_all
  then show "sum_list (map worker_work (map wake_worker ws)) \<le> sum_list (map worker_work ws) + length ws"
    by (rule sum_list_one_more)
  have "pusher_work (wake_pusher p) \<le> Suc (pusher_work p)" for p :: "'b mpusher" by (cases p) simp_all
  then show "sum_list (map pusher_work (map wake_pusher ps)) \<le> sum_list (map pusher_work ps) + length ps"
    by (rule sum_list_one_more)
qed

lemma worker_works:
  assumes "i < length (mworkers s)" and "mworker_step i s = Some t"
  shows "mwork t < mwork s"
  using assms(2)
proof (cases rule: mworker_step_cases)
  case waits
  with weight_upd [OF assms(1), of worker_work MWait] show ?thesis by (simp add: mwork_def)
next
  case ends
  with weight_upd [OF assms(1), of worker_work MExit] show ?thesis by (simp add: mwork_def)
next
  case (takes x xs)
  with weight_upd [OF assms(1), of worker_work "MNotifyFull x"] show ?thesis by (simp add: mwork_def)
next
  case (runs x)
  with weight_upd [OF assms(1), of worker_work MEnter] show ?thesis by (simp add: mwork_def)
qed

lemma pusher_works:
  assumes "j < length (mpushers s)" and "mpusher_step j s = Some t"
  shows "mwork t < mwork s"
  using assms(2)
proof (cases rule: mpusher_step_cases)
  case (full x)
  with weight_upd [OF assms(1), of pusher_work "MFull x"] show ?thesis by (simp add: mwork_def)
next
  case (refused x)
  with weight_upd [OF assms(1), of pusher_work MIdle] show ?thesis by (simp add: mwork_def)
next
  case (accepted x)
  with weight_upd [OF assms(1), of pusher_work MNotifyEmpty] show ?thesis by (simp add: mwork_def)
qed

lemma closer_works:
  assumes "k < length (mclosers s)" and "mcloser_step k s = Some t"
  shows "mwork t < mwork s"
proof -
  note u = weight_upd [OF assms(1), of "closer_work (length (mworkers s)) (length (mpushers s))"]
  show ?thesis
  proof (cases "mclosers s ! k")
    case CIdle
    with assms(2) u [of CDone] u [of CFlag] show ?thesis
      by (auto simp: mcloser_step_def mwork_def split: if_splits)
  next
    case CFlag
    with assms(2) u [of CNotEmpty] show ?thesis by (auto simp: mcloser_step_def mwork_def shutdown_def)
  next
    case CNotEmpty
    with assms(2) have "t = set_mcloser k CNotFull (s\<lparr>mworkers := map wake_worker (mworkers s)\<rparr>)"
      by (simp add: mcloser_step_def)
    with CNotEmpty u [of CNotFull] woken_work(1) [of "mworkers s"] show ?thesis by (simp add: mwork_def)
  next
    case CNotFull
    with assms(2) have "t = set_mcloser k CJoin (s\<lparr>mpushers := map wake_pusher (mpushers s)\<rparr>)"
      by (simp add: mcloser_step_def)
    with CNotFull u [of CJoin] woken_work(2) [of "mpushers s"] show ?thesis by (simp add: mwork_def)
  next
    case CJoin
    with assms(2) u [of CDone] show ?thesis by (auto simp: mcloser_step_def mwork_def split: if_splits)
  qed (use assms(2) in \<open>simp add: mcloser_step_def\<close>)
qed

lemma own_works:
  assumes "mpool_own s t"
  shows "mwork t < mwork s"
  using assms
proof cases
  case (worker i)
  then show ?thesis by (rule worker_works)
next
  case (pusher j)
  then show ?thesis by (rule pusher_works)
next
  case (closer k)
  from closer(1,3) show ?thesis by (rule closer_works)
next
  case (notify_full i x j y)
  with weight_upd [OF notify_full(2), of worker_work "MRun x"] weight_upd [OF notify_full(4), of pusher_work "MPush y"]
  show ?thesis by (simp add: mwork_def)
next
  case (notify_full_none i x)
  with weight_upd [OF notify_full_none(2), of worker_work "MRun x"] show ?thesis by (simp add: mwork_def)
next
  case (notify_empty j i)
  with weight_upd [OF notify_empty(4), of worker_work MEnter] weight_upd [OF notify_empty(2), of pusher_work MIdle]
  show ?thesis by (simp add: mwork_def)
next
  case (notify_empty_none j)
  with weight_upd [OF notify_empty_none(2), of pusher_work MIdle] show ?thesis by (simp add: mwork_def)
qed

lemma mcan_move_iff: "mcan_move s \<longleftrightarrow> (\<exists>t. mpool_own s t)"
proof
  assume "mcan_move s"
  then consider (worker) i t where "i < length (mworkers s)" "mworker_step i s = Some t"
    | (frees) i x where "i < length (mworkers s)" "mworkers s ! i = MNotifyFull x"
    | (pusher) j t where "j < length (mpushers s)" "mpusher_step j s = Some t"
    | (tells) j where "j < length (mpushers s)" "mpushers s ! j = MNotifyEmpty"
    | (closer) k t where "k < length (mclosers s)" "mclosers s ! k \<noteq> CIdle" "mcloser_step k s = Some t"
    unfolding mcan_move_def by (metis One_nat_def freeing.elims not_None_eq zero_neq_one)
  then show "\<exists>t. mpool_own s t"
  proof cases
    case (frees i x)
    show ?thesis
    proof (cases "\<forall>y. MFull y \<notin> set (mpushers s)")
      case True
      with frees show ?thesis by (blast intro: mpool_own.notify_full_none)
    next
      case False
      then obtain j y where "j < length (mpushers s)" "mpushers s ! j = MFull y" by (metis in_set_conv_nth)
      from mpool_own.notify_full [OF frees this] show ?thesis by blast
    qed
  next
    case (tells j)
    show ?thesis
    proof (cases "MWait \<in> set (mworkers s)")
      case True
      then obtain i where "i < length (mworkers s)" "mworkers s ! i = MWait" by (metis in_set_conv_nth)
      from mpool_own.notify_empty [OF tells this] show ?thesis by blast
    next
      case False
      from mpool_own.notify_empty_none [OF tells this] show ?thesis by blast
    qed
  qed (blast intro: mpool_own.intros)+
next
  assume "\<exists>t. mpool_own s t"
  then obtain t where "mpool_own s t" by blast
  then show "mcan_move s"
    by cases (unfold mcan_move_def, (metis freeing.simps(1) not_None_eq)+)
qed

lemma mstuck_facts:
  fixes s :: "'a mpool"
  assumes "mpool_inv s" and "0 < capacity (mqueue s)" and "\<not> mcan_move s"
  shows "queue (mqueue s) = [] \<and> mset (mexecuted s) = mset (maccepted s) \<and>
    set (mpushers s) \<subseteq> {MIdle} \<and> set (mclosers s) \<subseteq> {CIdle, CDone} \<and>
    set (mworkers s) = (if shutdown_flag (mqueue s) then {MExit} else {MWait})"
proof -
  note I = mpool_invD [OF assms(1)] and W = mstuck_worker [OF assms(3)]
    and P = mstuck_pusher [OF assms(3)] and C = mstuck_closer [OF assms(3)] and S = mstuck_waiting [OF assms(1,3)]
  have ex: "MExit \<in> set (mworkers s) \<Longrightarrow> shutdown_flag (mqueue s) \<and> queue (mqueue s) = []"
    using I(3) by (simp add: down_ok_def)
  obtain w where w: "w \<in> set (mworkers s)" using I(5) by (cases "mworkers s") auto
  define v :: "'a mworker" where "v = (if shutdown_flag (mqueue s) then MExit else MWait)"
  have "u = v" if "u \<in> set (mworkers s)" for u
    using W [OF that] ex S(1) that by (elim disjE) (simp_all add: v_def)
  with w have "set (mworkers s) = {v}" by blast
  then have ws: "set (mworkers s) = (if shutdown_flag (mqueue s) then {MExit} else {MWait})" by (simp add: v_def)
  have q: "queue (mqueue s) = []" using w W ex S(1) by blast
  have "sum_list (map mheld (mworkers s)) = {#}" by (rule mheld_none) (use W in force)
  with I(4) q have e: "mset (mexecuted s) = mset (maccepted s)" by (simp add: items_ok_def)
  have cs: "c' = CIdle \<or> c' = CDone" if "c' \<in> set (mclosers s)" for c'
    using C [OF that]
  proof (elim disjE conjE)
    assume j: "c' = CJoin" "\<not> (\<forall>u \<in> set (mworkers s). u = MExit)"
    then have "shutdown_flag (mqueue s)" using I(3) that by (simp add: down_ok_def)
    with j(2) ws show ?thesis by simp
  qed simp_all
  have "p = MIdle" if "p \<in> set (mpushers s)" for p
    using P [OF that] S(2) [OF assms(2)] that by blast
  with q e ws cs show ?thesis by blast
qed

interpretation mo: measured_system mpool_own mwork
  by unfold_locales (rule own_works)

text \<open>
  C6. The pool over the mutex queue always finishes what it has accepted: from every state it can
  reach, whatever its threads do next, they come to rest within \<open>mwork\<close> steps unless a thread is
  woken for no reason or a new call is made; and where they rest, every accepted job has been run
  exactly once, every submit has returned, and the workers wait or, when the queue was shut down,
  have all ended and every call of shutdown has returned.  A notification wakes at most one thread
  and is made after the mutex was released.
\<close>

theorem mutex_pool_finishes:
  fixes s :: "'a mpool"
  assumes "mpool_step\<^sup>*\<^sup>* (new_mpool c n m k) s" and "0 < c"
  shows "(\<forall>l t. (mpool_own ^^ l) s t \<longrightarrow> l \<le> mwork s) \<and>
    (\<forall>t. mpool_own\<^sup>*\<^sup>* s t \<and> \<not> mcan_move t \<longrightarrow>
       queue (mqueue t) = [] \<and> mset (mexecuted t) = mset (maccepted t) \<and>
       set (mpushers t) \<subseteq> {MIdle} \<and> set (mclosers t) \<subseteq> {CIdle, CDone} \<and>
       set (mworkers t) = (if shutdown_flag (mqueue t) then {MExit} else {MWait})) \<and>
    (\<exists>t. mpool_own\<^sup>*\<^sup>* s t \<and> \<not> mcan_move t)"
proof (intro conjI allI impI)
  show "l \<le> mwork s" if "(mpool_own ^^ l) s t" for l t
    using mo.steps_bounded [OF that] by simp
  show "\<exists>t. mpool_own\<^sup>*\<^sup>* s t \<and> \<not> mcan_move t"
    using mo.comes_to_rest [of s] by (simp add: mcan_move_iff)
  fix t assume t: "mpool_own\<^sup>*\<^sup>* s t \<and> \<not> mcan_move t"
  then have "mpool_step\<^sup>*\<^sup>* s t" using rtranclp_mono [of mpool_own mpool_step] mpool_step.own by blast
  with assms(1) have "mpool_step\<^sup>*\<^sup>* (new_mpool c n m k) t" by simp
  note F = mstuck_facts [OF mpool_reachable(1) [OF this], unfolded mpool_reachable(2) [OF this], OF assms(2)]
  from F t show "queue (mqueue t) = []" "mset (mexecuted t) = mset (maccepted t)" "set (mpushers t) \<subseteq> {MIdle}"
    "set (mclosers t) \<subseteq> {CIdle, CDone}" "set (mworkers t) = (if shutdown_flag (mqueue t) then {MExit} else {MWait})"
    by blast+
qed


section \<open>Given interleavings\<close>

datatype 'a mcmd = CallSubmit nat 'a | GoWorker nat | GoPusher nat | GoCloser nat | TellFull nat nat | TellEmpty nat nat

definition nobody_full :: "'a mpool \<Rightarrow> bool" where
  "nobody_full s \<longleftrightarrow> (\<forall>p \<in> set (mpushers s). case p of MFull y \<Rightarrow> False | _ \<Rightarrow> True)"

fun mexec :: "'a mcmd \<Rightarrow> 'a mpool \<Rightarrow> 'a mpool option" where
  "mexec (CallSubmit j x) s =
     (if j < length (mpushers s) \<and> pusher_work (mpushers s ! j) = 0 then Some (set_mpusher j (MPush x) s) else None)"
| "mexec (GoWorker i) s = (if i < length (mworkers s) then mworker_step i s else None)"
| "mexec (GoPusher j) s = (if j < length (mpushers s) then mpusher_step j s else None)"
| "mexec (GoCloser k) s = (if k < length (mclosers s) then mcloser_step k s else None)"
| "mexec (TellFull i j) s =
     (if i < length (mworkers s) \<and> j < length (mpushers s)
      then case mworkers s ! i of
          MNotifyFull x \<Rightarrow>
            (case mpushers s ! j of
               MFull y \<Rightarrow> Some (set_mworker i (MRun x) (set_mpusher j (MPush y) s))
             | _ \<Rightarrow> if nobody_full s then Some (set_mworker i (MRun x) s) else None)
        | _ \<Rightarrow> None
      else None)"
| "mexec (TellEmpty j i) s =
     (if j < length (mpushers s) \<and> i < length (mworkers s) \<and> telling (mpushers s ! j) = 1
      then case mworkers s ! i of
          MWait \<Rightarrow> Some (set_mpusher j MIdle (set_mworker i MEnter s))
        | _ \<Rightarrow> if list_all (\<lambda>w. case w of MWait \<Rightarrow> False | _ \<Rightarrow> True) (mworkers s) then Some (set_mpusher j MIdle s) else None
      else None)"

lemma nobody_fullD: "nobody_full s \<Longrightarrow> \<forall>y. MFull y \<notin> set (mpushers s)"
  by (force simp: nobody_full_def)

lemma pusher_idle: "pusher_work p = 0 \<Longrightarrow> p = MIdle" and pusher_telling: "telling p = 1 \<Longrightarrow> p = MNotifyEmpty"
  by (cases p; simp)+

text \<open>The commands other than new calls are steps of the threads themselves.\<close>

fun own_cmd :: "'a mcmd \<Rightarrow> 'a mpool \<Rightarrow> bool" where
  "own_cmd (CallSubmit j x) s = False" | "own_cmd (GoCloser k) s = (mclosers s ! k \<noteq> CIdle)" | "own_cmd c s = True"

lemma mexec_own: "mexec c s = Some t \<Longrightarrow> own_cmd c s \<Longrightarrow> mpool_own s t"
proof (cases c)
  case (TellFull i j)
  assume "mexec c s = Some t"
  then show ?thesis using TellFull nobody_fullD [of s] mpool_own.notify_full [of i s] mpool_own.notify_full_none [of i s]
    by (auto split: if_splits mworker.splits mpusher.splits)
next
  case (TellEmpty j i)
  assume "mexec c s = Some t"
  then show ?thesis using TellEmpty pusher_telling mpool_own.notify_empty [of j s i] mpool_own.notify_empty_none [of j s]
    by (auto simp: list_all_iff split: if_splits mworker.splits)
qed (auto intro: mpool_own.worker mpool_own.pusher mpool_own.closer split: if_splits)

lemma mexec_step:
  assumes "mexec c s = Some t"
  shows "mpool_step s t"
proof (cases "own_cmd c s")
  case True
  with mexec_own [OF assms] show ?thesis by (blast intro: mpool_step.own)
next
  case False
  with assms pusher_idle show ?thesis
    by (cases c) (auto intro: mpool_step.submits mpool_step.shuts split: if_splits)
qed

fun mexecs :: "'a mcmd list \<Rightarrow> 'a mpool \<Rightarrow> 'a mpool option" where
  "mexecs [] s = Some s"
| "mexecs (c # cs) s = Option.bind (mexec c s) (mexecs cs)"

lemma mexecs_steps: "mexecs cs s = Some t \<Longrightarrow> mpool_step\<^sup>*\<^sup>* s t"
proof (induction cs arbitrary: s)
  case (Cons c cs)
  then obtain u where "mexec c s = Some u" "mexecs cs u = Some t" by (auto split: bind_splits)
  with Cons.IH mexec_step show ?case by (meson converse_rtranclp_into_rtranclp)
qed simp

text \<open>
  Two jobs through a queue of one place: the second submit waits until the first worker has taken
  the first job; shutdown is called while the second job runs.
\<close>

definition one_place_cmds :: "nat mcmd list" where
  "one_place_cmds =
     [GoWorker 0, GoWorker 1, CallSubmit 0 7, GoPusher 0, TellEmpty 0 0, CallSubmit 0 8, GoPusher 0, GoWorker 0,
      TellFull 0 0, GoPusher 0, TellEmpty 0 1, GoWorker 1, TellFull 1 0, GoWorker 0, GoWorker 0, GoCloser 0, GoCloser 0,
      GoCloser 0, GoWorker 1, GoWorker 1, GoWorker 0, GoCloser 0, GoCloser 0]"

definition one_place_run :: "nat mpool" where
  "one_place_run =
     \<lparr>mqueue = \<lparr>queue = [], capacity = 1, shutdown_flag = True\<rparr>, mshutting = True, mworkers = [MExit, MExit],
      mpushers = [MIdle], mclosers = [CDone], maccepted = [7, 8], mexecuted = [7, 8]\<rparr>"

lemma one_place_run_is: "mexecs one_place_cmds (new_mpool 1 2 1 1) = Some one_place_run"
  by code_simp

theorem mutex_pool_finishes_witness:
  "queue (mqueue one_place_run) = [] \<and> mset (mexecuted one_place_run) = {#7, 8#} \<and>
   set (mworkers one_place_run) = {MExit} \<and> set (mclosers one_place_run) \<subseteq> {CIdle, CDone}"
proof -
  have r: "mpool_step\<^sup>*\<^sup>* (new_mpool 1 2 1 1) one_place_run"
    by (rule mexecs_steps [OF one_place_run_is])
  have "\<not> mcan_move one_place_run"
    by code_simp
  with mutex_pool_finishes [OF r] show ?thesis
    by (simp add: one_place_run_def)
qed

end
