(* ===== verification/PooledRun.thy ===== *)
theory PooledRun
  imports ThreadPool
begin

text \<open>
  A pool with the jobs it runs: the shape all pooled runs of src/main.cpp share.  The main thread
  makes a pool, submits jobs \<open>0, ..., N - 1\<close> one after the other and destroys the pool, whose
  destructor calls shutdown; the workers run the jobs step by step.  What a job does is a
  parameter: \<open>jstep w x e e'\<close> is a step of job \<open>x\<close> on worker \<open>w\<close> that takes the shared data
  \<open>e\<close> to \<open>e'\<close>, and \<open>jdone x e\<close> says that job \<open>x\<close> has returned.
\<close>

section \<open>The system\<close>

record 'e pooled =
  tpool :: "nat pool"
  shared :: 'e
  submitted :: nat      \<comment> \<open>how many jobs the main thread has submitted\<close>

inductive pooled_step ::
  "nat \<Rightarrow> (nat \<Rightarrow> nat \<Rightarrow> 'e \<Rightarrow> 'e \<Rightarrow> bool) \<Rightarrow> (nat \<Rightarrow> 'e \<Rightarrow> bool) \<Rightarrow> 'e pooled \<Rightarrow> 'e pooled \<Rightarrow> bool"
  for N jstep jdone where
  submits: "pushers (tpool s) ! 0 = PIdle \<Longrightarrow> closers (tpool s) ! 0 = SIdle \<Longrightarrow> submitted s < N \<Longrightarrow>
     pooled_step N jstep jdone s
       (s\<lparr>tpool := submit 0 (submitted s) (tpool s), submitted := submitted s + 1\<rparr>)"
| pusher: "pusher_step full 0 (tpool s) = Some p \<Longrightarrow> pooled_step N jstep jdone s (s\<lparr>tpool := p\<rparr>)"
| notify: "pushers (tpool s) ! 0 = PNotify \<Longrightarrow> i < length (workers (tpool s)) \<Longrightarrow> workers (tpool s) ! i = WWait \<Longrightarrow>
     pooled_step N jstep jdone s (s\<lparr>tpool := set_pusher 0 PIdle (set_worker i WLock (tpool s))\<rparr>)"
| notify_none: "pushers (tpool s) ! 0 = PNotify \<Longrightarrow> WWait \<notin> set (workers (tpool s)) \<Longrightarrow>
     pooled_step N jstep jdone s (s\<lparr>tpool := set_pusher 0 PIdle (tpool s)\<rparr>)"
| destroys: "(closers (tpool s) ! 0 = SIdle \<longrightarrow> submitted s = N \<and> pushers (tpool s) ! 0 = PIdle) \<Longrightarrow>
     closer_step 0 (tpool s) = Some p \<Longrightarrow> pooled_step N jstep jdone s (s\<lparr>tpool := p\<rparr>)"
| worker: "i < length (workers (tpool s)) \<Longrightarrow> worker_step i (tpool s) = Some p \<Longrightarrow>
     (\<forall>x. workers (tpool s) ! i = WRun x \<longrightarrow> jdone x (shared s)) \<Longrightarrow>
     pooled_step N jstep jdone s (s\<lparr>tpool := p\<rparr>)"
| spurious: "i < length (workers (tpool s)) \<Longrightarrow> workers (tpool s) ! i = WWait \<Longrightarrow>
     pooled_step N jstep jdone s (s\<lparr>tpool := set_worker i WLock (tpool s)\<rparr>)"
| job: "i < length (workers (tpool s)) \<Longrightarrow> workers (tpool s) ! i = WRun x \<Longrightarrow> jstep i x (shared s) e \<Longrightarrow>
     pooled_step N jstep jdone s (s\<lparr>shared := e\<rparr>)"

definition pooled_start :: "nat pool \<Rightarrow> 'e \<Rightarrow> 'e pooled" where
  "pooled_start p e = \<lparr>tpool = p, shared = e, submitted = 0\<rparr>"

text \<open>The destructor of the pool has returned.\<close>

definition joined :: "'e pooled \<Rightarrow> bool" where
  "joined s \<longleftrightarrow> closers (tpool s) ! 0 = SDone"

section \<open>The invariant\<close>

fun in_hand :: "nat ppc \<Rightarrow> nat list" where
  "in_hand (PCheck x) = [x]" | "in_hand (PTry x) = [x]" | "in_hand (PFull x) = [x]" | "in_hand _ = []"

definition main_ok :: "nat \<Rightarrow> 'e pooled \<Rightarrow> bool" where
  "main_ok N s \<longleftrightarrow>
     length (pushers (tpool s)) = 1 \<and> length (closers (tpool s)) = 1 \<and> submitted s \<le> N \<and>
     items (tpool s) @ in_hand (pushers (tpool s) ! 0) = [0..<submitted s] \<and>
     pushers (tpool s) ! 0 \<noteq> PRefuse \<and>
     (closers (tpool s) ! 0 \<noteq> SIdle \<longrightarrow> submitted s = N \<and> pushers (tpool s) ! 0 = PIdle) \<and>
     (closers (tpool s) ! 0 \<in> {SIdle, SStore} \<longrightarrow> \<not> shut (tpool s)) \<and>
     (closers (tpool s) ! 0 = SIdle \<longrightarrow> \<not> shuttingDown (tpool s)) \<and>
     (joined s \<longrightarrow> set (workers (tpool s)) = {WExit})"

definition jobs_ok :: "(nat \<Rightarrow> 'e \<Rightarrow> bool) \<Rightarrow> 'e pooled \<Rightarrow> bool" where
  "jobs_ok jdone s \<longleftrightarrow> (\<forall>x \<in> set (executed (tpool s)). jdone x (shared s))"


lemma single: "length xs = 1 \<Longrightarrow> xs[0 := v] = [v]"
  by (cases xs) auto

lemma pooled_pool:
  assumes "pooled_step N jstep jdone s t" and "main_ok N s"
  shows "tpool t = tpool s \<or> pool_step (tpool s) (tpool t)"
  using assms(1)
proof cases
  case (submits)
  with assms(2) pool_step.submits [of 0 "tpool s"] show ?thesis by (simp add: main_ok_def)
next
  case (pusher full p)
  with assms(2) pool_step.pusher [of 0 "tpool s" full p] show ?thesis by (simp add: main_ok_def)
next
  case (notify i)
  with assms(2) pool_step.notify [of 0 "tpool s" i] show ?thesis by (simp add: main_ok_def)
next
  case notify_none
  with assms(2) pool_step.notify_none [of 0 "tpool s"] show ?thesis by (simp add: main_ok_def)
next
  case (destroys p)
  with assms(2) pool_step.closer [of 0 "tpool s" p] show ?thesis by (simp add: main_ok_def)
qed (auto intro: pool_step.intros)

lemma exited_step:
  assumes "set (workers p) = {WExit}" and "i < length (workers p)"
  shows "worker_step i p = None" and "workers p ! i = WExit"
proof -
  show "workers p ! i = WExit" using assms nth_mem by blast
  then show "worker_step i p = None" by (simp add: worker_step_def)
qed

lemma main_worker:
  assumes m: "main_ok N s" and i: "i < length (workers (tpool s))" and st: "worker_step i (tpool s) = Some p"
  shows "main_ok N (s\<lparr>tpool := p\<rparr>)"
proof -
  have "\<not> joined s" using m exited_step(1) [OF _ i] st by (auto simp: main_ok_def)
  moreover have "pushers p = pushers (tpool s)" "closers p = closers (tpool s)" "items p = items (tpool s)"
    "shut p = shut (tpool s)" "shuttingDown p = shuttingDown (tpool s)"
    using st unfolding worker_step_def pop_or_def by (auto split: wpc.splits if_splits nat.splits)
  ultimately show ?thesis using m by (simp add: main_ok_def joined_def)
qed

lemma main_pusher:
  assumes m: "main_ok N s" and st: "pusher_step full 0 (tpool s) = Some p"
  shows "main_ok N (s\<lparr>tpool := p\<rparr>)"
proof -
  have len: "length (pushers (tpool s)) = 1" using m by (simp add: main_ok_def)
  have "pusher_step full 0 (tpool s) = None" if "pushers (tpool s) ! 0 = PIdle" using that by (simp add: pusher_step_def)
  with st m have ne: "pushers (tpool s) ! 0 \<noteq> PIdle" "pushers (tpool s) ! 0 \<noteq> PRefuse" by (auto simp: main_ok_def)
  then have c: "closers (tpool s) ! 0 = SIdle" using m unfolding main_ok_def by blast
  with m have c': "\<not> shut (tpool s)" unfolding main_ok_def by blast
  have it: "items p @ in_hand (pushers p ! 0) = items (tpool s) @ in_hand (pushers (tpool s) ! 0) \<and>
    length (pushers p) = 1 \<and> pushers p ! 0 \<noteq> PRefuse"
    using st by (cases "pushers (tpool s) ! 0") (use ne c' in \<open>auto simp: pusher_step_def single [OF len] split: if_splits\<close>)
  have "shuttingDown p = shuttingDown (tpool s)"
    using st unfolding pusher_step_def by (auto split: ppc.splits if_splits)
  with it c m pusher_frame [OF st] show ?thesis by (simp add: main_ok_def joined_def)
qed

lemma main_closer:
  assumes m: "main_ok N s" and st: "closer_step 0 (tpool s) = Some p" and e: "end_ok (tpool s)"
    and g: "closers (tpool s) ! 0 = SIdle \<longrightarrow> submitted s = N \<and> pushers (tpool s) ! 0 = PIdle"
  shows "main_ok N (s\<lparr>tpool := p\<rparr>)"
proof -
  have len: "length (closers (tpool s)) = 1" using m by (simp add: main_ok_def)
  have fr: "pushers p = pushers (tpool s)" "items p = items (tpool s)" using closer_frame(3,5) [OF st] by simp_all
  have mm: "submitted s = N" "pushers (tpool s) ! 0 = PIdle" using m g by (cases "closers (tpool s) ! 0 = SIdle"; simp add: main_ok_def)+
  have ws: "workers (tpool s) \<noteq> []" using e by (simp add: end_ok_def)
  have nsd: "closers (tpool s) ! 0 = SIdle \<Longrightarrow> \<not> shuttingDown (tpool s) \<and> \<not> shut (tpool s)" using m by (simp add: main_ok_def)
  have "(closers p ! 0 = SDone \<longrightarrow> set (workers p) = {WExit}) \<and> length (closers p) = 1 \<and> closers p ! 0 \<noteq> SIdle \<and>
      (closers p ! 0 = SStore \<longrightarrow> \<not> shut p)"
  proof (cases "closers (tpool s) ! 0")
    case SIdle
    with st nsd show ?thesis by (simp add: closer_step_def single [OF len]) (auto simp: len)
  next
    case SJoin
    then have p: "p = tpool s\<lparr>closers := [SDone]\<rparr>" "\<forall>w \<in> set (workers (tpool s)). w = WExit"
      using st by (simp_all add: closer_step_def single [OF len] split: if_splits)
    have "hd (workers (tpool s)) \<in> set (workers (tpool s))" using ws by simp
    with p show ?thesis by auto
  qed (use st in \<open>auto simp: closer_step_def single [OF len] split: if_splits\<close>)
  then show ?thesis using m mm fr by (simp add: main_ok_def joined_def)
qed

lemma main_step:
  assumes m: "main_ok N s" and inv: "pool_inv (tpool s)" and st: "pooled_step N jstep jdone s t"
  shows "main_ok N t"
  using st
proof cases
  case submits
  have "length (pushers (tpool s)) = 1" using m by (simp add: main_ok_def)
  with submits m show ?thesis by (simp add: main_ok_def submit_def single joined_def)
next
  case (pusher full p)
  with main_pusher [OF m] show ?thesis by simp
next
  case (notify i)
  have "length (pushers (tpool s)) = 1" using m by (simp add: main_ok_def)
  moreover have "\<not> joined s" using m notify exited_step(2) [of "tpool s" i] by (auto simp: main_ok_def)
  ultimately show ?thesis using notify m by (simp add: main_ok_def single joined_def)
next
  case notify_none
  have "length (pushers (tpool s)) = 1" using m by (simp add: main_ok_def)
  with notify_none m show ?thesis by (simp add: main_ok_def single joined_def)
next
  case (destroys p)
  with main_closer [OF m] inv show ?thesis by (simp add: pool_inv_def)
next
  case (worker i p)
  with main_worker [OF m] show ?thesis by simp
next
  case (spurious i)
  have "\<not> joined s" using m spurious exited_step(2) [of "tpool s" i] by (auto simp: main_ok_def)
  with spurious m show ?thesis by (simp add: main_ok_def joined_def)
next
  case (job i x e)
  with m show ?thesis by (simp add: main_ok_def joined_def)
qed


section \<open>Rest\<close>

text \<open>Nothing can happen any more but that a waiting worker wakes up by itself.\<close>

definition at_rest :: "nat \<Rightarrow> (nat \<Rightarrow> nat \<Rightarrow> 'e \<Rightarrow> 'e \<Rightarrow> bool) \<Rightarrow> (nat \<Rightarrow> 'e \<Rightarrow> bool) \<Rightarrow> 'e pooled \<Rightarrow> bool" where
  "at_rest N jstep jdone s \<longleftrightarrow>
     (\<forall>t. pooled_step N jstep jdone s t \<longrightarrow>
        (\<exists>i < length (workers (tpool s)). workers (tpool s) ! i = WWait \<and> tpool t = set_worker i WLock (tpool s)))"

lemma worker_step_changes:
  assumes "i < length (workers p)" and "worker_step i p = Some p'"
  shows "workers p' ! i \<noteq> workers p ! i" and "workers p ! i \<noteq> WWait"
  using assms unfolding worker_step_def pop_or_def by (auto split: wpc.splits if_splits nat.splits)

lemma pusher_step_changes: "0 < length (pushers p) \<Longrightarrow> pusher_step full 0 p = Some p' \<Longrightarrow> pushers p' \<noteq> pushers p"
  by (cases "pushers p ! 0"; cases "pushers p") (auto simp: pusher_step_def split: if_splits)

lemma closer_step_changes: "0 < length (closers p) \<Longrightarrow> closer_step 0 p = Some p' \<Longrightarrow> closers p' \<noteq> closers p"
  by (cases "closers p ! 0"; cases "closers p") (auto simp: closer_step_def split: if_splits)

lemma at_restD:
  assumes rest: "at_rest N jstep jdone s" and m: "length (pushers (tpool s)) = 1" "length (closers (tpool s)) = 1"
  shows "i < length (workers (tpool s)) \<Longrightarrow>
      worker_step i (tpool s) = None \<or> (\<exists>x. workers (tpool s) ! i = WRun x \<and> \<not> jdone x (shared s))"
    and "i < length (workers (tpool s)) \<Longrightarrow> workers (tpool s) ! i = WRun x \<Longrightarrow> \<not> jstep i x (shared s) e"
    and "pusher_step full 0 (tpool s) = None" and "pushers (tpool s) ! 0 \<noteq> PNotify"
    and "(closers (tpool s) ! 0 = SIdle \<longrightarrow> submitted s = N \<and> pushers (tpool s) ! 0 = PIdle) \<Longrightarrow> closer_step 0 (tpool s) = None"
    and "pushers (tpool s) ! 0 = PIdle \<Longrightarrow> closers (tpool s) ! 0 = SIdle \<Longrightarrow> \<not> submitted s < N"
proof -
  let ?p = "tpool s"
  have no: False if st: "pooled_step N jstep jdone s t"
    and ch: "pushers (tpool t) \<noteq> pushers ?p \<or> closers (tpool t) \<noteq> closers ?p \<or> tpool t = ?p \<or>
      (\<exists>i < length (workers ?p). workers (tpool t) ! i \<noteq> workers ?p ! i \<and> workers ?p ! i \<noteq> WWait)" for t
  proof -
    obtain k where k: "k < length (workers ?p)" "workers ?p ! k = WWait" "tpool t = set_worker k WLock ?p"
      using rest st unfolding at_rest_def by blast
    then have wk: "workers (tpool t) ! k \<noteq> workers ?p ! k" by simp
    have fr: "pushers (tpool t) = pushers ?p" "closers (tpool t) = closers ?p" "workers (tpool t) = (workers ?p)[k := WLock]"
      using k(3) by simp_all
    have "tpool t \<noteq> ?p" using wk by metis
    moreover have "\<not> (workers (tpool t) ! i \<noteq> workers ?p ! i \<and> workers ?p ! i \<noteq> WWait)" for i
      using k(2) unfolding fr(3) by (cases "i = k") simp_all
    ultimately show False using ch fr(1,2) by blast
  qed
  show "worker_step i ?p = None \<or> (\<exists>x. workers ?p ! i = WRun x \<and> \<not> jdone x (shared s))" if i: "i < length (workers ?p)"
  proof (rule ccontr)
    assume n: "\<not> ?thesis"
    then obtain p' where p': "worker_step i ?p = Some p'" by (cases "worker_step i ?p") simp_all
    from no [OF pooled_step.worker [OF i p']] n worker_step_changes [OF i p'] i show False by auto
  qed
  show "\<not> jstep i x (shared s) e" if "i < length (workers ?p)" "workers ?p ! i = WRun x"
    using no [OF pooled_step.job [OF that]] by auto
  show "pusher_step full 0 ?p = None"
  proof (rule ccontr)
    assume "pusher_step full 0 ?p \<noteq> None"
    then obtain p' where p': "pusher_step full 0 ?p = Some p'" by blast
    from no [OF pooled_step.pusher [OF p']] pusher_step_changes [OF _ p'] m show False by simp
  qed
  show "pushers ?p ! 0 \<noteq> PNotify"
  proof
    assume n: "pushers ?p ! 0 = PNotify"
    have ne: "(pushers ?p)[0 := PIdle] \<noteq> pushers ?p" using m n by (cases "pushers ?p") auto
    show False
    proof (cases "WWait \<in> set (workers ?p)")
      case True
      then obtain i where "i < length (workers ?p)" "workers ?p ! i = WWait" by (auto simp: in_set_conv_nth)
      from no [OF pooled_step.notify [OF n this]] ne show False by simp
    next
      case False
      from no [OF pooled_step.notify_none [OF n this]] ne show False by simp
    qed
  qed
  show "closer_step 0 ?p = None" if g: "closers ?p ! 0 = SIdle \<longrightarrow> submitted s = N \<and> pushers ?p ! 0 = PIdle"
  proof (rule ccontr)
    assume "closer_step 0 ?p \<noteq> None"
    then obtain p' where p': "closer_step 0 ?p = Some p'" by blast
    from no [OF pooled_step.destroys [OF g p']] closer_step_changes [OF _ p'] m show False by simp
  qed
  show "\<not> submitted s < N" if "pushers ?p ! 0 = PIdle" "closers ?p ! 0 = SIdle"
  proof
    assume "submitted s < N"
    moreover have "(pushers ?p)[0 := PCheck (submitted s)] \<noteq> pushers ?p" using m that by (cases "pushers ?p") auto
    ultimately show False using no [OF pooled_step.submits [OF that]] by (simp add: submit_def)
  qed
qed

lemma pooled_workers:
  assumes "pooled_step N jstep jdone s t"
  shows "length (workers (tpool t)) = length (workers (tpool s))"
  using assms
proof cases
  case (pusher full p)
  with pusher_frame(1) [OF pusher(2)] show ?thesis by simp
next
  case (destroys p)
  with closer_frame(1) [OF destroys(3)] show ?thesis by auto
next
  case (worker i p)
  then have "length (workers p) = length (workers (tpool s))"
    unfolding worker_step_def pop_or_def by (auto split: wpc.splits if_splits nat.splits)
  with worker show ?thesis by simp
qed (simp_all add: submit_def)

text \<open>No job is held by two workers, and none is held that still waits in the queue.\<close>

lemma multiset_sum_split:
  fixes f :: "'w \<Rightarrow> 'b multiset"
  assumes "i < length ws" and "x \<in># f (ws ! i)"
  shows "\<exists>M. sum_list (map f ws) = {#x#} + M \<and> (\<forall>k < length ws. k \<noteq> i \<longrightarrow> (\<forall>y \<in># f (ws ! k). y \<in># M))"
  using assms
proof (induction ws arbitrary: i)
  case (Cons w ws)
  show ?case
  proof (cases i)
    case 0
    obtain M where M: "f w = {#x#} + M" using Cons.prems 0 by (auto dest: multi_member_split)
    have "y \<in># sum_list (map f ws)" if "k < length ws" "y \<in># f (ws ! k)" for k y
      using that by (induction ws arbitrary: k) (auto simp: less_Suc_eq_0_disj)
    with M 0 show ?thesis by (intro exI [of _ "M + sum_list (map f ws)"]) (auto simp: less_Suc_eq_0_disj)
  next
    case (Suc j)
    from Cons.IH [of j] Cons.prems Suc obtain M where
      "sum_list (map f ws) = {#x#} + M" "\<forall>k < length ws. k \<noteq> j \<longrightarrow> (\<forall>y \<in># f (ws ! k). y \<in># M)" by auto
    then show ?thesis using Suc by (intro exI [of _ "f w + M"]) (auto simp: less_Suc_eq_0_disj)
  qed
qed simp

lemma held_once:
  assumes m: "main_ok N s" and e: "exec_ok (tpool s)"
    and i: "i < length (workers (tpool s))" "x \<in># held (workers (tpool s) ! i)"
  shows "x < N" and "x \<in> set (take (hpos (tpool s)) (items (tpool s)))"
    and "k < length (workers (tpool s)) \<Longrightarrow> x \<in># held (workers (tpool s) ! k) \<Longrightarrow> k = i"
proof -
  let ?p = "tpool s" and ?T = "take (hpos (tpool s)) (items (tpool s))"
  have it: "items ?p @ in_hand (pushers ?p ! 0) = [0..<submitted s]" "submitted s \<le> N" using m by (simp_all add: main_ok_def)
  obtain M where M: "sum_list (map held (workers ?p)) = {#x#} + M"
      "\<forall>k < length (workers ?p). k \<noteq> i \<longrightarrow> (\<forall>y \<in># held (workers ?p ! k). y \<in># M)"
    using multiset_sum_split [where f = held, OF i] by blast
  have T: "mset ?T = mset (executed ?p) + ({#x#} + M)" using e M(1) by (simp add: exec_ok_def)
  then have "x \<in># mset ?T" by simp
  then show x: "x \<in> set ?T" by simp
  then have "x \<in> set (items ?p @ in_hand (pushers ?p ! 0))" by (auto dest: in_set_takeD)
  then have "x \<in> set [0..<submitted s]" unfolding it(1) .
  with it(2) show "x < N" by simp
  have "distinct (items ?p @ in_hand (pushers ?p ! 0))" unfolding it(1) by simp
  then have "distinct ?T" by (simp add: distinct_take)
  then have "count (mset ?T) x \<le> 1" by (simp add: distinct_count_atmost_1)
  with T have "x \<notin># M" by (auto simp: count_eq_zero_iff)
  with M(2) show "k = i" if "k < length (workers ?p)" "x \<in># held (workers ?p ! k)" using that by blast
qed

text \<open>
  \<open>mine w x e\<close>: worker \<open>w\<close> may go on with job \<open>x\<close>, that is, the job was not begun or was begun by \<open>w\<close>.
\<close>

definition own_ok :: "(nat \<Rightarrow> nat \<Rightarrow> 'e \<Rightarrow> bool) \<Rightarrow> 'e pooled \<Rightarrow> bool" where
  "own_ok mine s \<longleftrightarrow>
     (\<forall>i x. i < length (workers (tpool s)) \<longrightarrow> x \<in># held (workers (tpool s) ! i) \<longrightarrow> mine i x (shared s)) \<and>
     (\<forall>w x. x \<notin> set (take (hpos (tpool s)) (items (tpool s))) \<longrightarrow> mine w x (shared s))"

lemma own_pool:
  assumes o: "own_ok mine s" and sh: "shared t = shared s"
    and h: "\<And>i x. i < length (workers (tpool t)) \<Longrightarrow> x \<in># held (workers (tpool t) ! i) \<Longrightarrow>
      i < length (workers (tpool s)) \<and> x \<in># held (workers (tpool s) ! i) \<or>
      x \<notin> set (take (hpos (tpool s)) (items (tpool s)))"
    and q: "set (take (hpos (tpool s)) (items (tpool s))) \<subseteq> set (take (hpos (tpool t)) (items (tpool t)))"
  shows "own_ok mine t"
  unfolding own_ok_def sh using o h q unfolding own_ok_def by blast

lemma own_worker:
  assumes o: "own_ok mine s" and d: "distinct (items (tpool s))"
    and i: "i < length (workers (tpool s))" and st: "worker_step i (tpool s) = Some p"
  shows "own_ok mine (s\<lparr>tpool := p\<rparr>)"
proof (rule own_pool [OF o])
  let ?p = "tpool s"
  define w where "w = workers p ! i"
  have w': "workers p = (workers ?p)[i := w]" "items p = items ?p" "hpos ?p \<le> hpos p"
    using st i unfolding w_def worker_step_def pop_or_def by (auto split: wpc.splits if_splits nat.splits)
  have h: "x \<in># held (workers ?p ! i) \<or> hpos ?p < length (items ?p) \<and> x = items ?p ! hpos ?p" if "x \<in># held w" for x
    using st i that unfolding w_def worker_step_def pop_or_def can_pop_def
    by (auto split: wpc.splits if_splits nat.splits)
  have nin: "items ?p ! hpos ?p \<notin> set (take (hpos ?p) (items ?p))" if "hpos ?p < length (items ?p)"
    using d that by (auto simp: in_set_conv_nth nth_eq_iff_index_eq)
  show "k < length (workers ?p) \<and> x \<in># held (workers ?p ! k) \<or> x \<notin> set (take (hpos ?p) (items ?p))"
    if "k < length (workers (tpool (s\<lparr>tpool := p\<rparr>)))" "x \<in># held (workers (tpool (s\<lparr>tpool := p\<rparr>)) ! k)" for k x
  proof (cases "k = i")
    case True
    with that i have "x \<in># held w" by (simp add: w'(1))
    with h nin True i show ?thesis by blast
  qed (use that in \<open>simp add: w'(1)\<close>)
  show "set (take (hpos ?p) (items ?p)) \<subseteq> set (take (hpos (tpool (s\<lparr>tpool := p\<rparr>))) (items (tpool (s\<lparr>tpool := p\<rparr>))))"
    using w' by (simp add: set_take_subset_set_take)
qed simp

lemma own_other:
  assumes o: "own_ok mine s" and st: "pooled_step N jstep jdone s t" and d: "distinct (items (tpool s))"
    and sh: "shared t = shared s"
  shows "own_ok mine t"
  using st
proof cases
  case (pusher full p)
  have "workers p = workers (tpool s)" "hpos p = hpos (tpool s)" using pusher_frame(1,4) [OF pusher(2)] .
  moreover have "\<exists>xs. items p = items (tpool s) @ xs"
    using pusher(2) unfolding pusher_step_def by (auto split: ppc.splits if_splits)
  ultimately show ?thesis using pusher(1) by (intro own_pool [OF o]) auto
next
  case (destroys p)
  have "hpos p = hpos (tpool s)" "items p = items (tpool s)" using closer_frame(4,5) [OF destroys(3)] .
  moreover have "length (workers p) = length (workers (tpool s)) \<and>
      (\<forall>k < length (workers p). held (workers p ! k) = held (workers (tpool s) ! k))"
    using closer_frame(1) [OF destroys(3)] by auto
  ultimately show ?thesis using destroys(1) by (intro own_pool [OF o]) auto
next
  case (worker i p)
  with own_worker [OF o d] show ?thesis by simp
next
  case (job i x e)
  with sh o show ?thesis by (simp add: own_ok_def)
next
  case (notify i)
  then show ?thesis by (intro own_pool [OF o]) (auto simp: nth_list_update split: if_splits)
next
  case (spurious i)
  then show ?thesis by (intro own_pool [OF o]) (auto simp: nth_list_update split: if_splits)
qed (use o in \<open>simp_all add: own_ok_def submit_def\<close>)

definition pooled_inv ::
  "nat \<Rightarrow> (nat \<Rightarrow> 'e \<Rightarrow> bool) \<Rightarrow> ('e \<Rightarrow> bool) \<Rightarrow> (nat \<Rightarrow> nat \<Rightarrow> 'e \<Rightarrow> bool) \<Rightarrow> 'e pooled \<Rightarrow> bool" where
  "pooled_inv N jdone good mine s \<longleftrightarrow>
     pool_inv (tpool s) \<and> main_ok N s \<and> jobs_ok jdone s \<and> good (shared s) \<and> own_ok mine s"

lemma main_distinct:
  assumes "main_ok N s"
  shows "distinct (items (tpool s))"
proof -
  have "distinct (items (tpool s) @ in_hand (pushers (tpool s) ! 0))" using assms by (simp add: main_ok_def)
  then show ?thesis by simp
qed

section \<open>The contract of the jobs\<close>

text \<open>
  The jobs keep the shared data well formed; a job that has returned stays so whatever the others
  do; nobody but the worker that runs a job moves it on; and that worker can move it on until it has
  returned.  Under this contract all jobs have returned when the destructor of the pool has, and the
  destructor does return.
\<close>

locale pool_jobs =
  fixes N :: nat
    and jstep :: "nat \<Rightarrow> nat \<Rightarrow> 'e \<Rightarrow> 'e \<Rightarrow> bool"
    and jdone :: "nat \<Rightarrow> 'e \<Rightarrow> bool"
    and good :: "'e \<Rightarrow> bool"
    and mine :: "nat \<Rightarrow> nat \<Rightarrow> 'e \<Rightarrow> bool"
  assumes good_step: "jstep w y e e' \<Longrightarrow> good e \<Longrightarrow> good e'"
    and done_stable: "jstep w y e e' \<Longrightarrow> jdone x e \<Longrightarrow> jdone x e'"
    and mine_self: "jstep w x e e' \<Longrightarrow> mine w x e \<Longrightarrow> mine w x e'"
    and mine_other: "jstep w y e e' \<Longrightarrow> x \<noteq> y \<Longrightarrow> mine v x e \<Longrightarrow> mine v x e'"
    and not_stuck: "x < N \<Longrightarrow> good e \<Longrightarrow> mine w x e \<Longrightarrow> \<not> jdone x e \<Longrightarrow> \<exists>e'. jstep w x e e'"
begin

lemma jobs_step:
  assumes j: "jobs_ok jdone s" and st: "pooled_step N jstep jdone s t"
  shows "jobs_ok jdone t"
  using st
proof cases
  case (pusher full p)
  with j pusher_frame(6) [OF pusher(2)] show ?thesis by (simp add: jobs_ok_def)
next
  case (destroys p)
  have "executed p = executed (tpool s)"
    using destroys(3) unfolding closer_step_def by (auto split: spc.splits if_splits)
  with destroys j show ?thesis by (simp add: jobs_ok_def)
next
  case (worker i p)
  have "executed p = executed (tpool s) \<or>
      (\<exists>x. workers (tpool s) ! i = WRun x \<and> executed p = executed (tpool s) @ [x])"
    using worker(3) unfolding worker_step_def pop_or_def by (auto split: wpc.splits if_splits nat.splits)
  with worker j show ?thesis by (auto simp: jobs_ok_def)
next
  case (job i x e)
  with j done_stable show ?thesis by (auto simp: jobs_ok_def)
qed (use j in \<open>simp_all add: jobs_ok_def submit_def\<close>)

lemma own_step:
  assumes o: "own_ok mine s" and m: "main_ok N s" and e: "exec_ok (tpool s)" and st: "pooled_step N jstep jdone s t"
  shows "own_ok mine t"
proof (cases "shared t = shared s")
  case True
  with own_other [OF o st main_distinct [OF m]] show ?thesis .
next
  case False
  with st obtain i x e' where j: "t = s\<lparr>shared := e'\<rparr>" "i < length (workers (tpool s))" "workers (tpool s) ! i = WRun x"
    "jstep i x (shared s) e'" by cases auto
  then have x: "x \<in># held (workers (tpool s) ! i)" by simp
  note H = held_once [OF m e j(2) x]
  have "mine k y e'" if "k < length (workers (tpool s))" "y \<in># held (workers (tpool s) ! k)" for k y
    using that o H(3) [of k] mine_self [OF j(4)] mine_other [OF j(4)] unfolding own_ok_def by (cases "y = x") blast+
  moreover have "mine w y e'" if "y \<notin> set (take (hpos (tpool s)) (items (tpool s)))" for w y
  proof (rule mine_other [OF j(4)])
    show "y \<noteq> x" using that H(2) by metis
    show "mine w y (shared s)" using that o unfolding own_ok_def by blast
  qed
  ultimately show ?thesis using j(1) by (simp add: own_ok_def)
qed

lemma pooled_inv_step:
  assumes "pooled_inv N jdone good mine s" and st: "pooled_step N jstep jdone s t"
  shows "pooled_inv N jdone good mine t"
proof -
  have s: "pool_inv (tpool s)" "main_ok N s" "jobs_ok jdone s" "good (shared s)" "own_ok mine s"
    using assms(1) by (simp_all add: pooled_inv_def)
  have e: "exec_ok (tpool s)" using s(1) by (simp add: pool_inv_def)
  have "pool_inv (tpool t)" using pooled_pool [OF st s(2)] tp.step_inv [OF s(1)] s(1) by (elim disjE) simp_all
  moreover have "good (shared t)" using st s(4) by cases (auto intro: good_step)
  ultimately show ?thesis
    using main_step [OF s(2,1) st] jobs_step [OF s(3) st] own_step [OF s(5,2) e st] by (simp add: pooled_inv_def)
qed

lemma pooled_inv_start:
  assumes "new_pool c hw n 1 1 = Some p" and "good e" and "\<And>w x. mine w x e"
  shows "pooled_inv N jdone good mine (pooled_start p e)"
proof -
  have "pool_starts p" using assms(1) unfolding pool_starts_def by blast
  then have "pool_inv p" by (rule pool_inv_start)
  moreover have "pushers p = [PIdle]" "closers p = [SIdle]" "items p = []" "\<not> shut p" "\<not> shuttingDown p" "executed p = []"
    using assms(1) by (auto simp: new_pool_def)
  ultimately show ?thesis using assms(2,3)
    by (simp add: pooled_inv_def main_ok_def jobs_ok_def own_ok_def pooled_start_def joined_def)
qed

lemma pooled_reachable:
  assumes "new_pool c hw n 1 1 = Some p" and "good e" and "\<And>w x. mine w x e"
    and "(pooled_step N jstep jdone)\<^sup>*\<^sup>* (pooled_start p e) s"
  shows "pooled_inv N jdone good mine s"
  using assms(4) pooled_inv_start [OF assms(1-3)]
  by (induction rule: rtranclp_induct) (auto intro: pooled_inv_step)

text \<open>What happens to the shared data is a run of the jobs, each step made by the worker that has the job.\<close>

lemma job_run:
  assumes "(pooled_step N jstep jdone)\<^sup>*\<^sup>* s t" and "pooled_inv N jdone good mine s"
  shows "pooled_inv N jdone good mine t \<and> length (workers (tpool t)) = length (workers (tpool s)) \<and>
    (\<lambda>e e'. \<exists>w x. w < length (workers (tpool s)) \<and> x < N \<and> mine w x e \<and> jstep w x e e')\<^sup>*\<^sup>* (shared s) (shared t)"
    (is "_ \<and> _ \<and> ?R\<^sup>*\<^sup>* _ _")
  using assms(1)
proof (induction rule: rtranclp_induct)
  case (step t u)
  have inv: "main_ok N t" "exec_ok (tpool t)" "own_ok mine t"
    using step.IH by (simp_all add: pooled_inv_def pool_inv_def)
  have "shared u = shared t \<or> ?R (shared t) (shared u)"
    using step.hyps(2)
  proof cases
    case (job i x e)
    then have "x \<in># held (workers (tpool t) ! i)" by simp
    with held_once(1) [OF inv(1,2) job(2) this] inv(3) job step.IH show ?thesis by (auto simp: own_ok_def)
  qed simp_all
  with step.IH pooled_inv_step [OF _ step.hyps(2)] pooled_workers [OF step.hyps(2)] show ?case
    by (auto intro: rtranclp.rtrancl_into_rtrancl)
qed (use assms(2) in simp)

lemma all_returned:
  assumes inv: "pooled_inv N jdone good mine s" and jn: "joined s" and x: "x < N"
  shows "jdone x (shared s)"
proof -
  have s: "pool_inv (tpool s)" "main_ok N s" "jobs_ok jdone s" using inv by (simp_all add: pooled_inv_def)
  have c: "closers (tpool s) ! 0 \<noteq> SIdle" using jn by (simp add: joined_def)
  have ex: "set (workers (tpool s)) = {WExit}" using s(2) jn unfolding main_ok_def by blast
  have it: "items (tpool s) @ in_hand (pushers (tpool s) ! 0) = [0..<submitted s]" "submitted s = N" "pushers (tpool s) ! 0 = PIdle"
    using s(2) c unfolding main_ok_def by blast+
  then have it: "items (tpool s) = [0..<N]" by simp
  have "sum_list (map held (workers (tpool s))) = {#}" by (rule nobody_holds) (simp add: ex)
  moreover have "hpos (tpool s) = length (items (tpool s))" using s(1) ex by (simp add: pool_inv_def drain_ok_def)
  ultimately have "mset (executed (tpool s)) = mset (items (tpool s))"
    using s(1) by (simp add: pool_inv_def exec_ok_def)
  then have "set (executed (tpool s)) = set (items (tpool s))" by (rule mset_eq_setD)
  with it x have "x \<in> set (executed (tpool s))" by simp
  with s(3) show ?thesis by (simp add: jobs_ok_def)
qed

text \<open>The run can only come to rest with the pool destroyed.\<close>

lemma rests_joined:
  assumes inv: "pooled_inv N jdone good mine s" and rest: "at_rest N jstep jdone s"
  shows "joined s"
proof -
  let ?p = "tpool s"
  have s: "pool_inv ?p" "main_ok N s" "good (shared s)" "own_ok mine s" using inv by (simp_all add: pooled_inv_def)
  have I: "lock_ok ?p" "close_ok ?p" "exec_ok ?p" using s(1) by (simp_all add: pool_inv_def)
  have len: "length (pushers ?p) = 1" "length (closers ?p) = 1" using s(2) by (simp_all add: main_ok_def)
  note R = at_restD [OF rest len]
  have nr: "workers ?p ! i \<noteq> WRun x" if i: "i < length (workers ?p)" for i x
  proof
    assume w: "workers ?p ! i = WRun x"
    have "worker_step i ?p \<noteq> None" using w by (simp add: worker_step_def)
    then have "\<not> jdone x (shared s)" using R(1) [OF i] w by auto
    moreover have h: "x \<in># held (workers ?p ! i)" using w by simp
    moreover have "mine i x (shared s)" using s(4) i h unfolding own_ok_def by blast
    ultimately show False using not_stuck [OF held_once(1) [OF s(2) I(3) i h] s(3)] R(2) [OF i w] by blast
  qed
  have "worker_step i ?p = None" if "i < length (workers ?p)" for i using R(1) [OF that] nr [OF that] by blast
  moreover have "closer_step 0 ?p = None" if "closers ?p ! 0 \<noteq> SIdle" using R(5) that by blast
  ultimately have nm: "\<not> can_move ?p" using R(3,4) len unfolding can_move_def by (metis less_one)
  have "pushers ?p ! 0 \<in> set (pushers ?p)" "closers ?p ! 0 \<in> set (closers ?p)" using len by simp_all
  then have pc: "pushers ?p ! 0 = PIdle" "closers ?p ! 0 = SIdle \<or> closers ?p ! 0 = SDone"
    using stuck_pusher [OF I(1) nm] stuck_closer [OF I(1) nm _ I(2)] by simp_all
  have "closers ?p ! 0 \<noteq> SIdle"
  proof
    assume c: "closers ?p ! 0 = SIdle"
    then have "submitted s = N" using R(6) pc(1) s(2) by (auto simp: main_ok_def)
    then have "closer_step 0 ?p = None" using R(5) c pc(1) by blast
    then show False using c by (simp add: closer_step_def)
  qed
  with pc(2) show ?thesis by (simp add: joined_def)
qed

end

section \<open>Given interleavings\<close>

text \<open>Commands, to run the system along a given interleaving; \<open>jexec\<close> computes the steps of the jobs.\<close>

datatype pooled_cmd = MainSubmits | MainPushes | MainDestroys | PoolWorker nat | JobOf nat

fun pooled_exec :: "nat \<Rightarrow> (nat \<Rightarrow> nat \<Rightarrow> 'e \<Rightarrow> 'e option) \<Rightarrow> (nat \<Rightarrow> 'e \<Rightarrow> bool) \<Rightarrow> pooled_cmd \<Rightarrow> 'e pooled \<Rightarrow> 'e pooled" where
  "pooled_exec N jexec jdone MainSubmits s =
     (if pushers (tpool s) ! 0 = PIdle \<and> closers (tpool s) ! 0 = SIdle \<and> submitted s < N
      then s\<lparr>tpool := submit 0 (submitted s) (tpool s), submitted := submitted s + 1\<rparr> else s)"
| "pooled_exec N jexec jdone MainPushes s =
     (case pusher_step False 0 (tpool s) of None \<Rightarrow> s | Some p \<Rightarrow> s\<lparr>tpool := p\<rparr>)"
| "pooled_exec N jexec jdone MainDestroys s =
     (if closers (tpool s) ! 0 = SIdle \<longrightarrow> submitted s = N \<and> pushers (tpool s) ! 0 = PIdle
      then case closer_step 0 (tpool s) of None \<Rightarrow> s | Some p \<Rightarrow> s\<lparr>tpool := p\<rparr> else s)"
| "pooled_exec N jexec jdone (PoolWorker i) s =
     (if i < length (workers (tpool s)) \<and>
         (case workers (tpool s) ! i of WRun x \<Rightarrow> jdone x (shared s) | _ \<Rightarrow> True)
      then case worker_step i (tpool s) of None \<Rightarrow> s | Some p \<Rightarrow> s\<lparr>tpool := p\<rparr> else s)"
| "pooled_exec N jexec jdone (JobOf i) s =
     (if i < length (workers (tpool s))
      then case workers (tpool s) ! i of
          WRun x \<Rightarrow> (case jexec i x (shared s) of None \<Rightarrow> s | Some e \<Rightarrow> s\<lparr>shared := e\<rparr>)
        | _ \<Rightarrow> s
      else s)"

lemma pooled_exec_step:
  assumes "\<And>w x e e'. jexec w x e = Some e' \<Longrightarrow> jstep w x e e'"
  shows "pooled_exec N jexec jdone c s = s \<or> pooled_step N jstep jdone s (pooled_exec N jexec jdone c s)"
proof (cases c)
  case MainSubmits
  then show ?thesis using pooled_step.submits [of s N jstep jdone] by auto
next
  case MainPushes
  then show ?thesis by (auto split: option.split intro: pooled_step.pusher)
next
  case MainDestroys
  then show ?thesis using pooled_step.destroys [of s N] by (auto split: option.split)
next
  case (PoolWorker i)
  show ?thesis
  proof (cases "i < length (workers (tpool s)) \<and> (case workers (tpool s) ! i of WRun x \<Rightarrow> jdone x (shared s) | _ \<Rightarrow> True)")
    case True
    then have "\<forall>x. workers (tpool s) ! i = WRun x \<longrightarrow> jdone x (shared s)" by auto
    then show ?thesis using PoolWorker True pooled_step.worker [of i s _ jdone N jstep] by (auto split: option.split)
  qed (use PoolWorker in auto)
next
  case (JobOf i)
  show ?thesis
  proof (cases "i < length (workers (tpool s)) \<and> (\<exists>x e. workers (tpool s) ! i = WRun x \<and> jexec i x (shared s) = Some e)")
    case True
    then obtain x e where x: "i < length (workers (tpool s))" "workers (tpool s) ! i = WRun x" "jexec i x (shared s) = Some e" by blast
    from pooled_step.job [of i s x jstep e N jdone, OF x(1,2)] assms [OF x(3)] x JobOf show ?thesis by simp
  next
    case False
    then have "pooled_exec N jexec jdone c s = s" using JobOf by (auto split: wpc.split option.split)
    then show ?thesis ..
  qed
qed

lemma pooled_run_steps:
  assumes "\<And>w x e e'. jexec w x e = Some e' \<Longrightarrow> jstep w x e e'"
  shows "(pooled_step N jstep jdone)\<^sup>*\<^sup>* s (fold (pooled_exec N jexec jdone) cs s)"
proof (induction cs arbitrary: s)
  case (Cons c cs)
  have "(pooled_step N jstep jdone)\<^sup>*\<^sup>* s (pooled_exec N jexec jdone c s)"
    using pooled_exec_step [of jexec jstep N jdone c s, OF assms] by auto
  from rtranclp_trans [OF this Cons.IH] show ?case by simp
qed simp

text \<open>
  A run may be computed on an abstraction of the shared data, as long as the abstraction knows
  which jobs can make a step and which have returned.
\<close>

definition abs_shared :: "('e \<Rightarrow> 'd) \<Rightarrow> 'e pooled \<Rightarrow> 'd pooled" where
  "abs_shared f s = \<lparr>tpool = tpool s, shared = f (shared s), submitted = submitted s\<rparr>"

lemma abs_exec:
  assumes "\<And>w x e. jexec' w x (f e) = map_option f (jexec w x e)" and "\<And>x e. jdone' x (f e) = jdone x e"
  shows "abs_shared f (pooled_exec N jexec jdone c s) = pooled_exec N jexec' jdone' c (abs_shared f s)"
  using assms by (cases c) (auto simp: abs_shared_def split: option.split wpc.split)

lemma abs_run:
  assumes "\<And>w x e. jexec' w x (f e) = map_option f (jexec w x e)" and "\<And>x e. jdone' x (f e) = jdone x e"
  shows "abs_shared f (fold (pooled_exec N jexec jdone) cs s) = fold (pooled_exec N jexec' jdone') cs (abs_shared f s)"
proof (induction cs arbitrary: s)
  case (Cons c cs)
  have "abs_shared f (pooled_exec N jexec jdone c s) = pooled_exec N jexec' jdone' c (abs_shared f s)"
    by (rule abs_exec) (rule assms)+
  with Cons show ?case by simp
qed simp

text \<open>The abstraction that counts the steps each job has made, of jobs of \<open>k\<close> steps each.\<close>

definition count_jexec :: "nat \<Rightarrow> nat \<Rightarrow> nat \<Rightarrow> nat list \<Rightarrow> nat list option" where
  "count_jexec k w x ns = (if x < length ns \<and> ns ! x < k then Some (ns[x := Suc (ns ! x)]) else None)"

definition count_jdone :: "nat \<Rightarrow> nat \<Rightarrow> nat list \<Rightarrow> bool" where
  "count_jdone k x ns \<longleftrightarrow> x < length ns \<and> ns ! x = k"

text \<open>
  Two jobs of two workers: the first worker spins while both jobs are submitted, the second one takes
  a job on its way to sleep; the main thread destroys the pool while the jobs run, and both workers end.
\<close>

definition two_jobs_cmds :: "pooled_cmd list" where
  "two_jobs_cmds = [PoolWorker 0, MainSubmits] @ replicate 6 MainPushes @ [MainSubmits] @ replicate 6 MainPushes @
     replicate 5 (PoolWorker 1) @ [JobOf 1, PoolWorker 0] @ replicate 4 MainDestroys @ replicate 2 (JobOf 1) @
     replicate 2 (PoolWorker 1) @ [PoolWorker 0] @ replicate 3 (JobOf 0) @ replicate 2 (PoolWorker 0) @
     replicate 7 (PoolWorker 0) @ replicate 7 (PoolWorker 1) @ [MainDestroys]"

lemma demo_joined:
  "joined (fold (pooled_exec 2 (count_jexec 2) (count_jdone 2)) two_jobs_cmds (pooled_start two_workers [0, 0]))"
  by code_simp

end
