(* ===== verification/MutexRun.thy ===== *)
theory MutexRun
  imports MutexPool PooledRun
begin

text \<open>
  The pooled runs of src/main.cpp in the build with HFT\_MUTEX\_QUEUE: as in theory PooledRun, the main
  thread makes a pool, submits jobs \<open>0, ..., N - 1\<close> and destroys the pool, while the workers run the
  jobs step by step; but the pool is that of theory MutexPool.
\<close>

section \<open>The system\<close>

record 'e mrun =
  mtp :: "nat mpool"
  mshared :: 'e
  msubmitted :: nat

text \<open>What the threads do by themselves; a worker leaves a job only when it has returned.\<close>

inductive mrun_own ::
  "nat \<Rightarrow> (nat \<Rightarrow> nat \<Rightarrow> 'e \<Rightarrow> 'e \<Rightarrow> bool) \<Rightarrow> (nat \<Rightarrow> 'e \<Rightarrow> bool) \<Rightarrow> 'e mrun \<Rightarrow> 'e mrun \<Rightarrow> bool"
  for N jstep jdone where
  submits: "mpushers (mtp s) = [MIdle] \<Longrightarrow> mclosers (mtp s) = [CIdle] \<Longrightarrow> msubmitted s < N \<Longrightarrow>
     mrun_own N jstep jdone s
       (s\<lparr>mtp := set_mpusher 0 (MPush (msubmitted s)) (mtp s), msubmitted := msubmitted s + 1\<rparr>)"
| pool: "mpool_own (mtp s) p \<Longrightarrow> (\<forall>x \<in> set (mexecuted p). jdone x (mshared s)) \<Longrightarrow>
     mrun_own N jstep jdone s (s\<lparr>mtp := p\<rparr>)"
| destroys: "mpushers (mtp s) = [MIdle] \<Longrightarrow> mclosers (mtp s) = [CIdle] \<Longrightarrow> msubmitted s = N \<Longrightarrow>
     mcloser_step 0 (mtp s) = Some p \<Longrightarrow> mrun_own N jstep jdone s (s\<lparr>mtp := p\<rparr>)"
| job: "i < length (mworkers (mtp s)) \<Longrightarrow> mworkers (mtp s) ! i = MRun x \<Longrightarrow> jstep i x (mshared s) e \<Longrightarrow>
     mrun_own N jstep jdone s (s\<lparr>mshared := e\<rparr>)"

inductive mrun_step ::
  "nat \<Rightarrow> (nat \<Rightarrow> nat \<Rightarrow> 'e \<Rightarrow> 'e \<Rightarrow> bool) \<Rightarrow> (nat \<Rightarrow> 'e \<Rightarrow> bool) \<Rightarrow> 'e mrun \<Rightarrow> 'e mrun \<Rightarrow> bool"
  for N jstep jdone where
  own: "mrun_own N jstep jdone s t \<Longrightarrow> mrun_step N jstep jdone s t"
| spurious_worker: "i < length (mworkers (mtp s)) \<Longrightarrow> mworkers (mtp s) ! i = MWait \<Longrightarrow>
     mrun_step N jstep jdone s (s\<lparr>mtp := set_mworker i MEnter (mtp s)\<rparr>)"
| spurious_pusher: "mpushers (mtp s) = [MFull x] \<Longrightarrow>
     mrun_step N jstep jdone s (s\<lparr>mtp := set_mpusher 0 (MPush x) (mtp s)\<rparr>)"

definition mrun_start :: "nat mpool \<Rightarrow> 'e \<Rightarrow> 'e mrun" where
  "mrun_start p e = \<lparr>mtp = p, mshared = e, msubmitted = 0\<rparr>"

text \<open>The destructor of the pool has returned.\<close>

definition mjoined :: "'e mrun \<Rightarrow> bool" where
  "mjoined s \<longleftrightarrow> mclosers (mtp s) = [CDone]"

lemma mrun_pool:
  assumes "mrun_step N jstep jdone s t"
  shows "mtp t = mtp s \<or> mpool_step (mtp s) (mtp t)"
  using assms
proof cases
  case own
  then show ?thesis
  proof cases
    case submits
    then show ?thesis using mpool_step.submits [of 0 "mtp s"] by simp
  next
    case (destroys p)
    then show ?thesis using mpool_step.shuts [of 0 "mtp s" p] by simp
  qed (auto intro: mpool_step.own)
next
  case (spurious_pusher x)
  then show ?thesis using mpool_step.spurious_pusher [of 0 "mtp s" x] by simp
qed (auto intro: mpool_step.spurious_worker)

section \<open>The main thread\<close>

fun mhand :: "nat mpusher \<Rightarrow> nat list" where
  "mhand (MPush x) = [x]" | "mhand (MFull x) = [x]" | "mhand _ = []"

text \<open>Where the main thread is: its place in push, its place in shutdown.\<close>

definition main_at :: "nat \<Rightarrow> 'e mrun \<Rightarrow> nat mpusher \<Rightarrow> mcloser \<Rightarrow> bool" where
  "main_at N s p c \<longleftrightarrow> mpushers (mtp s) = [p] \<and> mclosers (mtp s) = [c] \<and> msubmitted s \<le> N \<and>
     maccepted (mtp s) @ mhand p = [0..<msubmitted s] \<and>
     (c \<noteq> CIdle \<longrightarrow> msubmitted s = N \<and> p = MIdle) \<and>
     (c \<in> {CIdle, CFlag} \<longrightarrow> \<not> shutdown_flag (mqueue (mtp s))) \<and> (c = CIdle \<longrightarrow> \<not> mshutting (mtp s)) \<and>
     (c = CDone \<longrightarrow> set (mworkers (mtp s)) \<subseteq> {MExit})"

definition mmain_ok :: "nat \<Rightarrow> 'e mrun \<Rightarrow> bool" where
  "mmain_ok N s \<longleftrightarrow> (\<exists>p c. main_at N s p c)"

lemma mexited_nth: "set ws \<subseteq> {MExit} \<Longrightarrow> i < length ws \<Longrightarrow> ws ! i = MExit"
  using nth_mem by blast

lemma mmain_worker:
  assumes m: "main_at N s p c" and w: "i < length (mworkers (mtp s))" "mworkers (mtp s) ! i \<noteq> MExit"
    and q: "mpushers q = mpushers (mtp s)" "mclosers q = mclosers (mtp s)" "maccepted q = maccepted (mtp s)"
      "shutdown_flag (mqueue q) = shutdown_flag (mqueue (mtp s))" "mshutting q = mshutting (mtp s)"
  shows "main_at N (s\<lparr>mtp := q\<rparr>) p c"
proof -
  have "c \<noteq> CDone" using m w mexited_nth unfolding main_at_def by blast
  with m q show ?thesis by (simp add: main_at_def)
qed

text \<open>The main thread is in push, so the pool is not shut down.\<close>

lemma main_pushes:
  assumes "main_at N s p c" and "p \<noteq> MIdle"
  shows "c = CIdle" "\<not> shutdown_flag (mqueue (mtp s))" "\<not> mshutting (mtp s)"
  using assms unfolding main_at_def by blast+

lemma main_own:
  assumes m: "main_at N s p c" and st: "mpool_own (mtp s) q"
  shows "\<exists>p' c'. main_at N (s\<lparr>mtp := q\<rparr>) p' c'"
  using st
proof cases
  case (worker i)
  have ne: "mworkers (mtp s) ! i \<noteq> MExit" using worker(2) by (auto simp: mworker_step_def)
  from worker(2) have "main_at N (s\<lparr>mtp := q\<rparr>) p c"
    by (cases rule: mworker_step_cases) (intro mmain_worker [OF m worker(1) ne]; simp)+
  then show ?thesis by blast
next
  case (pusher j)
  have j: "j = 0" "mpushers (mtp s) = [p]" using m pusher(1) by (simp_all add: main_at_def)
  have "p \<noteq> MIdle" using pusher(2) j by (auto simp: mpusher_step_def)
  note P = main_pushes [OF m this]
  from pusher(2) show ?thesis
  proof (cases rule: mpusher_step_cases)
    case (full x)
    with m j P have "main_at N (s\<lparr>mtp := q\<rparr>) (MFull x) c" by (simp add: main_at_def)
    then show ?thesis by blast
  next
    case (accepted x)
    with m j P have "main_at N (s\<lparr>mtp := q\<rparr>) MNotifyEmpty c" by (simp add: main_at_def)
    then show ?thesis by blast
  qed (use P in simp)
next
  case (closer k)
  have k: "k = 0" "mclosers (mtp s) = [c]" "c \<noteq> CIdle" using m closer(1,2) by (simp_all add: main_at_def)
  have M: "mpushers (mtp s) = [MIdle]" "msubmitted s = N" "p = MIdle" using m k(3) by (simp_all add: main_at_def)
  have "\<exists>c'. main_at N (s\<lparr>mtp := q\<rparr>) p c'"
  proof (cases c)
    case CFlag
    with m k M closer(3) have "main_at N (s\<lparr>mtp := q\<rparr>) p CNotEmpty"
      by (auto simp: mcloser_step_def main_at_def shutdown_def)
    then show ?thesis by blast
  next
    case CNotEmpty
    with m k M closer(3) have "main_at N (s\<lparr>mtp := q\<rparr>) p CNotFull"
      by (auto simp: mcloser_step_def main_at_def)
    then show ?thesis by blast
  next
    case CNotFull
    with m k M closer(3) have "main_at N (s\<lparr>mtp := q\<rparr>) p CJoin"
      by (auto simp: mcloser_step_def main_at_def)
    then show ?thesis by blast
  next
    case CJoin
    with m k M closer(3) have "main_at N (s\<lparr>mtp := q\<rparr>) p CDone"
      by (auto simp: mcloser_step_def main_at_def split: if_splits)
    then show ?thesis by blast
  qed (use k closer(3) in \<open>simp_all add: mcloser_step_def\<close>)
  then show ?thesis by blast
next
  case (notify_full i x j y)
  have j: "j = 0" "p = MFull y" using m notify_full(4,5) by (simp_all add: main_at_def)
  have "main_at N (s\<lparr>mtp := set_mpusher j (MPush y) (mtp s)\<rparr>) (MPush y) c"
    using m j main_pushes [OF m] by (simp add: main_at_def)
  from mmain_worker [OF this, of i q] notify_full show ?thesis by fastforce
next
  case (notify_full_none i x)
  from mmain_worker [OF m notify_full_none(2), of q] notify_full_none show ?thesis by fastforce
next
  case (notify_empty j i)
  have j: "j = 0" "p = MNotifyEmpty" using m notify_empty(2,3) by (simp_all add: main_at_def)
  have "main_at N (s\<lparr>mtp := set_mpusher j MIdle (mtp s)\<rparr>) MIdle c"
    using m j main_pushes [OF m] by (simp add: main_at_def)
  from mmain_worker [OF this, of i q] notify_empty show ?thesis by fastforce
next
  case (notify_empty_none j)
  have j: "j = 0" "p = MNotifyEmpty" using m notify_empty_none(2,3) by (simp_all add: main_at_def)
  have "main_at N (s\<lparr>mtp := q\<rparr>) MIdle c"
    using m j main_pushes [OF m] notify_empty_none(1) by (simp add: main_at_def)
  then show ?thesis by blast
qed

lemma mmain_step:
  assumes "mmain_ok N s" and st: "mrun_step N jstep jdone s t"
  shows "mmain_ok N t"
proof -
  obtain p c where m: "main_at N s p c" using assms(1) unfolding mmain_ok_def by blast
  from st have "\<exists>p c. main_at N t p c"
  proof cases
    case own
    then show ?thesis
    proof cases
      case submits
      with m have "main_at N t (MPush (msubmitted s)) CIdle" by (auto simp: main_at_def)
      then show ?thesis by blast
    next
      case (pool q)
      with main_own [OF m] show ?thesis by simp
    next
      case (destroys q)
      with m have "main_at N t MIdle CFlag" by (auto simp: main_at_def mcloser_step_def)
      then show ?thesis by blast
    next
      case (job i x e)
      with m have "main_at N t p c" by (simp add: main_at_def)
      then show ?thesis by blast
    qed
  next
    case (spurious_worker i)
    then have "main_at N t p c" using mmain_worker [OF m spurious_worker(2), of "mtp t"] by simp
    then show ?thesis by blast
  next
    case (spurious_pusher x)
    with m main_pushes(1) [OF m] have "main_at N t (MPush x) c" by (auto simp: main_at_def)
    then show ?thesis by blast
  qed
  then show ?thesis by (simp add: mmain_ok_def)
qed

section \<open>Who has a job\<close>

text \<open>A job that a worker has taken.\<close>

definition mtaken :: "nat mpool \<Rightarrow> nat \<Rightarrow> bool" where
  "mtaken p x \<longleftrightarrow> x \<in> set (mexecuted p) \<or> (\<exists>i < length (mworkers p). x \<in># mheld (mworkers p ! i))"

lemma held_in_sum: "i < length ws \<Longrightarrow> x \<in># mheld (ws ! i) \<Longrightarrow> x \<in># sum_list (map mheld ws)"
  using multiset_sum_split [where f = mheld, of i ws x] by auto

lemma taken_in_sum: "mtaken p x \<Longrightarrow> x \<in># sum_list (map mheld (mworkers p)) + mset (mexecuted p)"
  unfolding mtaken_def by (auto dest: held_in_sum)

lemma main_distinct_accepted:
  assumes "mmain_ok N s"
  shows "distinct (maccepted (mtp s))" and "x \<in> set (maccepted (mtp s)) \<Longrightarrow> x < N"
proof -
  obtain p where m: "maccepted (mtp s) @ mhand p = [0..<msubmitted s]" "msubmitted s \<le> N"
    using assms unfolding mmain_ok_def main_at_def by blast
  have "distinct (maccepted (mtp s) @ mhand p)" unfolding m(1) by simp
  then show "distinct (maccepted (mtp s))" by simp
  assume "x \<in> set (maccepted (mtp s))"
  then have "x \<in> set (maccepted (mtp s) @ mhand p)" by simp
  then have "x \<in> set [0..<msubmitted s]" unfolding m(1) .
  with m(2) show "x < N" by simp
qed

lemma mheld_once:
  assumes m: "mmain_ok N s" and e: "items_ok (mtp s)"
    and i: "i < length (mworkers (mtp s))" "x \<in># mheld (mworkers (mtp s) ! i)"
  shows "x < N" and "x \<notin> set (mexecuted (mtp s))"
    and "k < length (mworkers (mtp s)) \<Longrightarrow> x \<in># mheld (mworkers (mtp s) ! k) \<Longrightarrow> k = i"
proof -
  let ?p = "mtp s"
  obtain M where M: "sum_list (map mheld (mworkers ?p)) = {#x#} + M"
      "\<forall>k < length (mworkers ?p). k \<noteq> i \<longrightarrow> (\<forall>y \<in># mheld (mworkers ?p ! k). y \<in># M)"
    using multiset_sum_split [where f = mheld, OF i] by blast
  have A: "mset (maccepted ?p) = mset (queue (mqueue ?p)) + ({#x#} + M) + mset (mexecuted ?p)"
    using e M(1) by (simp add: items_ok_def)
  have "x \<in># mset (maccepted ?p)" unfolding A by simp
  with main_distinct_accepted [OF m] show "x < N" by simp
  have "count (mset (maccepted ?p)) x \<le> 1" using main_distinct_accepted(1) [OF m] by (simp add: distinct_count_atmost_1)
  with A have "x \<notin># M" "x \<notin># mset (mexecuted ?p)" by (auto simp: count_eq_zero_iff)
  with M(2) show "x \<notin> set (mexecuted ?p)" "k < length (mworkers ?p) \<Longrightarrow> x \<in># mheld (mworkers ?p ! k) \<Longrightarrow> k = i"
    by auto
qed

lemma queued_not_taken:
  assumes m: "mmain_ok N s" and e: "items_ok (mtp s)" and x: "x \<in> set (queue (mqueue (mtp s)))"
  shows "\<not> mtaken (mtp s) x"
proof
  assume "mtaken (mtp s) x"
  then obtain R where "sum_list (map mheld (mworkers (mtp s))) + mset (mexecuted (mtp s)) = {#x#} + R"
    using multi_member_split [OF taken_in_sum] by force
  moreover obtain Q where "mset (queue (mqueue (mtp s))) = {#x#} + Q"
    using multi_member_split [of x "mset (queue (mqueue (mtp s)))"] x by force
  ultimately have "mset (maccepted (mtp s)) = ({#x#} + Q) + ({#x#} + R)"
    using e by (simp add: items_ok_def add.assoc)
  then have "2 \<le> count (mset (maccepted (mtp s))) x" by simp
  moreover have "count (mset (maccepted (mtp s))) x \<le> 1"
    using main_distinct_accepted(1) [OF m] by (simp add: distinct_count_atmost_1)
  ultimately show False by simp
qed

text \<open>What a step of the pool changes in that.\<close>

lemma step_held:
  assumes "mpool_step p q"
  obtains (takes) i x where "i < length (mworkers p)" "mworkers p ! i = MEnter" "x \<in> set (queue (mqueue p))"
      "mworkers q = (mworkers p)[i := MNotifyFull x]" "mexecuted q = mexecuted p"
    | (returns) i x where "i < length (mworkers p)" "mworkers p ! i = MRun x"
      "mworkers q = (mworkers p)[i := MEnter]" "mexecuted q = mexecuted p @ [x]"
    | (same) "map mheld (mworkers q) = map mheld (mworkers p)" "mexecuted q = mexecuted p"
proof -
  have upd: "map mheld ((mworkers p)[i := w]) = map mheld (mworkers p)"
    if "i < length (mworkers p)" "mheld (mworkers p ! i) = mheld w" for i w
    using that by (metis list_update_id map_update)
  from assms show thesis
  proof (cases rule: mpool_cases)
    case (worker i)
    from worker(2) show thesis
    proof (cases rule: mworker_step_cases)
      case (takes x xs)
      with worker(1) show thesis by (intro that(1) [of i x]) simp_all
    next
      case (runs x)
      with worker(1) show thesis by (intro that(2) [of i x]) simp_all
    qed (use upd [OF worker(1)] in \<open>intro that(3); simp\<close>)+
  next
    case (pusher j)
    from pusher(2) show thesis by (cases rule: mpusher_step_cases) (intro that(3); simp)+
  next
    case (closer k)
    then have "mexecuted q = mexecuted p" "mworkers q = mworkers p \<or> mworkers q = map wake_worker (mworkers p)"
      by (cases "mclosers p ! k"; auto simp: mcloser_step_def split: if_splits)+
    then show thesis by (intro that(3)) (auto simp: comp_def)
  next
    case (notify_full i x j y)
    then show thesis using upd [OF notify_full(2)] by (intro that(3)) simp_all
  next
    case (notify_full_none i x)
    then show thesis using upd [OF notify_full_none(2)] by (intro that(3)) simp_all
  next
    case (notify_empty j i)
    then show thesis using upd [OF notify_empty(4)] by (intro that(3)) simp_all
  next
    case (spurious_worker i)
    then show thesis using upd [OF spurious_worker(2)] by (intro that(3)) simp_all
  qed (intro that(3); simp)+
qed

lemma step_taken:
  assumes "mpool_step p q" and "mtaken p x"
  shows "mtaken q x"
  using assms(1)
proof (cases rule: step_held)
  case (takes i y)
  have "mworkers q ! k = mworkers p ! k" if "x \<in># mheld (mworkers p ! k)" for k
    using that takes(2,4) by (cases "k = i") simp_all
  with assms(2) takes show ?thesis unfolding mtaken_def by (metis length_list_update)
next
  case (returns i y)
  have "x = y \<or> mworkers q ! k = mworkers p ! k" if "x \<in># mheld (mworkers p ! k)" for k
    using that returns(2,3) by (cases "k = i") simp_all
  with assms(2) returns show ?thesis unfolding mtaken_def by (metis UnCI list.set_intros(1) length_list_update set_append)
next
  case same
  then have "length (mworkers q) = length (mworkers p)" "\<And>k. k < length (mworkers p) \<Longrightarrow> mheld (mworkers q ! k) = mheld (mworkers p ! k)"
    by (metis length_map, metis length_map nth_map)
  with assms(2) same(2) show ?thesis unfolding mtaken_def by metis
qed

lemma step_new_held:
  assumes "mpool_step p q" and "i < length (mworkers q)" and "x \<in># mheld (mworkers q ! i)"
  shows "i < length (mworkers p)" and "x \<in># mheld (mworkers p ! i) \<or> x \<in> set (queue (mqueue p))"
  using assms(1)
proof (atomize (full), cases rule: step_held)
  case (takes k y)
  with assms(2,3) show "i < length (mworkers p) \<and> (x \<in># mheld (mworkers p ! i) \<or> x \<in> set (queue (mqueue p)))"
    by (cases "k = i") simp_all
next
  case (returns k y)
  with assms(2,3) show "i < length (mworkers p) \<and> (x \<in># mheld (mworkers p ! i) \<or> x \<in> set (queue (mqueue p)))"
    by (cases "k = i") simp_all
next
  case same
  with assms(2,3) show "i < length (mworkers p) \<and> (x \<in># mheld (mworkers p ! i) \<or> x \<in> set (queue (mqueue p)))"
    by (metis length_map nth_map)
qed

section \<open>The contract of the jobs\<close>

definition mown_ok :: "(nat \<Rightarrow> nat \<Rightarrow> 'e \<Rightarrow> bool) \<Rightarrow> 'e mrun \<Rightarrow> bool" where
  "mown_ok mine s \<longleftrightarrow>
     (\<forall>i x. i < length (mworkers (mtp s)) \<longrightarrow> x \<in># mheld (mworkers (mtp s) ! i) \<longrightarrow> mine i x (mshared s)) \<and>
     (\<forall>w x. \<not> mtaken (mtp s) x \<longrightarrow> mine w x (mshared s))"

definition mrun_inv ::
  "nat \<Rightarrow> (nat \<Rightarrow> 'e \<Rightarrow> bool) \<Rightarrow> ('e \<Rightarrow> bool) \<Rightarrow> (nat \<Rightarrow> nat \<Rightarrow> 'e \<Rightarrow> bool) \<Rightarrow> 'e mrun \<Rightarrow> bool" where
  "mrun_inv N jdone good mine s \<longleftrightarrow> mpool_inv (mtp s) \<and> 0 < task_queue.capacity (mqueue (mtp s)) \<and> mmain_ok N s \<and>
     (\<forall>x \<in> set (mexecuted (mtp s)). jdone x (mshared s)) \<and> good (mshared s) \<and> mown_ok mine s"

lemma mown_pool:
  assumes o: "mown_ok mine s" and m: "mmain_ok N s" and e: "items_ok (mtp s)"
    and st: "mpool_step (mtp s) p"
  shows "mown_ok mine (s\<lparr>mtp := p\<rparr>)"
proof -
  have "mine i x (mshared s)" if "i < length (mworkers p)" "x \<in># mheld (mworkers p ! i)" for i x
    using step_new_held [OF st that] queued_not_taken [OF m e] o unfolding mown_ok_def by blast
  moreover have "mine w x (mshared s)" if "\<not> mtaken p x" for w x
    using o step_taken [OF st] that unfolding mown_ok_def by blast
  ultimately show ?thesis by (simp add: mown_ok_def)
qed

text \<open>How much is left to do; eight steps bring a job from its submission into the queue and to a worker.\<close>

definition mrun_work :: "nat \<Rightarrow> ('e \<Rightarrow> nat) \<Rightarrow> 'e mrun \<Rightarrow> nat" where
  "mrun_work N jwork s = 8 * (N - msubmitted s) + mwork (mtp s) + jwork (mshared s)"

text \<open>
  The threads are sure to get to the end of the destructor, unless they are woken for no reason: there
  is a bound on the steps they can make, and they only stop there.
\<close>

definition surely_joins :: "nat \<Rightarrow> (nat \<Rightarrow> nat \<Rightarrow> 'e \<Rightarrow> 'e \<Rightarrow> bool) \<Rightarrow> (nat \<Rightarrow> 'e \<Rightarrow> bool) \<Rightarrow> 'e mrun \<Rightarrow> bool" where
  "surely_joins N jstep jdone s \<longleftrightarrow>
     (\<exists>b. \<forall>l t. (mrun_own N jstep jdone ^^ l) s t \<longrightarrow> l \<le> b) \<and>
     (\<forall>t. (mrun_own N jstep jdone)\<^sup>*\<^sup>* s t \<and> \<not> (\<exists>u. mrun_own N jstep jdone t u) \<longrightarrow> mjoined t)"

text \<open>
  Jobs that do only finitely many steps: to the contract of theory PooledRun it adds that each step of
  a job uses up some of the work that is left.
\<close>

locale finite_jobs = pool_jobs N jstep jdone good mine
  for N :: nat
    and jstep :: "nat \<Rightarrow> nat \<Rightarrow> 'e \<Rightarrow> 'e \<Rightarrow> bool"
    and jdone :: "nat \<Rightarrow> 'e \<Rightarrow> bool"
    and good :: "'e \<Rightarrow> bool"
    and mine :: "nat \<Rightarrow> nat \<Rightarrow> 'e \<Rightarrow> bool" +
  fixes jwork :: "'e \<Rightarrow> nat"
  assumes job_works: "jstep w x e e' \<Longrightarrow> jwork e' < jwork e"
begin

lemma mown_job:
  assumes o: "mown_ok mine s" and m: "mmain_ok N s" and e: "items_ok (mtp s)"
    and i: "i < length (mworkers (mtp s))" "mworkers (mtp s) ! i = MRun x" and st: "jstep i x (mshared s) e'"
  shows "mown_ok mine (s\<lparr>mshared := e'\<rparr>)"
proof -
  have x: "x \<in># mheld (mworkers (mtp s) ! i)" using i(2) by simp
  note H = mheld_once(3) [OF m e i(1) x]
  have tk: "mtaken (mtp s) x" using i(1) x unfolding mtaken_def by blast
  have "mine k y e'" if "k < length (mworkers (mtp s))" "y \<in># mheld (mworkers (mtp s) ! k)" for k y
    using that o H [of k] mine_self [OF st] mine_other [OF st] unfolding mown_ok_def by (cases "y = x") blast+
  moreover have "mine w y e'" if "\<not> mtaken (mtp s) y" for w y
    using that o tk mine_other [OF st, of y w] unfolding mown_ok_def by blast
  ultimately show ?thesis by (simp add: mown_ok_def)
qed

lemma mrun_inv_step:
  assumes "mrun_inv N jdone good mine s" and st: "mrun_step N jstep jdone s t"
  shows "mrun_inv N jdone good mine t"
proof -
  have s: "mpool_inv (mtp s)" "0 < task_queue.capacity (mqueue (mtp s))" "mmain_ok N s" "\<forall>x \<in> set (mexecuted (mtp s)). jdone x (mshared s)"
      "good (mshared s)" "mown_ok mine s"
    using assms(1) by (simp_all add: mrun_inv_def)
  have it: "items_ok (mtp s)" using s(1) by (simp add: mpool_inv_def)
  note P = mrun_pool [OF st]
  have p: "mpool_inv (mtp t)" "0 < task_queue.capacity (mqueue (mtp t))"
    using P s(1,2) mp.step_inv [OF s(1)] mpool_frame by metis+
  have "(\<forall>x \<in> set (mexecuted (mtp t)). jdone x (mshared t)) \<and> good (mshared t) \<and> mown_ok mine t"
  proof (cases "mshared t = mshared s")
    case True
    have "mown_ok mine t"
    proof (cases "mtp t = mtp s")
      case False
      with P mown_pool [OF s(6,3) it, of "mtp t"] True show ?thesis by (simp add: mown_ok_def)
    qed (use True s(6) in \<open>simp add: mown_ok_def\<close>)
    moreover have "\<forall>x \<in> set (mexecuted (mtp t)). jdone x (mshared s)"
      using st
    proof cases
      case own
      then show ?thesis
        by cases (use s(4) mcloser_frame in \<open>auto simp: mcloser_step_def split: if_splits\<close>)
    qed (use s(4) in simp_all)
    ultimately show ?thesis using True s(5) by simp
  next
    case False
    from st have "mrun_own N jstep jdone s t" by cases (use False in simp_all)
    then obtain i x e where j: "t = s\<lparr>mshared := e\<rparr>" "i < length (mworkers (mtp s))" "mworkers (mtp s) ! i = MRun x"
      "jstep i x (mshared s) e" by cases (use False in auto)
    from mown_job [OF s(6,3) it j(2-4)] j(1) s(4,5) good_step [OF j(4)] done_stable [OF j(4)] show ?thesis by simp
  qed
  with p mmain_step [OF s(3) st] show ?thesis by (simp add: mrun_inv_def)
qed

lemma mrun_inv_start:
  assumes "0 < c" and "good e" and "\<And>w x. mine w x e"
  shows "mrun_inv N jdone good mine (mrun_start (new_mpool c n 1 1) e)"
proof -
  let ?p = "new_mpool c n 1 1 :: nat mpool"
  have "mpool_inv ?p" by (rule mp.start_inv) (auto simp: mpool_starts_def)
  moreover have "main_at N (mrun_start ?p e) MIdle CIdle"
    by (simp add: main_at_def mrun_start_def new_mpool_def new_queue_def)
  moreover have "mexecuted ?p = []" "task_queue.capacity (mqueue ?p) = c" by (simp_all add: new_mpool_def new_queue_def)
  ultimately show ?thesis using assms unfolding mrun_inv_def mmain_ok_def mown_ok_def by (auto simp: mrun_start_def)
qed

text \<open>The runs.\<close>

lemma mrun_reachable:
  assumes "0 < c" and "good e" and "\<And>w x. mine w x e"
    and "(mrun_step N jstep jdone)\<^sup>*\<^sup>* (mrun_start (new_mpool c n 1 1) e) s"
  shows "mrun_inv N jdone good mine s"
  using assms(4) mrun_inv_start [OF assms(1-3)]
  by (induction rule: rtranclp_induct) (auto intro: mrun_inv_step)

lemma mall_returned:
  assumes inv: "mrun_inv N jdone good mine s" and jn: "mjoined s" and x: "x < N"
  shows "jdone x (mshared s)"
proof -
  have s: "mpool_inv (mtp s)" "mmain_ok N s" "\<forall>x \<in> set (mexecuted (mtp s)). jdone x (mshared s)"
    using inv by (simp_all add: mrun_inv_def)
  then obtain p where "main_at N s p CDone" using jn unfolding mmain_ok_def mjoined_def main_at_def by auto
  then have m: "maccepted (mtp s) = [0..<N]" "set (mworkers (mtp s)) \<subseteq> {MExit}" by (auto simp: main_at_def)
  have "queue (mqueue (mtp s)) = []" "items_ok (mtp s)"
    using s(1) m(2) by (cases "mworkers (mtp s)"; auto simp: mpool_inv_def down_ok_def)+
  moreover have "sum_list (map mheld (mworkers (mtp s))) = {#}" by (rule mheld_none) (use m(2) in force)
  ultimately have "mset (mexecuted (mtp s)) = mset [0..<N]" using m(1) by (simp add: items_ok_def)
  then have "set (mexecuted (mtp s)) = set [0..<N]" by (rule mset_eq_setD)
  with s(3) x show ?thesis by simp
qed

text \<open>The threads can only come to rest with the pool destroyed.\<close>

lemma mrests_joined:
  assumes inv: "mrun_inv N jdone good mine s" and rest: "\<not> (\<exists>t. mrun_own N jstep jdone s t)"
  shows "mjoined s"
proof -
  let ?p = "mtp s"
  have s: "mpool_inv ?p" "0 < task_queue.capacity (mqueue ?p)" "mmain_ok N s" "\<forall>x \<in> set (mexecuted ?p). jdone x (mshared s)"
      "good (mshared s)" "mown_ok mine s"
    using inv by (simp_all add: mrun_inv_def)
  have nr: "mworkers ?p ! i \<noteq> MRun x" if i: "i < length (mworkers ?p)" for i x
  proof
    assume w: "mworkers ?p ! i = MRun x"
    then have h: "x \<in># mheld (mworkers ?p ! i)" by simp
    have mi: "mine i x (mshared s)" using s(6) i h unfolding mown_ok_def by blast
    show False
    proof (cases "jdone x (mshared s)")
      case True
      let ?q = "set_mworker i MEnter (?p\<lparr>mexecuted := mexecuted ?p @ [x]\<rparr>)"
      have "mpool_own ?p ?q" by (rule mpool_own.worker [OF i]) (simp add: mworker_step_def w)
      from mrun_own.pool [OF this, of jdone N jstep] True s(4) rest show False by auto
    next
      case False
      have "x < N" by (rule mheld_once(1) [OF s(3) mpool_invD(4) [OF s(1)] i h])
      from not_stuck [OF this s(5) mi False] mrun_own.job [OF i w] rest show False by blast
    qed
  qed
  have "\<not> mpool_own ?p q" for q
  proof
    assume own: "mpool_own ?p q"
    from mpool_step.own [OF own] have "mexecuted q = mexecuted ?p"
      by (cases rule: step_held) (use nr in auto)
    with mrun_own.pool [OF own, of jdone N jstep] s(4) rest show False by auto
  qed
  then have "\<not> mcan_move ?p" by (simp add: mcan_move_iff)
  from mstuck_facts [OF s(1,2) this] have F: "set (mpushers ?p) \<subseteq> {MIdle}" "set (mclosers ?p) \<subseteq> {CIdle, CDone}" by blast+
  obtain p c where m: "main_at N s p c" using s(3) unfolding mmain_ok_def by blast
  then have l: "mpushers ?p = [MIdle]" "mclosers ?p = [c]" "msubmitted s \<le> N" using F(1) by (auto simp: main_at_def)
  have "c \<noteq> CIdle"
  proof
    assume c: "c = CIdle"
    show False
    proof (cases "msubmitted s < N")
      case True
      from mrun_own.submits [OF l(1) l(2) [unfolded c] True] rest show False by blast
    next
      case False
      with l have "msubmitted s = N" by simp
      moreover have "\<exists>q. mcloser_step 0 ?p = Some q" using l(2) c by (simp add: mcloser_step_def)
      ultimately show False using mrun_own.destroys [OF l(1) l(2) [unfolded c]] rest by blast
    qed
  qed
  with F(2) l(2) show ?thesis by (simp add: mjoined_def)
qed

lemma mrun_own_works:
  assumes "mrun_own N jstep jdone s t"
  shows "mrun_work N jwork t < mrun_work N jwork s"
  using assms
proof cases
  case submits
  with weight_upd [of 0 "mpushers (mtp s)" pusher_work "MPush (msubmitted s)"] show ?thesis
    by (simp add: mrun_work_def mwork_def)
next
  case (pool p)
  with own_works show ?thesis by (simp add: mrun_work_def)
next
  case (destroys p)
  with closer_works [of 0 "mtp s" p] show ?thesis by (simp add: mrun_work_def)
next
  case (job i x e)
  with job_works show ?thesis by (simp add: mrun_work_def)
qed

end

sublocale finite_jobs \<subseteq> mr: measured_system "mrun_own N jstep jdone" "mrun_work N jwork"
  by unfold_locales (rule mrun_own_works)

context finite_jobs
begin

text \<open>From every state it can reach, the run ends, and it ends with all jobs returned.\<close>

lemma mrun_own_step: "(mrun_own N jstep jdone)\<^sup>*\<^sup>* s t \<Longrightarrow> (mrun_step N jstep jdone)\<^sup>*\<^sup>* s t"
  using rtranclp_mono [of "mrun_own N jstep jdone" "mrun_step N jstep jdone"] mrun_step.own by blast

lemma mrun_inv_own:
  assumes "mrun_inv N jdone good mine s" and "(mrun_own N jstep jdone)\<^sup>*\<^sup>* s t"
  shows "mrun_inv N jdone good mine t"
  using assms(2,1) by (induction rule: rtranclp_induct) (auto intro: mrun_inv_step mrun_step.own)

lemma mrun_ends:
  assumes "mrun_inv N jdone good mine s"
  shows "\<exists>t. (mrun_own N jstep jdone)\<^sup>*\<^sup>* s t \<and> mjoined t" and "surely_joins N jstep jdone s"
proof -
  have j: "mjoined t" if "(mrun_own N jstep jdone)\<^sup>*\<^sup>* s t" "\<not> (\<exists>u. mrun_own N jstep jdone t u)" for t
    by (rule mrests_joined [OF mrun_inv_own [OF assms that(1)] that(2)])
  with mr.comes_to_rest [of s] show "\<exists>t. (mrun_own N jstep jdone)\<^sup>*\<^sup>* s t \<and> mjoined t" by blast
  have "l \<le> mrun_work N jwork s" if "(mrun_own N jstep jdone ^^ l) s t" for l t
    using mr.steps_bounded [OF that] by simp
  with j show "surely_joins N jstep jdone s" unfolding surely_joins_def by blast
qed

text \<open>What happens to the shared data is a run of the jobs, each step made by the worker that has the job.\<close>

lemma mjob_run:
  assumes "(mrun_step N jstep jdone)\<^sup>*\<^sup>* s t" and "mrun_inv N jdone good mine s"
  shows "length (mworkers (mtp t)) = length (mworkers (mtp s)) \<and>
    (\<lambda>e e'. \<exists>w x. w < length (mworkers (mtp s)) \<and> x < N \<and> mine w x e \<and> jstep w x e e')\<^sup>*\<^sup>* (mshared s) (mshared t) \<and>
    mrun_inv N jdone good mine t" (is "_ \<and> ?R\<^sup>*\<^sup>* _ _ \<and> _")
  using assms(1)
proof (induction rule: rtranclp_induct)
  case (step t u)
  have inv: "mmain_ok N t" "items_ok (mtp t)" "mown_ok mine t"
    using step.IH by (simp_all add: mrun_inv_def mpool_inv_def)
  have "mshared u = mshared t \<or> ?R (mshared t) (mshared u)"
    using step.hyps(2)
  proof cases
    case own
    then show ?thesis
    proof cases
      case (job i x e)
      then have h: "x \<in># mheld (mworkers (mtp t) ! i)" by simp
      with mheld_once(1) [OF inv(1,2) job(2) h] inv(3) job step.IH show ?thesis by (auto simp: mown_ok_def)
    qed simp_all
  qed simp_all
  moreover have "length (mworkers (mtp u)) = length (mworkers (mtp t))"
    using mrun_pool [OF step.hyps(2)] mpool_frame by metis
  ultimately show ?case using step.IH mrun_inv_step [OF _ step.hyps(2)]
    by (auto intro: rtranclp.rtrancl_into_rtrancl)
qed (use assms(2) in simp)

end

end
