(* ===== verification/OrderGenerator.thy ===== *)
theory OrderGenerator
  imports RiskValidator
begin

text \<open>
  include/OrderGenerator.hpp and include/ResultsCollector.hpp.  The values drawn from the
  random number engine are arguments: one draw per order, in the order of the calls.
\<close>

section \<open>OrderGenerator\<close>

record draw =
  symbolPick :: nat
  sidePick :: nat
  qtyDraw :: u32
  priceDraw :: double

definition symbols :: "string list" where
  "symbols = [''BTC-USD'', ''ETH-USD'', ''SOL-USD'', ''DOGE-XYZ'']"

text \<open>The loop of generateIndependent from order \<open>i\<close> on: the orders and the next order id.\<close>

fun generate_from :: "u64 \<Rightarrow> nat \<Rightarrow> draw list \<Rightarrow> u64 \<Rightarrow> order list \<times> u64" where
  "generate_from accountIdStart i [] nextOrderId = ([], nextOrderId)"
| "generate_from accountIdStart i (d # ds) nextOrderId =
     (let ord = \<lparr>orderId = nextOrderId, accountId = accountIdStart + of_nat i,
                 symbol = symbols ! symbolPick d,
                 side = (if sidePick d = 0 then BUY else SELL),
                 qty = qtyDraw d, price = priceDraw d, enqueueTime = 0\<rparr>;
          (orders, next') = generate_from accountIdStart (Suc i) ds (nextOrderId + 1)
      in (ord # orders, next'))"

definition generateIndependent :: "draw list \<Rightarrow> u64 \<Rightarrow> u64 \<Rightarrow> order list \<times> u64" where
  "generateIndependent draws accountIdStart nextOrderId =
     generate_from accountIdStart 0 draws nextOrderId"

definition pair_order :: "u64 \<Rightarrow> u64 \<Rightarrow> order" where
  "pair_order acct nextOrderId =
     \<lparr>orderId = nextOrderId, accountId = acct, symbol = ''BTC-USD'', side = BUY, qty = 1,
      price = double_of_nat 6000, enqueueTime = 0\<rparr>"

text \<open>The outer loop of generateConflictingPairs from pair \<open>i\<close> on, \<open>n\<close> pairs to go.\<close>

fun pairs_from :: "u64 \<Rightarrow> nat \<Rightarrow> nat \<Rightarrow> u64 \<Rightarrow> order list \<times> u64" where
  "pairs_from accountIdStart i 0 nextOrderId = ([], nextOrderId)"
| "pairs_from accountIdStart i (Suc n) nextOrderId =
     (let acct = accountIdStart + of_nat i;
          (orders, next') = pairs_from accountIdStart (Suc i) n (nextOrderId + 2)
      in (pair_order acct nextOrderId # pair_order acct (nextOrderId + 1) # orders, next'))"

definition generateConflictingPairs :: "nat \<Rightarrow> u64 \<Rightarrow> u64 \<Rightarrow> order list \<times> u64" where
  "generateConflictingPairs pairCount accountIdStart nextOrderId =
     pairs_from accountIdStart 0 pairCount nextOrderId"

section \<open>ResultsCollector\<close>

type_synonym results_collector = "validation_result list"

definition add_result :: "validation_result \<Rightarrow> results_collector \<Rightarrow> results_collector" where
  "add_result r results = results @ [r]"

definition takeAll :: "results_collector \<Rightarrow> validation_result list" where
  "takeAll results = results"

definition results_size :: "results_collector \<Rightarrow> nat" where
  "results_size results = length results"

section \<open>What is generated\<close>

lemma of_nat_u64_inj: "x < 2 ^ 64 \<Longrightarrow> y < 2 ^ 64 \<Longrightarrow> (of_nat x :: u64) = of_nat y \<longleftrightarrow> x = y"
  by (metis unat_of_nat_u64)

lemma generate_from_nth:
  "length (fst (generate_from start i ds n)) = length ds \<and>
   (\<forall>k < length ds. accountId (fst (generate_from start i ds n) ! k) = start + of_nat (i + k) \<and>
     orderId (fst (generate_from start i ds n) ! k) = n + of_nat k)"
proof (induction ds arbitrary: i n)
  case (Cons d ds)
  obtain os m where g: "generate_from start (Suc i) ds (n + 1) = (os, m)" by fastforce
  with Cons.IH [of "Suc i" "n + 1"]
  have os: "length os = length ds" "\<And>k. k < length ds \<Longrightarrow>
      accountId (os ! k) = start + of_nat (Suc i + k) \<and> orderId (os ! k) = n + 1 + of_nat k" by auto
  have "accountId (fst (generate_from start i (d # ds) n) ! k) = start + of_nat (i + k) \<and>
      orderId (fst (generate_from start i (d # ds) n) ! k) = n + of_nat k" if "k < length (d # ds)" for k
  proof (cases k)
    case (Suc k')
    with that os(2) [of k'] show ?thesis by (simp add: g)
  qed (simp add: g)
  then show ?case using os(1) by (simp add: g)
qed simp

lemma generateIndependent_distinct:
  assumes "length draws < 2 ^ 64"
  shows "distinct (map accountId (fst (generateIndependent draws start n)))"
    and "distinct (map orderId (fst (generateIndependent draws start n)))"
  using assms of_nat_u64_inj generate_from_nth [of start 0 draws n]
  by (auto simp: generateIndependent_def distinct_conv_nth)

end
