(* ===== verification/Engine.thy ===== *)
theory Engine
  imports OrderGenerator "HOL-Library.Multiset"
begin

text \<open>
  src/main.cpp: the correctness tests of the engine.  A pooled run is a list of jobs, each of
  which validates its order and then adds the result to the collector; the workers of the pool
  may run the jobs in any order and interleave them.  validate acts on the store at one point,
  the compare-and-swap that decides its tryDebit (theory AccountStore), hence it is one step.
\<close>

section \<open>Pooled runs\<close>

datatype vjob = Todo order | Validated validation_result | Added validation_result

record engine =
  est :: account_store
  collected :: results_collector
  vjobs :: "vjob list"

text \<open>The steps of job \<open>i\<close>, and of the jobs together.\<close>

inductive engine_at :: "nat \<Rightarrow> engine \<Rightarrow> engine \<Rightarrow> bool" for i where
  run_validate: "i < length (vjobs s) \<Longrightarrow> vjobs s ! i = Todo ord \<Longrightarrow>
     validate (est s) ord now = (st', r) \<Longrightarrow>
     engine_at i s (s\<lparr>est := st', vjobs := (vjobs s)[i := Validated r]\<rparr>)"
| run_add: "i < length (vjobs s) \<Longrightarrow> vjobs s ! i = Validated r \<Longrightarrow>
     engine_at i s (s\<lparr>collected := add_result r (collected s), vjobs := (vjobs s)[i := Added r]\<rparr>)"

definition engine_step :: "engine \<Rightarrow> engine \<Rightarrow> bool" where
  "engine_step s s' \<longleftrightarrow> (\<exists>i. engine_at i s s')"

lemma engine_stepI: "engine_at i s s' \<Longrightarrow> engine_step s s'"
  unfolding engine_step_def by blast

lemma engine_step_cases [consumes 1, case_names run_validate run_add]:
  assumes "engine_step s s'"
  obtains i ord now st' r where "s' = s\<lparr>est := st', vjobs := (vjobs s)[i := Validated r]\<rparr>"
      "i < length (vjobs s)" "vjobs s ! i = Todo ord" "validate (est s) ord now = (st', r)"
    | i r where "s' = s\<lparr>collected := add_result r (collected s), vjobs := (vjobs s)[i := Added r]\<rparr>"
      "i < length (vjobs s)" "vjobs s ! i = Validated r"
  using assms unfolding engine_step_def by (elim exE engine_at.cases) blast+

text \<open>The submitting loop stamps each order with the time of its submission.\<close>

definition stamp :: "order list \<Rightarrow> int list \<Rightarrow> order list" where
  "stamp orders stamps = map2 (\<lambda>ord t. ord\<lparr>enqueueTime := t\<rparr>) orders stamps"

definition engine_start :: "account_store \<Rightarrow> order list \<Rightarrow> engine" where
  "engine_start st orders = \<lparr>est = st, collected = [], vjobs = map Todo orders\<rparr>"

text \<open>The destructor of the pool has drained the queue and joined the workers.\<close>

fun is_added :: "vjob \<Rightarrow> bool" where
  "is_added (Added r) = True"
| "is_added _ = False"

definition engine_done :: "engine \<Rightarrow> bool" where
  "engine_done s \<longleftrightarrow> list_all is_added (vjobs s)"

section \<open>The tests\<close>

definition seed_accounts :: "account_store \<Rightarrow> u64 list \<Rightarrow> double \<Rightarrow> account_store" where
  "seed_accounts st accts b = fold (\<lambda>a st. setBalance st a b) accts st"

definition accepted_ids :: "validation_result list \<Rightarrow> u64 set" where
  "accepted_ids rs = set (map vr_orderId (filter accepted rs))"

text \<open>
  testCorrectnessVsSequential after its pooled run ended in \<open>s\<close>; \<open>stamps\<close> and \<open>nows\<close> are the readings of the
  clock in the sequential baseline.
\<close>

definition testCorrectnessVsSequential :: "order list \<Rightarrow> int list \<Rightarrow> int list \<Rightarrow> engine \<Rightarrow> bool" where
  "testCorrectnessVsSequential orders stamps nows s =
     (let seqStore = seed_accounts empty_store (map accountId orders) (double_of_nat 100000);
          seqAccepted = accepted_ids (snd (validate_all seqStore (zip (stamp orders stamps) nows)));
          poolAccepted = accepted_ids (takeAll (collected s))
      in seqAccepted = poolAccepted)"

definition acceptedPerAccount :: "validation_result list \<Rightarrow> u64 \<Rightarrow> nat" where
  "acceptedPerAccount rs acct = length (filter (\<lambda>r. accepted r \<and> vr_accountId r = acct) rs)"

definition testNoDoubleSpend :: "nat \<Rightarrow> u64 \<Rightarrow> engine \<Rightarrow> bool" where
  "testNoDoubleSpend pairCount accountStart s =
     (let rs = takeAll (collected s);
          anyDoubleSpend = list_ex (\<lambda>r. 1 < acceptedPerAccount rs (vr_accountId r)) rs;
          anyNegative = list_ex (\<lambda>i. dless (getBalance (est s) (accountStart + of_nat i)) dzero) [0..<pairCount]
      in \<not> anyDoubleSpend \<and> \<not> anyNegative)"

section \<open>The invariant of a run on distinct accounts\<close>

text \<open>Whether an order is accepted depends on the balance of its own account only.\<close>

lemma verdict_local:
  assumes "balances st (accountId ord) = balances st' (accountId ord)"
  shows "accepted (snd (validate st ord n)) = accepted (snd (validate st' ord n'))"
  using acct.debit_result [OF assms] by (simp add: validate_fields decide_accepted)

lemma validate_frame:
  "a \<noteq> accountId ord \<Longrightarrow> balances (fst (validate st ord now)) a = balances st a"
  by (simp add: validate_fields decide_store acct.debit_frame)

definition key :: "validation_result \<Rightarrow> u64 \<times> bool" where
  "key r = (vr_orderId r, accepted r)"

definition expected :: "account_store \<Rightarrow> order \<Rightarrow> u64 \<times> bool" where
  "expected st ord = (orderId ord, accepted (snd (validate st ord 0)))"

lemma sequential_expected:
  assumes "distinct (map accountId os)" and "length os = length ts"
    and "\<forall>ord \<in> set os. balances st (accountId ord) = balances st0 (accountId ord)"
  shows "map key (snd (validate_all st (zip os ts))) = map (expected st0) os"
  using assms(2,1,3)
proof (induction os ts arbitrary: st rule: list_induct2)
  case (Cons ord os t ts)
  let ?st = "fst (validate st ord t)"
  have "balances ?st (accountId x) = balances st0 (accountId x)" if "x \<in> set os" for x
    using that Cons.prems validate_frame [of "accountId x" ord st t] by (auto simp: image_iff)
  with Cons.IH [of ?st] Cons.prems(1)
  have "map key (snd (validate_all ?st (zip os ts))) = map (expected st0) os" by simp
  moreover have "key (snd (validate st ord t)) = expected st0 ord"
    using Cons.prems(2) verdict_local [of st ord st0 t 0] by (simp add: key_def expected_def validate_fields)
  ultimately show ?case by (simp add: Let_def case_prod_unfold)
qed simp

lemma accepted_ids_key: "accepted_ids rs = {i. (i, True) \<in> set (map key rs)}"
  unfolding accepted_ids_def key_def by auto

fun added :: "vjob \<Rightarrow> validation_result multiset" where
  "added (Added r) = {#r#}"
| "added _ = {#}"

lemma collected_done:
  assumes "mset (collected s) = sum_list (map added (vjobs s))" and "engine_done s"
  shows "mset (map Added (collected s)) = mset (vjobs s)"
proof -
  have "image_mset Added (sum_list (map added js)) = mset js" if "list_all is_added js" for js
    using that
  proof (induction js)
    case (Cons j js)
    then show ?case by (cases j) auto
  qed simp
  with assms show ?thesis by (simp add: engine_done_def)
qed

definition job_expected :: "account_store \<Rightarrow> account_store \<Rightarrow> order \<Rightarrow> vjob \<Rightarrow> bool" where
  "job_expected st0 st ord j =
     (case j of
        Todo ord' \<Rightarrow> ord' = ord \<and> balances st (accountId ord) = balances st0 (accountId ord)
      | Validated r \<Rightarrow> key r = expected st0 ord
      | Added r \<Rightarrow> key r = expected st0 ord)"

definition indep_inv :: "account_store \<Rightarrow> order list \<Rightarrow> engine \<Rightarrow> bool" where
  "indep_inv st0 os s \<longleftrightarrow>
     mset (collected s) = sum_list (map added (vjobs s)) \<and>
     length (vjobs s) = length os \<and> (\<forall>i < length os. job_expected st0 (est s) (os ! i) (vjobs s ! i))"

lemma collect_update:
  assumes "mset c = sum_list (map added js)" and "i < length js"
    and "mset c' + added (js ! i) = mset c + added v"
  shows "mset c' = sum_list (map added (js[i := v]))"
  using sum_list_map_update [OF assms(2), of added v] assms(1,3)
  by (metis add_right_cancel)

lemma indep_step:
  assumes d: "distinct (map accountId os)" and inv: "indep_inv st0 os s" and step: "engine_step s s'"
  shows "indep_inv st0 os s'"
proof -
  have c: "mset (collected s) = sum_list (map added (vjobs s))" and l: "length (vjobs s) = length os"
    and j: "\<And>i. i < length os \<Longrightarrow> job_expected st0 (est s) (os ! i) (vjobs s ! i)"
    using inv unfolding indep_inv_def by auto
  from step show ?thesis
  proof (cases rule: engine_step_cases)
    case (run_validate i ord now st' r)
    with j [of i] l have ord: "ord = os ! i" "balances (est s) (accountId ord) = balances st0 (accountId ord)"
      by (auto simp: job_expected_def)
    have r: "key r = expected st0 (os ! i)"
      using run_validate(4) verdict_local [OF ord(2), of now 0] ord(1) validate_fields(3) [of "est s" ord now]
      by (simp add: key_def expected_def)
    have fr: "balances st' (accountId (os ! k)) = balances (est s) (accountId (os ! k))"
      if "k < length os" "k \<noteq> i" for k
    proof -
      have "accountId (os ! k) \<noteq> accountId ord"
        using d that run_validate(2) l ord(1) by (auto simp: distinct_conv_nth)
      from validate_frame [OF this, of "est s" now] run_validate(4) show ?thesis by simp
    qed
    have "job_expected st0 st' (os ! k) ((vjobs s)[i := Validated r] ! k)" if "k < length os" for k
      using j [OF that] fr [OF that] r run_validate(2) l
      by (cases "k = i") (auto simp: job_expected_def split: vjob.splits)
    with run_validate l collect_update [OF c run_validate(2), of "collected s" "Validated r"]
    show ?thesis by (simp add: indep_inv_def)
  next
    case (run_add i r)
    then have "job_expected st0 (est s) (os ! k) ((vjobs s)[i := Added r] ! k)" if "k < length os" for k
      using j [OF that] l by (cases "k = i") (auto simp: job_expected_def)
    with run_add l collect_update [OF c run_add(2), of "add_result r (collected s)" "Added r"]
    show ?thesis by (simp add: indep_inv_def add_result_def)
  qed
qed


interpretation indep: invariant_system
  "\<lambda>s. distinct (map accountId os) \<and> s = engine_start st0 os"
  "\<lambda>s s'. distinct (map accountId os) \<and> engine_step s s'" "indep_inv st0 os" for st0 os
proof (unfold_locales, goal_cases)
  case (1 s)
  have "sum_list (map (added \<circ> Todo) xs) = {#}" for xs by (induction xs) auto
  with 1 show ?case by (simp add: indep_inv_def engine_start_def job_expected_def)
next
  case (2 s s')
  then show ?case using indep_step by blast
qed

lemma indep_results:
  assumes "distinct (map accountId os)" and "engine_step\<^sup>*\<^sup>* (engine_start st0 os) s" and "engine_done s"
  shows "set (map key (collected s)) = expected st0 ` set os"
proof -
  have "indep_inv st0 os s"
    using indep.reachable_inv [of os "engine_start st0 os" st0 s] assms(1,2) by simp
  then have c: "mset (collected s) = sum_list (map added (vjobs s))" and l: "length (vjobs s) = length os"
    and j: "\<And>i. i < length os \<Longrightarrow> job_expected st0 (est s) (os ! i) (vjobs s ! i)"
    unfolding indep_inv_def by auto
  from mset_eq_setD [OF collected_done [OF c assms(3)]]
  have set: "Added ` set (collected s) = set (vjobs s)" by simp
  have add: "\<exists>r. vjobs s ! i = Added r \<and> key r = expected st0 (os ! i)" if "i < length os" for i
  proof -
    from assms(3) l that have "is_added (vjobs s ! i)" by (simp add: engine_done_def list_all_length)
    with j [OF that] show ?thesis by (cases "vjobs s ! i") (auto simp: job_expected_def)
  qed
  have "key r \<in> expected st0 ` set os" if "r \<in> set (collected s)" for r
  proof -
    from that set have "Added r \<in> set (vjobs s)" by blast
    then obtain i where "i < length os" "vjobs s ! i = Added r" using l by (auto simp: in_set_conv_nth)
    with add [of i] show ?thesis by auto
  qed
  moreover have "expected st0 ord \<in> key ` set (collected s)" if "ord \<in> set os" for ord
  proof -
    from that obtain i where i: "i < length os" "ord = os ! i" by (auto simp: in_set_conv_nth)
    with add [of i] obtain r where r: "vjobs s ! i = Added r" "key r = expected st0 ord" by auto
    with i l have "Added r \<in> set (vjobs s)" by (metis nth_mem)
    with set have "r \<in> set (collected s)" by (metis image_iff vjob.inject(3))
    with r show ?thesis by (metis image_eqI)
  qed
  ultimately show ?thesis by auto
qed

lemma stamp_simps:
  assumes "length orders = length stamps"
  shows "map accountId (stamp orders stamps) = map accountId orders"
    and "map (expected st) (stamp orders stamps) = map (expected st) orders"
    and "length (stamp orders stamps) = length orders"
  using assms
  by (induction orders stamps rule: list_induct2)
    (auto simp: stamp_def expected_def validate_fields decide_accepted static_ok_def order_cost_def)

lemma pool_test_passes:
  assumes "length draws < 2 ^ 64" and "generateIndependent draws accountStart 1 = (orders, next')"
    and "engine_step\<^sup>*\<^sup>* (engine_start (seed_accounts empty_store (map accountId orders) (double_of_nat 100000))
       (stamp orders submitted)) s" and "engine_done s"
    and "length submitted = length orders" and "length stamps = length orders" and "length nows = length orders"
  shows "testCorrectnessVsSequential orders stamps nows s"
proof -
  let ?st = "seed_accounts empty_store (map accountId orders) (double_of_nat 100000)"
  have d: "distinct (map accountId orders)"
    using generateIndependent_distinct(1) [OF assms(1), of accountStart 1] assms(2) by simp
  note S = stamp_simps [OF assms(5) [symmetric]] and S' = stamp_simps [OF assms(6) [symmetric]]
  have "set (map key (collected s)) = expected ?st ` set (stamp orders submitted)"
    using assms(3,4) d by (intro indep_results) (simp_all add: S)
  also have "\<dots> = expected ?st ` set orders"
    using arg_cong [OF S(2), of set ?st] by simp
  also have "\<dots> = set (map key (snd (validate_all ?st (zip (stamp orders stamps) nows))))"
    using d assms(7) by (subst sequential_expected [where st0 = ?st])
      (use arg_cong [OF S'(2), of set ?st] in \<open>simp_all add: S'\<close>)
  finally show ?thesis
    by (simp add: testCorrectnessVsSequential_def accepted_ids_key takeAll_def)
qed

text \<open>
  C15. The first test of the engine passes under every schedule: however the workers of the pool
  interleave the jobs of independently generated orders, the accepted order ids are those of the
  single-threaded baseline.
\<close>

theorem pool_matches_sequential:
  assumes "length draws < 2 ^ 64" and "generateIndependent draws accountStart 1 = (orders, next')"
    and "engine_step\<^sup>*\<^sup>* (engine_start (seed_accounts empty_store (map accountId orders) (double_of_nat 100000))
       (stamp orders submitted)) s" and "engine_done s"
    and "length submitted = length orders" and "length stamps = length orders" and "length nows = length orders"
  shows "testCorrectnessVsSequential orders stamps nows s"
  by (rule pool_test_passes [OF assms])


section \<open>The invariant of conflicting pairs\<close>

definition is_pair_order :: "u64 \<Rightarrow> order \<Rightarrow> bool" where
  "is_pair_order a ord \<longleftrightarrow> accountId ord = a \<and> symbol ord = ''BTC-USD'' \<and> side ord = BUY \<and>
     qty ord = 1 \<and> price ord = double_of_nat 6000"

lemma pair_cost: "is_pair_order a ord \<Longrightarrow> order_cost ord = double_of_nat 6000"
  using dmul_whole [of 1 6000] by (simp add: is_pair_order_def order_cost_def)

lemma pair_validate:
  assumes o: "is_pair_order a ord" and b: "balances st a = Some (double_of_nat b)" and le: "b \<le> 10000"
  shows "accepted (snd (validate st ord now)) \<longleftrightarrow> 6000 \<le> b"
    and "balances (fst (validate st ord now)) a = Some (double_of_nat (if 6000 \<le> b then b - 6000 else b))"
    and "vr_accountId (snd (validate st ord now)) = a"
proof -
  have n: "b \<le> 2 ^ 53" "6000 \<le> (2 :: nat) ^ 53" using le by simp_all
  have s: "static_ok ord" using o dle_dzero_whole [of 6000]
    by (simp add: static_ok_def is_pair_order_def allowedSymbols_def)
  from o have f: "side ord = BUY" "accountId ord = a" by (simp_all add: is_pair_order_def)
  have d: "dless (double_of_nat b) (double_of_nat 6000) \<longleftrightarrow> b < 6000" by (rule dless_whole [OF n])
  show "accepted (snd (validate st ord now)) \<longleftrightarrow> 6000 \<le> b"
    using s f b d by (auto simp: validate_fields decide_accepted tryDebit_def pair_cost [OF o])
  show "balances (fst (validate st ord now)) a = Some (double_of_nat (if 6000 \<le> b then b - 6000 else b))"
    using s f b d dsub_whole [of 6000 b] n
    by (auto simp: validate_fields decide_store tryDebit_def pair_cost [OF o])
  show "vr_accountId (snd (validate st ord now)) = a" using f by (simp add: validate_fields)
qed

fun seen :: "u64 \<Rightarrow> vjob \<Rightarrow> nat" where
  "seen a (Todo ord) = 0"
| "seen a (Validated r) = of_bool (vr_accountId r = a)"
| "seen a (Added r) = of_bool (vr_accountId r = a)"

fun granted :: "u64 \<Rightarrow> vjob \<Rightarrow> nat" where
  "granted a (Todo ord) = 0"
| "granted a (Validated r) = of_bool (accepted r \<and> vr_accountId r = a)"
| "granted a (Added r) = of_bool (accepted r \<and> vr_accountId r = a)"

fun job_account :: "vjob \<Rightarrow> u64" where
  "job_account (Todo ord) = accountId ord"
| "job_account (Validated r) = vr_accountId r"
| "job_account (Added r) = vr_accountId r"

definition pair_inv :: "u64 list \<Rightarrow> u64 list \<Rightarrow> engine \<Rightarrow> bool" where
  "pair_inv accts owners s \<longleftrightarrow>
     mset (collected s) = sum_list (map added (vjobs s)) \<and>
     map job_account (vjobs s) = owners \<and>
     (\<forall>ord. Todo ord \<in> set (vjobs s) \<longrightarrow> is_pair_order (accountId ord) ord) \<and>
     (\<forall>a \<in> set accts.
        (let n = sum_list (map (seen a) (vjobs s)) in
         sum_list (map (granted a) (vjobs s)) = (if n = 0 then 0 else 1) \<and>
         balances (est s) a = Some (double_of_nat (if n = 0 then 10000 else 4000))))"

lemma pair_step:
  assumes own: "set owners \<subseteq> set accts" and inv: "pair_inv accts owners s" and step: "engine_step s s'"
  shows "pair_inv accts owners s'"
proof -
  have c: "mset (collected s) = sum_list (map added (vjobs s))"
    and l: "map job_account (vjobs s) = owners"
    and t: "\<And>ord. Todo ord \<in> set (vjobs s) \<Longrightarrow> is_pair_order (accountId ord) ord"
    and a: "\<And>a. a \<in> set accts \<Longrightarrow>
         sum_list (map (granted a) (vjobs s)) = (if sum_list (map (seen a) (vjobs s)) = 0 then 0 else 1) \<and>
         balances (est s) a = Some (double_of_nat (if sum_list (map (seen a) (vjobs s)) = 0 then 10000 else 4000))"
    using inv unfolding pair_inv_def Let_def by auto
  from step show ?thesis
  proof (cases rule: engine_step_cases)
    case (run_validate i ord now st' r)
    let ?js = "(vjobs s)[i := Validated r]"
    have mem: "Todo ord \<in> set (vjobs s)" using run_validate(2,3) by (metis nth_mem)
    note o = t [OF mem]
    have st': "st' = fst (validate (est s) ord now)" "r = snd (validate (est s) ord now)"
      using run_validate(4) by simp_all
    have "accountId ord \<in> set owners" using l mem by force
    with own have in_a: "accountId ord \<in> set accts" by blast
    let ?n = "sum_list (map (seen (accountId ord)) (vjobs s))"
    have b: "balances (est s) (accountId ord) = Some (double_of_nat (if ?n = 0 then 10000 else 4000))"
      using a [OF in_a] by simp
    note V = pair_validate [OF o b, of now, folded st']
    have S: "sum_list (map (seen x) ?js) = sum_list (map (seen x) (vjobs s)) + seen x (Validated r)"
      "sum_list (map (granted x) ?js) = sum_list (map (granted x) (vjobs s)) + granted x (Validated r)" for x
      using sum_list_map_update [OF run_validate(2), of "seen x" "Validated r"]
        sum_list_map_update [OF run_validate(2), of "granted x" "Validated r"] run_validate(3) by simp_all
    have "sum_list (map (granted x) ?js) = (if sum_list (map (seen x) ?js) = 0 then 0 else 1) \<and>
         balances st' x = Some (double_of_nat (if sum_list (map (seen x) ?js) = 0 then 10000 else 4000))"
      if "x \<in> set accts" for x
    proof (cases "x = accountId ord")
      case True
      with V a [OF in_a] show ?thesis unfolding S by (auto split: if_splits)
    next
      case False
      with V(3) a [OF that] validate_frame [OF False, of "est s" now] show ?thesis
        unfolding S st'(1) by (auto split: if_splits)
    qed
    moreover have "map job_account ?js = owners"
      using l run_validate(2,3) V(3) by (simp add: map_update) (metis job_account.simps(1) list_update_id nth_map)
    moreover have "is_pair_order (accountId q) q" if "Todo q \<in> set ?js" for q
      using in_set_update [OF that] t by auto
    ultimately show ?thesis
      using run_validate collect_update [OF c run_validate(2), of "collected s" "Validated r"]
      by (simp add: pair_inv_def)
  next
    case (run_add i r)
    let ?js = "(vjobs s)[i := Added r]"
    have S: "sum_list (map (seen x) ?js) = sum_list (map (seen x) (vjobs s))"
      "sum_list (map (granted x) ?js) = sum_list (map (granted x) (vjobs s))" for x
      using sum_list_map_update [OF run_add(2), of "seen x" "Added r"]
        sum_list_map_update [OF run_add(2), of "granted x" "Added r"] run_add(3) by simp_all
    moreover have "map job_account ?js = owners"
      using l run_add(2,3) by (simp add: map_update) (metis job_account.simps(2) list_update_id nth_map)
    moreover have "is_pair_order (accountId q) q" if "Todo q \<in> set ?js" for q
      using in_set_update [OF that] t by auto
    ultimately show ?thesis
      using run_add a collect_update [OF c run_add(2), of "add_result r (collected s)" "Added r"]
      by (simp add: pair_inv_def add_result_def)
  qed
qed


interpretation pairs: invariant_system
  "\<lambda>s. set owners \<subseteq> set accts \<and> pair_inv accts owners s"
  "\<lambda>s s'. set owners \<subseteq> set accts \<and> engine_step s s'" "pair_inv accts owners" for accts owners
  by unfold_locales (auto intro: pair_step)

lemma seed_balances:
  "balances (seed_accounts st accts b) a = (if a \<in> set accts then Some b else balances st a)"
  unfolding seed_accounts_def
  by (induction accts arbitrary: st) (auto simp: setBalance_def split: option.split)

lemma pairs_from_orders:
  "(\<forall>ord \<in> set (fst (pairs_from start i n m)). \<exists>k \<in> {i..<i + n}. is_pair_order (start + of_nat k) ord) \<and>
   accountId ` set (fst (pairs_from start i n m)) = (\<lambda>k. start + of_nat k) ` {i..<i + n}"
proof (induction n arbitrary: i m)
  case (Suc n)
  obtain os q where g: "pairs_from start (Suc i) n (m + 2) = (os, q)" by fastforce
  have p: "is_pair_order a (pair_order a j)" for a j
    by (simp add: is_pair_order_def pair_order_def)
  have "{i..<i + Suc n} = insert i {Suc i..<Suc i + n}" by auto
  with Suc.IH [of "Suc i" "m + 2"] g p show ?case
    by (simp add: Let_def) (auto simp: pair_order_def)
qed simp

abbreviation pair_accounts :: "nat \<Rightarrow> u64 \<Rightarrow> u64 list" where
  "pair_accounts pairCount accountStart \<equiv> map (\<lambda>i. accountStart + of_nat i) [0..<pairCount]"

lemma pair_start:
  assumes "generateConflictingPairs n start m = (orders, next')" and "length submitted = length orders"
  shows "pair_inv (pair_accounts n start) (map accountId orders)
      (engine_start (seed_accounts empty_store (pair_accounts n start) (double_of_nat 10000)) (stamp orders submitted))"
    and "set (map accountId orders) = set (pair_accounts n start)"
proof -
  note P = pairs_from_orders [of start 0 n m]
  have os: "orders = fst (pairs_from start 0 n m)" using assms(1) by (simp add: generateConflictingPairs_def)
  show "set (map accountId orders) = set (pair_accounts n start)" using P os by simp
  have "is_pair_order (accountId ord) ord" if "ord \<in> set (stamp orders submitted)" for ord
  proof -
    from that obtain q u where "q \<in> set orders" "ord = q\<lparr>enqueueTime := u\<rparr>"
      unfolding stamp_def by (auto dest: set_zip_leftD)
    with P os show ?thesis by (auto simp: is_pair_order_def)
  qed
  moreover have "sum_list (map (added \<circ> Todo) xs) = {#}" "sum_list (map (seen a \<circ> Todo) xs) = 0"
    "sum_list (map (granted a \<circ> Todo) xs) = 0" for a xs by (induction xs) auto
  moreover have "map (job_account \<circ> Todo) (stamp orders submitted) = map accountId orders"
    using stamp_simps(1) [OF assms(2) [symmetric]] by (simp add: comp_def)
  ultimately show "pair_inv (pair_accounts n start) (map accountId orders)
      (engine_start (seed_accounts empty_store (pair_accounts n start) (double_of_nat 10000)) (stamp orders submitted))"
    by (auto simp: pair_inv_def engine_start_def seed_balances)
qed

lemma granted_collected:
  assumes "mset (map Added rs) = mset js"
  shows "acceptedPerAccount rs a = sum_list (map (granted a) js)"
proof -
  have "sum_list (map (granted a) js) = sum_list (map (granted a) (map Added rs))"
    using assms by (metis mset_map sum_mset_sum_list)
  also have "\<dots> = acceptedPerAccount rs a"
    unfolding acceptedPerAccount_def by (induction rs) auto
  finally show ?thesis by simp
qed

lemma pairs_test_passes:
  assumes "generateConflictingPairs pairCount accountStart 1 = (orders, next')"
    and "length submitted = length orders"
    and "engine_step\<^sup>*\<^sup>* (engine_start
       (seed_accounts empty_store (map (\<lambda>i. accountStart + of_nat i) [0..<pairCount]) (double_of_nat 10000))
       (stamp orders submitted)) s" and "engine_done s"
  shows "testNoDoubleSpend pairCount accountStart s \<and>
    (\<forall>i < pairCount. acceptedPerAccount (takeAll (collected s)) (accountStart + of_nat i) = 1)"
proof -
  let ?A = "pair_accounts pairCount accountStart"
  note P = pair_start [OF assms(1,2)]
  have "pair_inv ?A (map accountId orders) s"
    using pairs.reachable_inv [of "map accountId orders" ?A] P assms(3) by simp
  then have c: "mset (collected s) = sum_list (map added (vjobs s))"
    and l: "map job_account (vjobs s) = map accountId orders"
    and a: "\<And>a. a \<in> set ?A \<Longrightarrow>
         sum_list (map (granted a) (vjobs s)) = (if sum_list (map (seen a) (vjobs s)) = 0 then 0 else 1) \<and>
         balances (est s) a = Some (double_of_nat (if sum_list (map (seen a) (vjobs s)) = 0 then 10000 else 4000))"
    unfolding pair_inv_def Let_def by auto
  note fin = collected_done [OF c assms(4)]
  have one: "acceptedPerAccount (collected s) x = 1 \<and> balances (est s) x = Some (double_of_nat 4000)"
    if x: "x \<in> set ?A" for x
  proof -
    from x P(2) l have "x \<in> set (map job_account (vjobs s))" by simp
    then obtain j where j: "j \<in> set (vjobs s)" "job_account j = x" by auto
    with assms(4) have "seen x j = 1" by (cases j) (auto simp: engine_done_def list_all_iff)
    moreover have "seen x j \<le> sum_list (map (seen x) (vjobs s))"
      using j(1) by (intro member_le_sum_list) auto
    ultimately have "sum_list (map (seen x) (vjobs s)) \<noteq> 0" by linarith
    with a [OF x] granted_collected [OF fin] show ?thesis by presburger
  qed
  have acc: "vr_accountId r \<in> set ?A" if "r \<in> set (collected s)" for r
  proof -
    from that mset_eq_setD [OF fin] have "Added r \<in> set (vjobs s)" by auto
    then have "vr_accountId r \<in> set (map job_account (vjobs s))" by force
    with l P(2) show ?thesis by simp
  qed
  have neg: "\<not> dless (double_of_nat 4000) dzero"
    using dless_whole [of 4000 0] by (simp add: dzero_whole)
  have "testNoDoubleSpend pairCount accountStart s"
    using one acc neg
    by (force simp: testNoDoubleSpend_def takeAll_def list_ex_iff getBalance_def)
  with one show ?thesis by (simp add: takeAll_def)
qed

text \<open>
  C16. The second test passes under every schedule: of the two concurrent BUY orders of 6000 on
  each account of 10000, exactly one is accepted, and no balance is negative.
\<close>

theorem no_double_spend:
  assumes "generateConflictingPairs pairCount accountStart 1 = (orders, next')"
    and "length submitted = length orders"
    and "engine_step\<^sup>*\<^sup>* (engine_start
       (seed_accounts empty_store (map (\<lambda>i. accountStart + of_nat i) [0..<pairCount]) (double_of_nat 10000))
       (stamp orders submitted)) s" and "engine_done s"
  shows "testNoDoubleSpend pairCount accountStart s \<and>
    (\<forall>i < pairCount. acceptedPerAccount (takeAll (collected s)) (accountStart + of_nat i) = 1)"
  by (rule pairs_test_passes [OF assms])


text \<open>Runs given by the sequence of the jobs that make a step.\<close>

definition engine_exec :: "nat \<Rightarrow> engine \<Rightarrow> engine" where
  "engine_exec i s =
     (if i < length (vjobs s) then
        case vjobs s ! i of
          Todo ord \<Rightarrow>
            (case validate (est s) ord 0 of (st', r) \<Rightarrow> s\<lparr>est := st', vjobs := (vjobs s)[i := Validated r]\<rparr>)
        | Validated r \<Rightarrow> s\<lparr>collected := add_result r (collected s), vjobs := (vjobs s)[i := Added r]\<rparr>
        | Added r \<Rightarrow> s
      else s)"

lemma engine_exec_step: "engine_step\<^sup>*\<^sup>* s (engine_exec i s)"
  unfolding engine_exec_def
  by (auto split: vjob.split prod.split intro!: r_into_rtranclp engine_stepI engine_at.intros)

lemma engine_run_steps: "engine_step\<^sup>*\<^sup>* s (fold engine_exec is s)"
  by (induction "is" arbitrary: s) (auto intro: engine_exec_step rtranclp_trans)

definition pair_demo :: engine where
  "pair_demo = engine_start (seed_accounts empty_store [7] (double_of_nat 10000))
     (stamp [pair_order 7 1, pair_order 7 2] [3, 4])"

lemma pair_demo_facts:
  "generateConflictingPairs 1 7 1 = ([pair_order 7 1, pair_order 7 2], 3)"
  "engine_done (fold engine_exec [1, 0, 0, 1] pair_demo)"
  "engine_step\<^sup>*\<^sup>* (engine_start (seed_accounts empty_store (map (\<lambda>i. 7 + of_nat i) [0..<1]) (double_of_nat 10000))
     (stamp [pair_order 7 1, pair_order 7 2] [3, 4])) (fold engine_exec [1, 0, 0, 1] pair_demo)"
  using engine_run_steps [of pair_demo "[1, 0, 0, 1]"]
  by (simp_all add: generateConflictingPairs_def pair_demo_def engine_exec_def engine_start_def stamp_def engine_done_def
      split: prod.split)

theorem no_double_spend_witness:
  "testNoDoubleSpend 1 7 (fold engine_exec [1, 0, 0, 1] pair_demo) \<and>
   acceptedPerAccount (collected (fold engine_exec [1, 0, 0, 1] pair_demo)) 7 = 1"
  using no_double_spend [OF pair_demo_facts(1) _ pair_demo_facts(3,2)] by (simp add: takeAll_def)

definition indep_draws :: "draw list" where
  "indep_draws = [\<lparr>symbolPick = 0, sidePick = 0, qtyDraw = 2, priceDraw = double_of_nat 70000\<rparr>,
     \<lparr>symbolPick = 1, sidePick = 0, qtyDraw = 1, priceDraw = double_of_nat 10\<rparr>]"

definition indep_demo :: "engine" where
  "indep_demo = engine_start
     (seed_accounts empty_store (map accountId (fst (generateIndependent indep_draws 1 1))) (double_of_nat 100000))
     (stamp (fst (generateIndependent indep_draws 1 1)) [3, 4])"

definition indep_orders :: "order list" where
  "indep_orders = fst (generateIndependent indep_draws 1 1)"

lemma indep_demo_facts:
  "length indep_draws < 2 ^ 64"
  "generateIndependent indep_draws 1 1 = (indep_orders, snd (generateIndependent indep_draws 1 1))"
  "length indep_orders = 2"
  "engine_done (fold engine_exec [1, 1, 0, 0] indep_demo)"
  "engine_step\<^sup>*\<^sup>* (engine_start (seed_accounts empty_store (map accountId indep_orders) (double_of_nat 100000))
     (stamp indep_orders [3, 4])) (fold engine_exec [1, 1, 0, 0] indep_demo)"
proof -
  show "engine_step\<^sup>*\<^sup>* (engine_start (seed_accounts empty_store (map accountId indep_orders) (double_of_nat 100000))
     (stamp indep_orders [3, 4])) (fold engine_exec [1, 1, 0, 0] indep_demo)"
    using engine_run_steps [of indep_demo "[1, 1, 0, 0]"] by (simp only: indep_demo_def indep_orders_def)
qed (simp_all add: indep_orders_def indep_demo_def indep_draws_def generateIndependent_def engine_exec_def
    engine_start_def stamp_def engine_done_def Let_def split: prod.split)

theorem pool_matches_sequential_witness:
  "testCorrectnessVsSequential indep_orders [1, 2] [5, 6] (fold engine_exec [1, 1, 0, 0] indep_demo)"
  using pool_matches_sequential [OF indep_demo_facts(1,2,5,4), of "[1, 2]" "[5, 6]"] indep_demo_facts(3) by simp

section \<open>The whole program\<close>

text \<open>The exit code of main, from the results of the two tests.\<close>

definition engine_main :: "bool \<Rightarrow> bool \<Rightarrow> int" where
  "engine_main t1 t2 = (if t1 \<and> t2 then 0 else 1)"

text \<open>
  The engine program reports success under every schedule: whatever orders the generator
  draws and however the workers of the two pools interleave, both tests pass and main returns 0.
\<close>

lemma engine_main_passes:
  assumes "length draws < 2 ^ 64" and "generateIndependent draws accountStart 1 = (orders, next')"
    and "engine_step\<^sup>*\<^sup>* (engine_start (seed_accounts empty_store (map accountId orders) (double_of_nat 100000))
       (stamp orders submitted)) s" and "engine_done s"
    and "length submitted = length orders" and "length stamps = length orders" and "length nows = length orders"
    and "generateConflictingPairs pairCount pairStart 1 = (pairs, next'')" and "length submitted' = length pairs"
    and "engine_step\<^sup>*\<^sup>* (engine_start
       (seed_accounts empty_store (map (\<lambda>i. pairStart + of_nat i) [0..<pairCount]) (double_of_nat 10000))
       (stamp pairs submitted')) s'" and "engine_done s'"
  shows "engine_main (testCorrectnessVsSequential orders stamps nows s) (testNoDoubleSpend pairCount pairStart s') = 0"
  using pool_test_passes [OF assms(1-7)] pairs_test_passes [OF assms(8-11)] by (simp add: engine_main_def)

lemma engine_main_passes_witness:
  "engine_main (testCorrectnessVsSequential indep_orders [1, 2] [5, 6] (fold engine_exec [1, 1, 0, 0] indep_demo))
     (testNoDoubleSpend 1 7 (fold engine_exec [1, 0, 0, 1] pair_demo)) = 0"
  using engine_main_passes [OF indep_demo_facts(1,2,5,4) _ _ _ pair_demo_facts(1) _ pair_demo_facts(3,2),
      of "[1, 2]" "[5, 6]"] indep_demo_facts(3) by simp

end
