(* ===== verification/EnginePool.thy ===== *)
theory EnginePool
  imports PooledRun Engine
begin

text \<open>
  src/main.cpp on the real pool: the two correctness tests of theory Engine with the jobs run by
  the workers of theory ThreadPool, from the first submit to the end of the destructor.
\<close>

section \<open>The jobs of the tests\<close>

definition engine_returned :: "nat \<Rightarrow> engine \<Rightarrow> bool" where
  "engine_returned i e \<longleftrightarrow> i < length (vjobs e) \<and> is_added (vjobs e ! i)"

interpretation ej: pool_jobs N "\<lambda>_. engine_at" engine_returned "\<lambda>e. length (vjobs e) = N" "\<lambda>_ _ _. True" for N
proof
  show "length (vjobs e') = N" if "engine_at y e e'" "length (vjobs e) = N" for y e e'
    using that by cases auto
  show "engine_returned x e'" if "engine_at y e e'" "engine_returned x e" for x y e e'
    using that by cases (cases "y = x"; simp add: engine_returned_def)+
  show "\<exists>e'. engine_at x e e'" if "x < N" "length (vjobs e) = N" "\<not> engine_returned x e" for x e
  proof (cases "vjobs e ! x")
    case (Todo ord)
    then show ?thesis using engine_at.run_validate [of x e ord 0] that by (metis prod.exhaust)
  next
    case (Validated r)
    then show ?thesis using engine_at.run_add [of x e r] that by metis
  next
    case (Added r)
    then show ?thesis using that by (simp add: engine_returned_def)
  qed
qed

text \<open>
  The states of a test: a pool of capacity \<open>cap\<close> (the default is 65536) with one worker per hardware
  thread, and one job per order.
\<close>

definition engine_run :: "u64 \<Rightarrow> nat \<Rightarrow> account_store \<Rightarrow> order list \<Rightarrow> engine pooled \<Rightarrow> bool" where
  "engine_run cap hw st orders s \<longleftrightarrow>
     (\<exists>p. new_pool cap hw hw 1 1 = Some p \<and>
        (pooled_step (length orders) (\<lambda>_. engine_at) engine_returned)\<^sup>*\<^sup>* (pooled_start p (engine_start st orders)) s)"

lemma engine_run_facts:
  assumes "engine_run cap hw st orders s"
  shows "pooled_inv (length orders) engine_returned (\<lambda>e. length (vjobs e) = length orders) (\<lambda>_ _ _. True) s"
    and "engine_step\<^sup>*\<^sup>* (engine_start st orders) (shared s)"
proof -
  let ?N = "length orders"
  obtain p where p: "new_pool cap hw hw 1 1 = Some p"
      "(pooled_step ?N (\<lambda>_. engine_at) engine_returned)\<^sup>*\<^sup>* (pooled_start p (engine_start st orders)) s"
    using assms unfolding engine_run_def by blast
  have "pooled_inv ?N engine_returned (\<lambda>e. length (vjobs e) = ?N) (\<lambda>_ _ _. True) (pooled_start p (engine_start st orders))"
    by (rule ej.pooled_inv_start [OF p(1)]) (simp_all add: engine_start_def)
  note R = ej.job_run [OF p(2) this]
  show "pooled_inv ?N engine_returned (\<lambda>e. length (vjobs e) = ?N) (\<lambda>_ _ _. True) s" using R by blast
  have "(\<lambda>e e'. \<exists>w x. w < length (workers p) \<and> x < ?N \<and> True \<and> engine_at x e e')\<^sup>*\<^sup>* (engine_start st orders) (shared s)"
    using R by (simp add: pooled_start_def)
  then show "engine_step\<^sup>*\<^sup>* (engine_start st orders) (shared s)"
    by (rule rtranclp_mono [THEN predicate2D, rotated]) (auto intro: engine_stepI)
qed

lemma engine_run_done:
  assumes "engine_run cap hw st orders s" and "joined s"
  shows "engine_done (shared s)"
proof -
  have inv: "pooled_inv (length orders) engine_returned (\<lambda>e. length (vjobs e) = length orders) (\<lambda>_ _ _. True) s"
    by (rule engine_run_facts(1) [OF assms(1)])
  then have "length (vjobs (shared s)) = length orders" by (simp add: pooled_inv_def)
  with ej.all_returned [OF inv assms(2)] show ?thesis
    by (simp add: engine_done_def engine_returned_def list_all_length)
qed

lemma engine_run_rests:
  assumes "engine_run cap hw st orders s" and "at_rest (length orders) (\<lambda>_. engine_at) engine_returned s"
  shows "joined s"
  by (rule ej.rests_joined [OF engine_run_facts(1) [OF assms(1)] assms(2)])

text \<open>
  C17. The engine program on its pools: whatever orders the generator draws, with any number of
  hardware threads and under every interleaving of the main thread, the workers of the two pools
  and the jobs they run, when the destructors of the pools have returned both tests pass and main
  returns 0; and a run in which no thread can go on has come to that point, so neither test hangs.
  The program has the queueCapacity 65536; any \<open>cap\<close> from 2 on would do (not fewer, see C39).
\<close>

theorem engine_main_on_pools:
  assumes "length draws < 2 ^ 64" and "generateIndependent draws accountStart 1 = (orders, next')"
    and "engine_run cap hw (seed_accounts empty_store (map accountId orders) (double_of_nat 100000)) (stamp orders times1) s"
    and "joined s \<or> at_rest (length orders) (\<lambda>_. engine_at) engine_returned s"
    and "length times1 = length orders" and "length stamps = length orders" and "length nows = length orders"
    and "generateConflictingPairs pairCount pairStart 1 = (pairs, next'')" and "length times2 = length pairs"
    and "engine_run cap hw (seed_accounts empty_store (map (\<lambda>i. pairStart + of_nat i) [0..<pairCount]) (double_of_nat 10000))
       (stamp pairs times2) s'"
    and "2 \<le> cap"
    and "joined s' \<or> at_rest (length pairs) (\<lambda>_. engine_at) engine_returned s'"
  shows "engine_main (testCorrectnessVsSequential orders stamps nows (shared s))
      (testNoDoubleSpend pairCount pairStart (shared s')) = 0"
proof -
  have n: "length (stamp orders times1) = length orders" "length (stamp pairs times2) = length pairs"
    using assms(5,9) by (simp_all add: stamp_def)
  have "joined s" "joined s'"
    using assms(4,12) engine_run_rests [OF assms(3)] engine_run_rests [OF assms(10)] unfolding n by blast+
  then have "engine_done (shared s)" "engine_done (shared s')"
    using engine_run_done [OF assms(3)] engine_run_done [OF assms(10)] by blast+
  with pool_test_passes [OF assms(1,2) engine_run_facts(2) [OF assms(3)] _ assms(5-7)]
    pairs_test_passes [OF assms(8,9) engine_run_facts(2) [OF assms(10)]]
  show ?thesis by (simp add: engine_main_def)
qed

section \<open>A run\<close>

definition engine_jexec :: "nat \<Rightarrow> nat \<Rightarrow> engine \<Rightarrow> engine option" where
  "engine_jexec w i e =
     (if i < length (vjobs e) \<and> \<not> is_added (vjobs e ! i) then Some (engine_exec i e) else None)"

lemma engine_jexec_at: "engine_jexec w i e = Some e' \<Longrightarrow> engine_at i e e'"
  unfolding engine_jexec_def engine_exec_def
  by (auto split: if_splits vjob.splits prod.splits intro: engine_at.intros)

fun steps_made :: "vjob \<Rightarrow> nat" where
  "steps_made (Todo ord) = 0" | "steps_made (Validated r) = 1" | "steps_made (Added r) = 2"

lemma engine_counts:
  "count_jexec 2 w i (map steps_made (vjobs e)) = map_option (\<lambda>e. map steps_made (vjobs e)) (engine_jexec w i e)"
  "count_jdone 2 i (map steps_made (vjobs e)) = engine_returned i e"
proof -
  have m: "map steps_made ((vjobs e)[i := v]) = (map steps_made (vjobs e))[i := steps_made v]" for v
    by (simp add: map_update)
  show "count_jexec 2 w i (map steps_made (vjobs e)) = map_option (\<lambda>e. map steps_made (vjobs e)) (engine_jexec w i e)"
    by (cases "vjobs e ! i")
      (auto simp: count_jexec_def engine_jexec_def engine_exec_def m numeral_2_eq_2 split: prod.split)
  show "count_jdone 2 i (map steps_made (vjobs e)) = engine_returned i e"
    by (cases "vjobs e ! i") (auto simp: count_jdone_def engine_returned_def)
qed

definition demo_run :: "engine \<Rightarrow> engine pooled" where
  "demo_run e = fold (pooled_exec 2 engine_jexec engine_returned) two_jobs_cmds (pooled_start two_workers e)"

lemma demo_run_facts:
  assumes "length orders = 2"
  shows "engine_run 2 2 st orders (demo_run (engine_start st orders))" and "joined (demo_run (engine_start st orders))"
proof -
  show "engine_run 2 2 st orders (demo_run (engine_start st orders))"
    unfolding engine_run_def assms demo_run_def
    by (intro exI [of _ two_workers] conjI two_workers_start pooled_run_steps engine_jexec_at)
  let ?f = "\<lambda>e. map steps_made (vjobs e)"
  have "abs_shared ?f (demo_run e) = fold (pooled_exec 2 (count_jexec 2) (count_jdone 2)) two_jobs_cmds (abs_shared ?f (pooled_start two_workers e))" for e
    unfolding demo_run_def by (rule abs_run) (rule engine_counts)+
  moreover have "?f (engine_start st orders) = [0, 0]"
    using assms by (auto simp: engine_start_def length_Suc_conv numeral_2_eq_2)
  ultimately have "abs_shared ?f (demo_run (engine_start st orders)) =
      fold (pooled_exec 2 (count_jexec 2) (count_jdone 2)) two_jobs_cmds (pooled_start two_workers [0, 0])"
    by (simp add: abs_shared_def pooled_start_def)
  then have "joined (abs_shared ?f (demo_run (engine_start st orders)))" using demo_joined by simp
  then show "joined (demo_run (engine_start st orders))" by (simp add: joined_def abs_shared_def)
qed

text \<open>
  On two independent orders and on one conflicting pair.
\<close>

definition demo_test1 :: "engine pooled" where
  "demo_test1 = demo_run (engine_start (seed_accounts empty_store (map accountId indep_orders) (double_of_nat 100000))
     (stamp indep_orders [3, 4]))"

definition demo_test2 :: "engine pooled" where
  "demo_test2 = demo_run (engine_start
     (seed_accounts empty_store (map (\<lambda>i. 7 + of_nat i) [0..<1]) (double_of_nat 10000))
     (stamp [pair_order 7 1, pair_order 7 2] [3, 4]))"

theorem engine_main_on_pools_witness:
  "engine_main (testCorrectnessVsSequential indep_orders [1, 2] [5, 6] (shared demo_test1))
     (testNoDoubleSpend 1 7 (shared demo_test2)) = 0"
proof -
  have n: "length (stamp indep_orders [3, 4]) = 2" "length (stamp [pair_order 7 1, pair_order 7 2] [3, 4]) = 2"
    using indep_demo_facts(3) by (simp_all add: stamp_def)
  note D = demo_run_facts [OF n(1)] demo_run_facts [OF n(2)]
  show ?thesis
    using engine_main_on_pools [OF indep_demo_facts(1,2), of 2 2 "[3, 4]" demo_test1 "[1, 2]" "[5, 6]" 1 7 _ _ "[3, 4]" demo_test2]
      pair_demo_facts(1) D indep_demo_facts(3)
    unfolding demo_test1_def demo_test2_def by simp
qed

end
