(* ===== verification/Stats.thy ===== *)
theory Stats
  imports Binary64 "HOL-Library.Multiset"
begin

text \<open>
  include/Stats.hpp: the order statistics of the latency samples.  std::sort is an insertion
  sort by the comparison of doubles; the percentile literals are the doubles nearest to them.
\<close>

record latency_stats =
  st_min :: double
  p50 :: double
  p99 :: double
  p999 :: double
  st_max :: double
  avg :: double

fun insert_double :: "double \<Rightarrow> double list \<Rightarrow> double list" where
  "insert_double x [] = [x]"
| "insert_double x (y # ys) = (if dless y x then y # insert_double x ys else x # y # ys)"

definition sort_doubles :: "double list \<Rightarrow> double list" where
  "sort_doubles xs = foldr insert_double xs []"

text \<open>The literal of \<open>k\<close> thousandths.\<close>

definition milli :: "nat \<Rightarrow> double" where
  "milli k = mk_double False (k * one_units) 1000"

text \<open>\<open>static_cast<size_t>\<close> of a non-negative finite double.\<close>

fun to_size :: "double \<Rightarrow> nat" where
  "to_size (Fin s k) = k div one_units"
| "to_size _ = 0"

definition pct_index :: "double \<Rightarrow> nat \<Rightarrow> nat" where
  "pct_index p n = to_size (dmul p (double_of_nat (n - 1)))"

definition pct :: "double list \<Rightarrow> double \<Rightarrow> double" where
  "pct samples p = samples ! pct_index p (length samples)"

definition computeLatencyStats :: "double list \<Rightarrow> latency_stats" where
  "computeLatencyStats samplesMicros =
     (if samplesMicros = [] then \<lparr>st_min = dzero, p50 = dzero, p99 = dzero, p999 = dzero, st_max = dzero, avg = dzero\<rparr>
      else
        let samples = sort_doubles samplesMicros in
        \<lparr>st_min = hd samples, p50 = pct samples (milli 500), p99 = pct samples (milli 990),
         p999 = pct samples (milli 999), st_max = last samples,
         avg = ddiv (foldl dadd dzero samples) (double_of_nat (length samples))\<rparr>)"

section \<open>Sorting\<close>

lemma insert_double_mset: "mset (insert_double x xs) = add_mset x (mset xs)"
  by (induction xs) auto

lemma sort_doubles_mset: "mset (sort_doubles xs) = mset xs"
  unfolding sort_doubles_def by (induction xs) (simp_all add: insert_double_mset)

lemma sort_doubles_set: "set (sort_doubles xs) = set xs"
  using mset_eq_setD [OF sort_doubles_mset] .

lemma sort_doubles_length: "length (sort_doubles xs) = length xs"
  using mset_eq_length [OF sort_doubles_mset] .

lemma insert_double_sorted:
  assumes "sorted_wrt dle xs" and "x \<noteq> NaN" and "NaN \<notin> set xs"
  shows "sorted_wrt dle (insert_double x xs)"
  using assms
proof (induction xs)
  case (Cons y ys)
  have set: "set (insert_double x ys) = insert x (set ys)"
    using mset_eq_setD [of "insert_double x ys" "x # ys"] insert_double_mset by simp
  show ?case
  proof (cases "dless y x")
    case True
    with Cons set show ?thesis by (auto intro: dless_imp_dle)
  next
    case False
    with Cons.prems have "dle x y" using not_dless_iff [of y x] by auto
    with False Cons.prems show ?thesis by (auto intro: dle_trans)
  qed
qed simp

lemma dle_refl: "x \<noteq> NaN \<Longrightarrow> dle x x"
  by (cases x) auto

lemma sort_doubles_sorted:
  assumes "NaN \<notin> set xs"
  shows "sorted_wrt dle (sort_doubles xs)"
  using assms
proof (induction xs)
  case (Cons x xs)
  have "NaN \<notin> set (sort_doubles xs)" using Cons.prems sort_doubles_set by auto
  with Cons insert_double_sorted [of "sort_doubles xs" x] show ?case by (auto simp: sort_doubles_def)
qed (simp add: sort_doubles_def)

lemma sorted_nth_le:
  assumes "sorted_wrt dle xs" and "NaN \<notin> set xs" and "i \<le> j" and "j < length xs"
  shows "dle (xs ! i) (xs ! j)"
proof (cases "i = j")
  case True
  with assms show ?thesis by (auto intro!: dle_refl) (metis nth_mem)
next
  case False
  with assms show ?thesis by (simp add: sorted_wrt_nth_less)
qed

section \<open>The percentile indices\<close>

lemma milli_fin:
  assumes "k \<le> 1000"
  shows "milli k = Fin False (rnd53 (k * one_units) 1000)" and "rnd53 (k * one_units) 1000 \<le> one_units"
proof -
  have one: "rep53 one_units" using rep53_whole [of 1] by simp
  have "rnd53 (k * one_units) 1000 \<le> rnd53 (1000 * one_units) 1000"
    by (rule rnd53_mono) (use assms in simp_all)
  also have "\<dots> = one_units" using rnd53_den_exact [OF _ one, of 1000] by (simp add: mult.commute)
  finally show le: "rnd53 (k * one_units) 1000 \<le> one_units" .
  have "one_units < max_units" using whole_lt_max [of 1] by simp
  with le show "milli k = Fin False (rnd53 (k * one_units) 1000)"
    by (simp add: milli_def mk_double_def Let_def)
qed

lemma pct_index_eq:
  assumes "k \<le> 1000" and "n - 1 \<le> 2 ^ 53"
  shows "pct_index (milli k) n =
      rnd53 (rnd53 (k * one_units) 1000 * ((n - 1) * one_units)) one_units div one_units"
    and "pct_index (milli k) n \<le> n - 1"
proof -
  let ?a = "rnd53 (k * one_units) 1000" and ?m = "n - 1"
  have "?a * (?m * one_units) \<le> one_units * (?m * one_units)"
    using milli_fin(2) [OF assms(1)] by (rule mult_le_mono1)
  then have "rnd53 (?a * (?m * one_units)) one_units \<le> rnd53 (one_units * (?m * one_units)) one_units"
    by (rule rnd53_mono [OF one_units_pos])
  also have "\<dots> = ?m * one_units"
    using rnd53_den_exact [OF one_units_pos rep53_whole [OF assms(2)]] by (simp add: mult.commute)
  finally have le: "rnd53 (?a * (?m * one_units)) one_units \<le> ?m * one_units" .
  with whole_lt_max [OF assms(2)] have lt: "rnd53 (?a * (?m * one_units)) one_units < max_units" by simp
  show eq: "pct_index (milli k) n = rnd53 (?a * (?m * one_units)) one_units div one_units"
    using lt unfolding pct_index_def milli_fin(1) [OF assms(1)] double_of_nat_whole [OF assms(2)]
    by (simp add: mk_double_def Let_def)
  have "rnd53 (?a * (?m * one_units)) one_units div one_units \<le> ?m * one_units div one_units"
    using le by (rule div_le_mono)
  then show "pct_index (milli k) n \<le> ?m" unfolding eq by simp
qed

lemma pct_index_mono:
  assumes "j \<le> k" and "k \<le> 1000" and "n - 1 \<le> 2 ^ 53"
  shows "pct_index (milli j) n \<le> pct_index (milli k) n"
proof -
  have "rnd53 (j * one_units) 1000 \<le> rnd53 (k * one_units) 1000"
    by (rule rnd53_mono) (use assms(1) in simp_all)
  then show ?thesis
    using assms unfolding pct_index_eq(1) [OF order_trans [OF assms(1,2)] assms(3)] pct_index_eq(1) [OF assms(2,3)]
    by (intro div_le_mono rnd53_mono mult_le_mono1) simp_all
qed

lemma pct_index_median:
  assumes "n - 1 \<le> 2 ^ 53"
  shows "pct_index (milli 500) n = (n - 1) div 2"
proof -
  have one: "one_units = 2 * 2 ^ 1073" unfolding one_units_def by (simp flip: power_Suc)
  have r: "rep53 (2 ^ 1073)" using rep53_mult_pow [of 1 1073] by simp
  have "rnd53 (500 * one_units) 1000 = 2 ^ 1073"
    using rnd53_den_exact [OF _ r, of 1000] unfolding one by (simp add: mult.commute)
  moreover have "rnd53 (2 ^ 1073 * ((n - 1) * one_units)) one_units = (n - 1) * 2 ^ 1073"
    using rnd53_den_exact [OF one_units_pos rep53_mult_pow [OF assms, of 1073]] by (simp add: mult_ac)
  ultimately have "pct_index (milli 500) n = (n - 1) * 2 ^ 1073 div one_units"
    using pct_index_eq(1) [OF _ assms, of 500] by simp
  also have "\<dots> = (n - 1) div 2" unfolding one by (rule div_mult_mult2) (simp only: power_not_zero, simp)
  finally show ?thesis .
qed

text \<open>
  C31. The latency statistics of any non-empty list of samples without NaN: every index is in
  range, the minimum is below and the maximum above every sample, the percentiles are samples
  and lie in order between them, and p50 is the lower median.
\<close>

theorem latency_stats_ordered:
  assumes "samples \<noteq> []" and "NaN \<notin> set samples" and "length samples \<le> 2 ^ 53"
  shows "let s = computeLatencyStats samples in
    (\<forall>x \<in> set samples. dle (st_min s) x \<and> dle x (st_max s)) \<and>
    dle (st_min s) (p50 s) \<and> dle (p50 s) (p99 s) \<and> dle (p99 s) (p999 s) \<and> dle (p999 s) (st_max s) \<and>
    {st_min s, p50 s, p99 s, p999 s, st_max s} \<subseteq> set samples \<and>
    p50 s = sort_doubles samples ! ((length samples - 1) div 2)"
proof -
  let ?xs = "sort_doubles samples" and ?n = "length samples"
  have n: "?n - 1 \<le> 2 ^ 53" using assms(3) by simp
  have len: "length ?xs = ?n" "0 < ?n" using assms(1) by (simp_all add: sort_doubles_length)
  have ne: "?xs \<noteq> []" using len by auto
  have nn: "NaN \<notin> set ?xs" using assms(2) by (simp add: sort_doubles_set)
  note le = sorted_nth_le [OF sort_doubles_sorted [OF assms(2)] nn]
  note I = pct_index_eq(2) [OF _ n]
  have lt: "pct_index (milli k) ?n < ?n" if "k \<le> 1000" for k using I [OF that] len(2) by linarith
  have ends: "hd ?xs = ?xs ! 0" "last ?xs = ?xs ! (?n - 1)"
    using ne len by (simp_all add: hd_conv_nth last_conv_nth)
  have s: "computeLatencyStats samples =
      \<lparr>st_min = ?xs ! 0, p50 = ?xs ! pct_index (milli 500) ?n, p99 = ?xs ! pct_index (milli 990) ?n,
       p999 = ?xs ! pct_index (milli 999) ?n, st_max = ?xs ! (?n - 1),
       avg = ddiv (foldl dadd dzero ?xs) (double_of_nat ?n)\<rparr>"
    using assms(1) by (simp add: computeLatencyStats_def Let_def ends pct_def len(1))
  have all: "dle (?xs ! 0) x \<and> dle x (?xs ! (?n - 1))" if "x \<in> set samples" for x
  proof -
    from that obtain i where "i < ?n" "x = ?xs ! i"
      using sort_doubles_set len by (metis in_set_conv_nth)
    with le len show ?thesis by simp
  qed
  have mem: "?xs ! i \<in> set samples" if "i < ?n" for i
    using nth_mem [of i ?xs] that len by (simp add: sort_doubles_set)
  have chain: "dle (?xs ! pct_index (milli j) ?n) (?xs ! pct_index (milli k) ?n)"
    if "j \<le> k" "k \<le> 1000" for j k
    using le [OF pct_index_mono [OF that n]] lt [OF that(2)] len by simp
  show ?thesis
    unfolding s Let_def
    using all mem chain [of 500 990] chain [of 990 999] lt [of 500] lt [of 990] lt [of 999] len
      le [of 0 "pct_index (milli 500) ?n"] le [of "pct_index (milli 999) ?n" "?n - 1"] I [of 999]
    by (simp add: pct_index_median [OF n])
qed

definition demo_samples :: "double list" where
  "demo_samples = [Fin False (3 * one_units), Fin False one_units, Fin False (2 * one_units)]"

theorem latency_stats_ordered_witness:
  "dle (st_min (computeLatencyStats demo_samples)) (p50 (computeLatencyStats demo_samples)) \<and>
   dle (p99 (computeLatencyStats demo_samples)) (st_max (computeLatencyStats demo_samples)) \<and>
   p50 (computeLatencyStats demo_samples) = Fin False (2 * one_units)"
proof -
  have p: "demo_samples \<noteq> []" "NaN \<notin> set demo_samples" "length demo_samples \<le> 2 ^ 53"
    by (simp_all add: demo_samples_def)
  have m: "sort_doubles demo_samples ! ((length demo_samples - 1) div 2) = Fin False (2 * one_units)"
    by (simp add: demo_samples_def sort_doubles_def)
  show ?thesis
    using latency_stats_ordered [OF p] unfolding Let_def m by (metis dle_trans)
qed

end
