(* ===== verification/Bench.thy ===== *)
theory Bench
  imports Engine Stats
begin

text \<open>
  The benchmarks of src/main.cpp: runBenchmark, benchmarkSweep and burstTest, as far as they do
  not measure time: who writes which latency buffer, and what the statistics are taken over.
\<close>

section \<open>The latency buffers of the benchmarks\<close>

text \<open>
  runBenchmark and burstTest: one buffer per worker, a shared counter, and for each worker the
  thread-local slot that is -1 until its first job.  A job is run by worker \<open>t\<close> and records the
  latency \<open>l\<close>.
\<close>

record bench =
  mySlot :: "nat \<Rightarrow> int"
  nextSlot :: nat
  buffers :: "double list list"

definition bench_start :: "nat \<Rightarrow> bench" where
  "bench_start numThreads = \<lparr>mySlot = (\<lambda>_. -1), nextSlot = 0, buffers = replicate numThreads []\<rparr>"

definition take_slot :: "nat \<Rightarrow> bench \<Rightarrow> bench" where
  "take_slot t b =
     (if mySlot b t = -1
      then b\<lparr>mySlot := (mySlot b)(t := int (nextSlot b)), nextSlot := nextSlot b + 1\<rparr>
      else b)"

text \<open>None: the slot is out of the range of the vector.\<close>

definition push_latency :: "nat \<Rightarrow> double \<Rightarrow> bench \<Rightarrow> bench option" where
  "push_latency t l b =
     (let k = mySlot b t in
      if 0 \<le> k \<and> nat k < length (buffers b)
      then Some (b\<lparr>buffers := (buffers b)[nat k := buffers b ! nat k @ [l]]\<rparr>) else None)"

definition bench_job :: "nat \<times> double \<Rightarrow> bench \<Rightarrow> bench option" where
  "bench_job = (\<lambda>(t, l) b. push_latency t l (take_slot t b))"

fun bench_run :: "(nat \<times> double) list \<Rightarrow> bench \<Rightarrow> bench option" where
  "bench_run [] b = Some b"
| "bench_run (j # js) b = Option.bind (bench_job j b) (bench_run js)"

definition slots_ok :: "nat \<Rightarrow> bench \<Rightarrow> bool" where
  "slots_ok n b \<longleftrightarrow> length (buffers b) = n \<and>
     (\<forall>t. mySlot b t \<noteq> -1 \<longrightarrow> t < n \<and> 0 \<le> mySlot b t \<and> mySlot b t < int (nextSlot b)) \<and>
     nextSlot b = card {t. mySlot b t \<noteq> -1}"

lemma slots_ok_buffers:
  "length xs = length (buffers b) \<Longrightarrow> slots_ok n (b\<lparr>buffers := xs\<rparr>) = slots_ok n b"
  by (simp add: slots_ok_def)

lemma slots_ok_next:
  assumes "slots_ok n b" and "t < n" and "mySlot b t = -1"
  shows "nextSlot b < n"
proof -
  have "{t. mySlot b t \<noteq> -1} \<subseteq> {..<n} - {t}" using assms unfolding slots_ok_def by auto
  then have "card {t. mySlot b t \<noteq> -1} \<le> card ({..<n} - {t})" by (rule card_mono [rotated]) simp
  with assms show ?thesis unfolding slots_ok_def by simp
qed

lemma take_slot_ok:
  assumes ok: "slots_ok n b" and t: "t < n"
  shows "slots_ok n (take_slot t b)"
    and "0 \<le> mySlot (take_slot t b) t" and "nat (mySlot (take_slot t b) t) < n"
proof -
  have fin: "finite {t. mySlot b t \<noteq> -1}"
    by (rule finite_subset [of _ "{..<n}"]) (use ok in \<open>auto simp: slots_ok_def\<close>)
  have le: "nextSlot b \<le> n"
  proof -
    have "card {t. mySlot b t \<noteq> -1} \<le> card {..<n}"
      by (rule card_mono) (use ok in \<open>auto simp: slots_ok_def\<close>)
    with ok show ?thesis by (simp add: slots_ok_def)
  qed
  show "slots_ok n (take_slot t b)"
  proof (cases "mySlot b t = -1")
    case True
    then have e: "{u. u \<noteq> t \<longrightarrow> mySlot b u \<noteq> -1} = insert t {u. mySlot b u \<noteq> -1}" by auto
    from True fin have "card {u. u \<noteq> t \<longrightarrow> mySlot b u \<noteq> -1} = Suc (card {u. mySlot b u \<noteq> -1})"
      unfolding e by simp
    with True ok t show ?thesis
      by (auto simp: slots_ok_def take_slot_def less_Suc_eq)
  qed (use ok in \<open>simp add: take_slot_def\<close>)
  show "0 \<le> mySlot (take_slot t b) t" "nat (mySlot (take_slot t b) t) < n"
    using ok slots_ok_next [OF ok t] le by (auto simp: slots_ok_def take_slot_def)
qed

text \<open>No two workers have the same slot.\<close>

definition slots_apart :: "bench \<Rightarrow> bool" where
  "slots_apart b \<longleftrightarrow> (\<forall>t u. mySlot b t = mySlot b u \<longrightarrow> mySlot b t \<noteq> -1 \<longrightarrow> t = u)"

lemma take_slot_apart:
  assumes ok: "slots_ok n b" and ap: "slots_apart b"
  shows "slots_apart (take_slot t b)"
proof (cases "mySlot b t = -1")
  case True
  have lt: "mySlot b u \<noteq> int (nextSlot b)" if "mySlot b u \<noteq> -1" for u using ok that by (auto simp: slots_ok_def)
  have "v = u" if "((mySlot b)(t := int (nextSlot b))) v = ((mySlot b)(t := int (nextSlot b))) u"
    "((mySlot b)(t := int (nextSlot b))) v \<noteq> -1" for u v
  proof (cases "v = t \<or> u = t")
    case True
    with that lt [of u] lt [of v] show ?thesis by (cases "v = t"; cases "u = t") auto
  next
    case False
    with that have "mySlot b v = mySlot b u" "mySlot b v \<noteq> -1" by simp_all
    then show ?thesis using ap unfolding slots_apart_def by blast
  qed
  note inj = this
  have m: "mySlot (take_slot t b) = (mySlot b)(t := int (nextSlot b))" using True by (simp add: take_slot_def)
  show ?thesis unfolding slots_apart_def m using inj by blast
qed (use ap in \<open>simp add: take_slot_def\<close>)

lemma mset_concat_update:
  assumes "k < length xss"
  shows "mset (concat (xss[k := xss ! k @ [x]])) = mset (concat xss) + {#x#}"
  using sum_list_map_update [OF assms, of mset "xss ! k @ [x]"]
  by (simp add: mset_concat)

text \<open>
  The per-thread latency buffers are safe and complete: whatever worker of a pool of \<open>n\<close> runs
  each job, no access is out of the range of the \<open>n\<close> buffers, and together the buffers hold exactly
  the latencies of all jobs.
\<close>

lemma latency_slots:
  assumes "\<forall>(t, l) \<in> set js. t < n"
  shows "\<exists>b. bench_run js (bench_start n) = Some b \<and> mset (concat (buffers b)) = mset (map snd js)"
proof -
  have "\<exists>b'. bench_run js b = Some b' \<and> mset (concat (buffers b')) = mset (concat (buffers b)) + mset (map snd js)"
    if "slots_ok n b" for b
    using that assms
  proof (induction js arbitrary: b)
    case (Cons j js)
    obtain t l where j: "j = (t, l)" by (cases j)
    with Cons.prems have t: "t < n" by simp
    note T = take_slot_ok [OF Cons.prems(1) t]
    define k where "k = nat (mySlot (take_slot t b) t)"
    define b' where "b' = (take_slot t b)\<lparr>buffers := (buffers (take_slot t b))[k := buffers (take_slot t b) ! k @ [l]]\<rparr>"
    have same: "buffers (take_slot t b) = buffers b" by (simp add: take_slot_def)
    have k: "k < length (buffers (take_slot t b))" using T by (simp add: k_def slots_ok_def)
    have "bench_job j b = Some b'" using T k by (simp add: bench_job_def push_latency_def j b'_def k_def Let_def)
    moreover have "slots_ok n b'" using T(1) by (simp add: b'_def slots_ok_buffers)
    moreover have "mset (concat (buffers b')) = mset (concat (buffers b)) + {#l#}"
      using mset_concat_update [OF k, of l] by (simp add: b'_def same)
    ultimately show ?case using Cons.IH [of b'] Cons.prems(2) j by auto
  qed simp
  moreover have "slots_ok n (bench_start n)" by (simp add: slots_ok_def bench_start_def)
  moreover have "mset (concat (buffers (bench_start n))) = {#}" by (simp add: bench_start_def)
  ultimately show ?thesis by fastforce
qed

text \<open>
  A latency is never NaN and never a negative zero, so the order of a sorted list of latencies is
  determined.
\<close>

lemma latency_clean: "latency enq now \<noteq> NaN \<and> latency enq now \<noteq> Fin True 0"
proof -
  define z where "z = now - enq"
  define k where "k = rnd53 (nat \<bar>z\<bar> * one_units) 1"
  have d: "double_of_int z = (if k < max_units then Fin (z < 0) k else Inf (z < 0))"
    by (simp add: double_of_int_def mk_double_def k_def Let_def)
  have t: "double_of_nat 1000 = Fin False (1000 * one_units)" by (simp add: double_of_nat_whole)
  have l: "latency enq now = ddiv (if k < max_units then Fin (z < 0) k else Inf (z < 0)) (Fin False (1000 * one_units))"
    unfolding latency_def z_def [symmetric] d t ..
  show ?thesis
  proof (cases "z = 0")
    case True
    then have "k = 0" by (simp add: k_def)
    with True show ?thesis unfolding l by (simp add: mk_double_def Let_def)
  next
    case False
    have "rep53 one_units" using rep53_whole [of 1] by simp
    moreover have "one_units \<le> nat \<bar>z\<bar> * one_units" using False by simp
    ultimately have "one_units \<le> k" unfolding k_def by (rule r53.rnd_ge_bound)
    moreover have "1000 \<le> one_units" by (simp add: one_units_def)
    ultimately have "1000 \<le> k" by (rule order_trans [rotated])
    then have "0 < rnd53 (k * one_units) (1000 * one_units)" by (intro rnd53_pos) simp_all
    then show ?thesis unfolding l by (simp add: mk_double_def Let_def)
  qed
qed

section \<open>Two phases on one pool\<close>

text \<open>
  burstTest: the jobs of both phases run on the same workers, in any order, but each phase has
  its own buffers, its own counter and its own thread-local slot.  A job is of the steady phase
  or of the burst.
\<close>

fun burst_run :: "(bool \<times> nat \<times> double) list \<Rightarrow> bench \<times> bench \<Rightarrow> (bench \<times> bench) option" where
  "burst_run [] sb = Some sb"
| "burst_run ((steady, j) # js) (s, b) =
     (if steady then Option.bind (bench_job j s) (\<lambda>s'. burst_run js (s', b))
      else Option.bind (bench_job j b) (\<lambda>b'. burst_run js (s, b')))"

text \<open>hardware\_concurrency may be 0.\<close>

definition hw_threads :: "nat \<Rightarrow> nat" where
  "hw_threads hw = (if hw = 0 then 4 else hw)"

text \<open>The statistics runBenchmark and burstTest print.\<close>

definition runBenchmark :: "nat \<Rightarrow> (nat \<times> double) list \<Rightarrow> latency_stats option" where
  "runBenchmark numThreads js =
     map_option (\<lambda>b. computeLatencyStats (concat (buffers b))) (bench_run js (bench_start numThreads))"

definition burstTest :: "nat \<Rightarrow> (bool \<times> nat \<times> double) list \<Rightarrow> (latency_stats \<times> latency_stats) option" where
  "burstTest hw js =
     map_option (\<lambda>(s, b). (computeLatencyStats (concat (buffers s)), computeLatencyStats (concat (buffers b))))
       (burst_run js (bench_start (hw_threads hw), bench_start (hw_threads hw)))"

definition phase :: "bool \<Rightarrow> (bool \<times> nat \<times> double) list \<Rightarrow> (nat \<times> double) list" where
  "phase p js = map snd (filter (\<lambda>j. fst j = p) js)"

text \<open>The phases do not touch each other's buffers.\<close>

lemma burst_run_phases:
  "burst_run js (s, b) =
     Option.bind (bench_run (phase True js) s)
       (\<lambda>s'. Option.bind (bench_run (phase False js) b) (\<lambda>b'. Some (s', b')))"
proof (induction js arbitrary: s b)
  case (Cons pj js)
  obtain p j where pj: "pj = (p, j)" by (cases pj)
  show ?case
  proof (cases p)
    case True
    then show ?thesis using Cons by (cases "bench_job j s") (simp_all add: pj phase_def)
  next
    case False
    then show ?thesis using Cons
      by (cases "bench_job j b"; cases "bench_run (phase True js) s") (simp_all add: pj phase_def)
  qed
qed (simp add: phase_def)

section \<open>The statistics do not depend on the schedule\<close>

lemma dle_antisym: "dle x y \<Longrightarrow> dle y x \<Longrightarrow> x \<noteq> Fin True 0 \<Longrightarrow> y \<noteq> Fin True 0 \<Longrightarrow> x = y"
  by (cases x; cases y) (auto split: if_splits)

lemma sorted_doubles_unique:
  assumes "sorted_wrt dle xs" and "sorted_wrt dle ys" and "mset xs = mset ys"
    and "NaN \<notin> set xs" and "Fin True 0 \<notin> set xs"
  shows "xs = ys"
  using assms
proof (induction xs arbitrary: ys)
  case (Cons x xs)
  then obtain y ys' where ys: "ys = y # ys'" by (cases ys) auto
  have set: "set (x # xs) = set (y # ys')" using Cons.prems(3) ys mset_eq_setD by metis
  have "dle x y" "dle y x"
    using Cons.prems(1,2,4) set ys dle_refl [of x] by auto
  moreover have "y \<noteq> Fin True 0" "x \<noteq> Fin True 0" using Cons.prems(5) set by auto
  ultimately have "x = y" using dle_antisym by blast
  with Cons.IH [of ys'] Cons.prems ys show ?case by simp
qed simp

lemma stats_perm:
  assumes "mset xs = mset ys" and "NaN \<notin> set ys" and "Fin True 0 \<notin> set ys"
  shows "computeLatencyStats xs = computeLatencyStats ys"
proof -
  have set: "set xs = set ys" by (rule mset_eq_setD [OF assms(1)])
  have "sort_doubles xs = sort_doubles ys"
    by (rule sorted_doubles_unique)
      (use assms set in \<open>simp_all add: sort_doubles_sorted sort_doubles_mset sort_doubles_set\<close>)
  moreover have "xs = [] \<longleftrightarrow> ys = []" using set by auto
  ultimately show ?thesis by (simp add: computeLatencyStats_def)
qed

lemma runBenchmark_eq:
  assumes "\<forall>(t, l) \<in> set js. t < n \<and> l \<noteq> NaN \<and> l \<noteq> Fin True 0"
  shows "runBenchmark n js = Some (computeLatencyStats (map snd js))"
proof -
  obtain b where "bench_run js (bench_start n) = Some b" "mset (concat (buffers b)) = mset (map snd js)"
    using latency_slots [of js n] assms by fastforce
  moreover have "NaN \<notin> set (map snd js)" "Fin True 0 \<notin> set (map snd js)" using assms by auto
  ultimately show ?thesis using stats_perm by (simp add: runBenchmark_def)
qed

text \<open>
  The statistics the benchmarks print are those of all their orders, whichever worker ran
  which job and in whatever order: per-thread buffering loses nothing and does not change a
  percentile, and in the burst test, where both phases share the workers, neither phase sees a
  latency of the other nor leaves its buffers.
\<close>

lemma benchmark_stats:
  assumes "\<forall>(p, t, l) \<in> set js. t < hw_threads hw \<and> l \<noteq> NaN \<and> l \<noteq> Fin True 0"
  shows "runBenchmark (hw_threads hw) (map snd js) = Some (computeLatencyStats (map (snd \<circ> snd) js)) \<and>
    burstTest hw js =
      Some (computeLatencyStats (map snd (phase True js)), computeLatencyStats (map snd (phase False js)))"
proof -
  let ?n = "hw_threads hw"
  have p: "\<forall>(t, l) \<in> set (phase q js). t < ?n \<and> l \<noteq> NaN \<and> l \<noteq> Fin True 0" for q
    using assms by (fastforce simp: phase_def)
  have "\<forall>(t, l) \<in> set (map snd js). t < ?n \<and> l \<noteq> NaN \<and> l \<noteq> Fin True 0" using assms by fastforce
  from runBenchmark_eq [OF this] runBenchmark_eq [OF p, of True] runBenchmark_eq [OF p, of False]
  show ?thesis by (auto simp: runBenchmark_def burstTest_def burst_run_phases)
qed

lemma benchmark_stats_witness:
  "burstTest 0 [(True, 3, double_of_nat 5), (False, 3, double_of_nat 2), (True, 0, double_of_nat 1)] =
     Some (computeLatencyStats [double_of_nat 5, double_of_nat 1], computeLatencyStats [double_of_nat 2])"
  using benchmark_stats [of "[(True, 3, double_of_nat 5), (False, 3, double_of_nat 2), (True, 0, double_of_nat 1)]" 0]
  by (simp add: hw_threads_def phase_def double_of_nat_whole)

end
