(* ===== verification/BenchPool.thy ===== *)
theory BenchPool
  imports PooledRun Bench
begin

text \<open>
  runBenchmark and burstTest of src/main.cpp on the real pool: the jobs claim a slot, validate
  their order and record the latency, step by step, on the workers of theory ThreadPool.
\<close>

section \<open>The jobs of the benchmarks\<close>

text \<open>
  A job that was begun carries the worker that runs it.  \<open>slots\<close> has, for each of the lambdas of
  a benchmark, its buffers, its counter and its thread-local slots; \<open>ph x\<close> is the lambda of job
  \<open>x\<close>.  \<open>broken\<close>: an access was out of the range of a vector.
\<close>

datatype bjob = BTodo order | BSlotted nat order | BValidated nat validation_result | BRecorded validation_result

record bench_engine =
  bst :: account_store
  slots :: "nat \<Rightarrow> bench"
  bjobs :: "bjob list"
  broken :: bool

inductive bench_at :: "(nat \<Rightarrow> nat) \<Rightarrow> nat \<Rightarrow> nat \<Rightarrow> bench_engine \<Rightarrow> bench_engine \<Rightarrow> bool" for ph w x where
  claims: "x < length (bjobs e) \<Longrightarrow> bjobs e ! x = BTodo ord \<Longrightarrow>
     bench_at ph w x e
       (e\<lparr>slots := (slots e)(ph x := take_slot w (slots e (ph x))), bjobs := (bjobs e)[x := BSlotted w ord]\<rparr>)"
| validates: "x < length (bjobs e) \<Longrightarrow> bjobs e ! x = BSlotted w ord \<Longrightarrow> validate (bst e) ord now = (st', r) \<Longrightarrow>
     bench_at ph w x e (e\<lparr>bst := st', bjobs := (bjobs e)[x := BValidated w r]\<rparr>)"
| records: "x < length (bjobs e) \<Longrightarrow> bjobs e ! x = BValidated w r \<Longrightarrow>
     push_latency w (latencyMicros r) (slots e (ph x)) = Some b \<Longrightarrow>
     bench_at ph w x e (e\<lparr>slots := (slots e)(ph x := b), bjobs := (bjobs e)[x := BRecorded r]\<rparr>)"
| breaks: "x < length (bjobs e) \<Longrightarrow> bjobs e ! x = BValidated w r \<Longrightarrow>
     push_latency w (latencyMicros r) (slots e (ph x)) = None \<Longrightarrow>
     bench_at ph w x e (e\<lparr>broken := True, bjobs := (bjobs e)[x := BRecorded r]\<rparr>)"

definition bench_engine_start :: "nat \<Rightarrow> account_store \<Rightarrow> order list \<Rightarrow> bench_engine" where
  "bench_engine_start numThreads st orders =
     \<lparr>bst = st, slots = (\<lambda>_. bench_start numThreads), bjobs = map BTodo orders, broken = False\<rparr>"

fun is_recorded :: "bjob \<Rightarrow> bool" where
  "is_recorded (BRecorded r) = True" | "is_recorded _ = False"

definition bench_returned :: "nat \<Rightarrow> bench_engine \<Rightarrow> bool" where
  "bench_returned x e \<longleftrightarrow> x < length (bjobs e) \<and> is_recorded (bjobs e ! x)"

fun run_by :: "nat \<Rightarrow> bjob \<Rightarrow> bool" where
  "run_by w (BSlotted v ord) = (v = w)" | "run_by w (BValidated v r) = (v = w)" | "run_by w _ = True"

definition bench_mine :: "nat \<Rightarrow> nat \<Rightarrow> bench_engine \<Rightarrow> bool" where
  "bench_mine w x e \<longleftrightarrow> x < length (bjobs e) \<longrightarrow> run_by w (bjobs e ! x)"

lemma bench_at_length: "bench_at ph w x e e' \<Longrightarrow> length (bjobs e') = length (bjobs e)"
  by (auto elim!: bench_at.cases)

lemma bench_at_other: "bench_at ph w x e e' \<Longrightarrow> y \<noteq> x \<Longrightarrow> bjobs e' ! y = bjobs e ! y"
  by (auto elim!: bench_at.cases)

interpretation bj: pool_jobs N "bench_at ph" bench_returned "\<lambda>e. length (bjobs e) = N" bench_mine for N ph
proof
  fix w v x y e e'
  show "length (bjobs e') = N" if "bench_at ph w y e e'" "length (bjobs e) = N"
    using that bench_at_length by simp
  show "bench_returned x e'" if st: "bench_at ph w y e e'" and r: "bench_returned x e"
  proof (cases "x = y")
    case True
    with st r show ?thesis by cases (simp_all add: bench_returned_def)
  qed (use bench_at_other [OF st] bench_at_length [OF st] r in \<open>simp add: bench_returned_def\<close>)
  show "bench_mine w x e'" if "bench_at ph w x e e'" "bench_mine w x e"
    using that by cases (simp_all add: bench_mine_def)
  show "bench_mine v x e'" if "bench_at ph w y e e'" "x \<noteq> y" "bench_mine v x e"
    using that bench_at_other bench_at_length by (simp add: bench_mine_def)
  show "\<exists>e'. bench_at ph w x e e'" if x: "x < N" "length (bjobs e) = N" and m: "bench_mine w x e" and n: "\<not> bench_returned x e"
  proof (cases "bjobs e ! x")
    case (BTodo ord)
    with bench_at.claims [of x e ord ph w] x show ?thesis by blast
  next
    case (BSlotted u ord)
    with m x have "bjobs e ! x = BSlotted w ord" by (simp add: bench_mine_def)
    with bench_at.validates [of x e w ord 0 _ _ ph] x show ?thesis by (metis prod.exhaust)
  next
    case (BValidated u r)
    with m x have "bjobs e ! x = BValidated w r" by (simp add: bench_mine_def)
    with bench_at.records [of x e w r ph] bench_at.breaks [of x e w r ph] x show ?thesis
      by (cases "push_latency w (latencyMicros r) (slots e (ph x))") blast+
  qed (use x n in \<open>simp add: bench_returned_def\<close>)
qed

section \<open>The invariant\<close>

fun recorded :: "bjob \<Rightarrow> double multiset" where
  "recorded (BRecorded r) = {#latencyMicros r#}" | "recorded _ = {#}"

fun owner :: "bjob \<Rightarrow> nat option" where
  "owner (BSlotted w ord) = Some w" | "owner (BValidated w r) = Some w" | "owner _ = None"

fun job_of :: "order \<Rightarrow> bjob \<Rightarrow> bool" where
  "job_of ord (BTodo q) = (q = ord)"
| "job_of ord (BSlotted w q) = (q = ord)"
| "job_of ord (BValidated w r) = (\<exists>st now. r = snd (validate st ord now))"
| "job_of ord (BRecorded r) = (\<exists>st now. r = snd (validate st ord now))"

definition phase_latencies :: "(nat \<Rightarrow> nat) \<Rightarrow> nat \<Rightarrow> bjob list \<Rightarrow> double multiset" where
  "phase_latencies ph k js = (\<Sum>x \<in> {x. x < length js \<and> ph x = k}. recorded (js ! x))"

definition bench_inv :: "nat \<Rightarrow> (nat \<Rightarrow> nat) \<Rightarrow> order list \<Rightarrow> bench_engine \<Rightarrow> bool" where
  "bench_inv n ph orders e \<longleftrightarrow> \<not> broken e \<and> length (bjobs e) = length orders \<and>
     (\<forall>k. slots_ok n (slots e k) \<and> slots_apart (slots e k) \<and>
        mset (concat (buffers (slots e k))) = phase_latencies ph k (bjobs e)) \<and>
     (\<forall>x < length orders. job_of (orders ! x) (bjobs e ! x) \<and>
        (\<forall>w. owner (bjobs e ! x) = Some w \<longrightarrow> w < n \<and> mySlot (slots e (ph x)) w \<noteq> -1))"

lemma phase_update:
  assumes "x < length js"
  shows "phase_latencies ph k (js[x := j]) + (if ph x = k then recorded (js ! x) else {#}) =
    phase_latencies ph k js + (if ph x = k then recorded j else {#})"
proof (cases "ph x = k")
  case True
  let ?A = "{x. x < length js \<and> ph x = k}"
  have x: "x \<in> ?A" "finite ?A" using assms True by auto
  have "(\<Sum>y \<in> ?A - {x}. recorded (js[x := j] ! y)) = (\<Sum>y \<in> ?A - {x}. recorded (js ! y))"
    by (rule sum.cong) auto
  with True assms sum.remove [OF x(2,1), of "\<lambda>y. recorded (js[x := j] ! y)"] sum.remove [OF x(2,1), of "\<lambda>y. recorded (js ! y)"]
  show ?thesis by (simp add: phase_latencies_def)
next
  case False
  have "(\<Sum>y \<in> {y. y < length js \<and> ph y = k}. recorded (js[x := j] ! y)) = (\<Sum>y \<in> {y. y < length js \<and> ph y = k}. recorded (js ! y))"
    by (rule sum.cong) (use False assms in \<open>auto simp: nth_list_update\<close>)
  with False show ?thesis by (simp add: phase_latencies_def)
qed

lemma take_slot_frame:
  "buffers (take_slot w b) = buffers b" "mySlot b v \<noteq> -1 \<Longrightarrow> mySlot (take_slot w b) v \<noteq> -1"
  by (auto simp: take_slot_def)

lemma push_latency_ok:
  assumes ok: "slots_ok n b" and m: "mySlot b w \<noteq> -1" "w < n"
  obtains b' where "push_latency w l b = Some b'" "slots_ok n b'" "mySlot b' = mySlot b"
    "mset (concat (buffers b')) = mset (concat (buffers b)) + {#l#}"
proof -
  have t: "take_slot w b = b" using m(1) by (simp add: take_slot_def)
  define k where "k = nat (mySlot b w)"
  have k: "0 \<le> mySlot b w" "k < length (buffers b)"
    using take_slot_ok [OF ok m(2)] ok unfolding t k_def by (simp_all add: slots_ok_def)
  define b' where "b' = b\<lparr>buffers := (buffers b)[k := buffers b ! k @ [l]]\<rparr>"
  have "push_latency w l b = Some b'" using k by (simp add: push_latency_def b'_def k_def Let_def)
  moreover have "slots_ok n b'" using ok by (simp add: b'_def slots_ok_buffers)
  moreover have "mset (concat (buffers b')) = mset (concat (buffers b)) + {#l#}"
    using mset_concat_update [OF k(2)] by (simp add: b'_def)
  ultimately show ?thesis using that by (simp add: b'_def)
qed

text \<open>A job of the lambda \<open>ph x\<close> moves on: what the invariant needs of the new buffers and the new state of the job.\<close>

lemma bench_inv_update:
  assumes inv: "bench_inv n ph orders e" and x: "x < length (bjobs e)"
    and b: "slots_ok n b" "slots_apart b" "\<And>v. mySlot (slots e (ph x)) v \<noteq> -1 \<Longrightarrow> mySlot b v \<noteq> -1"
    and l: "mset (concat (buffers b)) + recorded (bjobs e ! x) = mset (concat (buffers (slots e (ph x)))) + recorded j"
    and j: "job_of (orders ! x) j" "\<And>w. owner j = Some w \<Longrightarrow> w < n \<and> mySlot b w \<noteq> -1"
    and e': "slots e' = (slots e)(ph x := b)" "bjobs e' = (bjobs e)[x := j]" "broken e' = broken e"
  shows "bench_inv n ph orders e'"
proof -
  have I: "\<not> broken e" "length (bjobs e) = length orders"
    and S: "slots_ok n (slots e k)" "slots_apart (slots e k)" "mset (concat (buffers (slots e k))) = phase_latencies ph k (bjobs e)"
    and J: "y < length orders \<Longrightarrow> job_of (orders ! y) (bjobs e ! y) \<and>
        (\<forall>w. owner (bjobs e ! y) = Some w \<longrightarrow> w < n \<and> mySlot (slots e (ph y)) w \<noteq> -1)" for k y
    using inv unfolding bench_inv_def by blast+
  have "mset (concat (buffers (slots e' k))) = phase_latencies ph k (bjobs e')" for k
  proof (cases "ph x = k")
    case True
    have "mset (concat (buffers b)) + recorded (bjobs e ! x) = phase_latencies ph k (bjobs e') + recorded (bjobs e ! x)"
      using l S(3) [of k] phase_update [OF x, of ph k j] True e' by simp
    then show ?thesis using True e' by simp
  next
    case False
    then show ?thesis using S(3) [of k] phase_update [OF x, of ph k j] e' by simp
  qed
  moreover have "slots_ok n (slots e' k) \<and> slots_apart (slots e' k)" for k using S b e'(1) by simp
  moreover have "job_of (orders ! y) (bjobs e' ! y) \<and>
      (\<forall>w. owner (bjobs e' ! y) = Some w \<longrightarrow> w < n \<and> mySlot (slots e' (ph y)) w \<noteq> -1)" if y: "y < length orders" for y
  proof (cases "y = x")
    case True
    then show ?thesis using j x e' by simp
  next
    case False
    then show ?thesis using J [OF y] b(3) e' by (cases "ph y = ph x") auto
  qed
  ultimately show ?thesis using I e' unfolding bench_inv_def by simp
qed

lemma bench_step:
  assumes inv: "bench_inv n ph orders e" and st: "bench_at ph w x e e'" and w: "w < n"
  shows "bench_inv n ph orders e'"
proof -
  have N: "length (bjobs e) = length orders" and S: "slots_ok n (slots e (ph x))" "slots_apart (slots e (ph x))"
    and J: "x < length orders \<Longrightarrow> job_of (orders ! x) (bjobs e ! x)"
      "x < length orders \<Longrightarrow> owner (bjobs e ! x) = Some v \<Longrightarrow> mySlot (slots e (ph x)) v \<noteq> -1" for v
    using inv unfolding bench_inv_def by blast+
  note U = bench_inv_update [OF inv]
  from st show ?thesis
  proof cases
    case (claims ord)
    have "mySlot (take_slot w (slots e (ph x))) w \<noteq> -1" using take_slot_ok(2) [OF S(1) w] by simp
    with claims take_slot_ok(1) [OF S(1) w] take_slot_apart [OF S] take_slot_frame J(1) N w show ?thesis
      by (intro U [of x "take_slot w (slots e (ph x))" "BSlotted w ord"]) auto
  next
    case (validates ord now st' r)
    then have "job_of (orders ! x) (BValidated w r)" using J(1) N by (auto intro: exI [of _ "bst e"] exI [of _ now]) (metis snd_conv)
    with validates S J(2) N w show ?thesis by (intro U [of x "slots e (ph x)" "BValidated w r"]) auto
  next
    case (records r b)
    then have m: "mySlot (slots e (ph x)) w \<noteq> -1" using J(2) N by simp
    obtain b' where b': "push_latency w (latencyMicros r) (slots e (ph x)) = Some b'" "slots_ok n b'"
        "mySlot b' = mySlot (slots e (ph x))" "mset (concat (buffers b')) = mset (concat (buffers (slots e (ph x)))) + {#latencyMicros r#}"
      by (rule push_latency_ok [OF S(1) m w])
    have "b' = b" using b'(1) records(4) by simp
    with b' records J(1) N S(2) show ?thesis by (intro U [of x b "BRecorded r"]) (auto simp: slots_apart_def)
  next
    case (breaks r)
    then have m: "mySlot (slots e (ph x)) w \<noteq> -1" using J(2) N by simp
    from push_latency_ok [OF S(1) m w, of "latencyMicros r"] breaks(4) show ?thesis by (metis option.distinct(1))
  qed
qed

section \<open>The benchmarks\<close>

text \<open>
  The states of a benchmark that submits \<open>orders\<close>, of which the first \<open>m\<close> run the first lambda and the
  others the second: runBenchmark has one lambda (\<open>m = length orders\<close>), burstTest submits the
  steady orders and then the burst.
\<close>

definition lambda_of :: "nat \<Rightarrow> nat \<Rightarrow> nat" where
  "lambda_of m x = (if x < m then 0 else 1)"

definition bench_pool_run :: "u64 \<Rightarrow> nat \<Rightarrow> nat \<Rightarrow> nat \<Rightarrow> account_store \<Rightarrow> order list \<Rightarrow> bench_engine pooled \<Rightarrow> bool" where
  "bench_pool_run cap hw numThreads m st orders s \<longleftrightarrow>
     (\<exists>p. new_pool cap hw numThreads 1 1 = Some p \<and>
        (pooled_step (length orders) (bench_at (lambda_of m)) bench_returned)\<^sup>*\<^sup>*
          (pooled_start p (bench_engine_start numThreads st orders)) s)"

text \<open>The latencies a benchmark gathers from the buffers of one of its lambdas.\<close>

definition gathered :: "nat \<Rightarrow> bench_engine pooled \<Rightarrow> double list" where
  "gathered k s = concat (buffers (slots (shared s) k))"

lemma bench_start_inv: "bench_inv n ph orders (bench_engine_start n st orders)"
proof -
  have "phase_latencies ph k (map BTodo orders) = {#}" for k by (simp add: phase_latencies_def)
  then show ?thesis
    by (simp add: bench_inv_def bench_engine_start_def slots_ok_def slots_apart_def bench_start_def)
qed

lemma bench_run_facts:
  assumes "bench_pool_run cap hw n m st orders s" and "0 < n"
  shows "pooled_inv (length orders) bench_returned (\<lambda>e. length (bjobs e) = length orders) bench_mine s"
    and "bench_inv n (lambda_of m) orders (shared s)"
proof -
  let ?N = "length orders" and ?e = "bench_engine_start n st orders"
  obtain p where p: "new_pool cap hw n 1 1 = Some p"
      "(pooled_step ?N (bench_at (lambda_of m)) bench_returned)\<^sup>*\<^sup>* (pooled_start p ?e) s"
    using assms(1) unfolding bench_pool_run_def by blast
  have "pooled_inv ?N bench_returned (\<lambda>e. length (bjobs e) = ?N) bench_mine (pooled_start p ?e)"
    by (rule bj.pooled_inv_start [OF p(1)]) (simp_all add: bench_engine_start_def bench_mine_def)
  note R = bj.job_run [OF p(2) this]
  show "pooled_inv ?N bench_returned (\<lambda>e. length (bjobs e) = ?N) bench_mine s" using R by blast
  have "length (workers p) = n" using p(1) assms(2) by (auto simp: new_pool_def)
  then have "(\<lambda>e e'. \<exists>w x. w < n \<and> x < ?N \<and> bench_mine w x e \<and> bench_at (lambda_of m) w x e e')\<^sup>*\<^sup>* ?e (shared s)"
    using R by (simp add: pooled_start_def)
  then show "bench_inv n (lambda_of m) orders (shared s)"
    by (induction rule: rtranclp_induct) (auto intro: bench_start_inv bench_step)
qed

lemma mset_nth: "mset (map f xs) = (\<Sum>x < length xs. {#f (xs ! x)#})"
  by (induction xs rule: rev_induct) (simp_all add: nth_append)

lemma phase_take_drop:
  assumes "length js = length rs" and "\<And>x. x < length rs \<Longrightarrow> js ! x = BRecorded (rs ! x)"
  shows "phase_latencies (lambda_of m) 0 js = mset (map latencyMicros (take m rs))"
    and "phase_latencies (lambda_of m) 1 js = mset (map latencyMicros (drop m rs))"
proof -
  let ?f = "\<lambda>x. {#latencyMicros (rs ! x)#}"
  have ph: "phase_latencies (lambda_of m) k js = (\<Sum>x \<in> {x. x < length rs \<and> lambda_of m x = k}. ?f x)" for k
    unfolding phase_latencies_def by (rule sum.cong) (use assms in auto)
  have A: "{x. x < length rs \<and> lambda_of m x = 0} = {..<min (length rs) m}" by (auto simp: lambda_of_def)
  show t: "phase_latencies (lambda_of m) 0 js = mset (map latencyMicros (take m rs))"
    unfolding ph A mset_nth by simp
  have "(\<Sum>x \<in> {x. x < length rs \<and> lambda_of m x = 0}. ?f x) + (\<Sum>x \<in> {x. x < length rs \<and> lambda_of m x = 1}. ?f x) =
      (\<Sum>x \<in> {x. x < length rs \<and> lambda_of m x = 0} \<union> {x. x < length rs \<and> lambda_of m x = 1}. ?f x)"
    by (rule sum.union_disjoint [symmetric]) auto
  also have "{x. x < length rs \<and> lambda_of m x = 0} \<union> {x. x < length rs \<and> lambda_of m x = 1} = {..<length rs}"
    by (auto simp: lambda_of_def)
  also have "(\<Sum>x < length rs. ?f x) = mset (map latencyMicros (take m rs @ drop m rs))"
    unfolding append_take_drop_id mset_nth ..
  finally have "phase_latencies (lambda_of m) 0 js + phase_latencies (lambda_of m) 1 js =
      mset (map latencyMicros (take m rs)) + mset (map latencyMicros (drop m rs))"
    unfolding ph map_append mset_append .
  with t show "phase_latencies (lambda_of m) 1 js = mset (map latencyMicros (drop m rs))" by (metis add_left_cancel)
qed

text \<open>The latencies of validated orders are such that their statistics do not depend on their order.\<close>

lemma validated_clean:
  assumes "\<And>x. x < length rs \<Longrightarrow> \<exists>st ord now. rs ! x = snd (validate st ord now)" and "set ls \<subseteq> latencyMicros ` set rs"
  shows "NaN \<notin> set ls" and "Fin True 0 \<notin> set ls"
proof -
  have "latencyMicros r \<noteq> NaN \<and> latencyMicros r \<noteq> Fin True 0" if "r \<in> set rs" for r
  proof -
    from that assms(1) obtain st ord now where "r = snd (validate st ord now)" by (metis in_set_conv_nth)
    then show ?thesis using latency_clean by (simp add: validate_def split: prod.split)
  qed
  with assms(2) show "NaN \<notin> set ls" "Fin True 0 \<notin> set ls" by (metis imageE subsetD)+
qed

text \<open>When all jobs have returned, the buffers hold one latency for each order of their lambda.\<close>

lemma recorded_results:
  assumes inv: "bench_inv n (lambda_of m) orders e" and r: "\<And>x. x < length orders \<Longrightarrow> bench_returned x e"
  shows "\<exists>rs. bjobs e = map BRecorded rs \<and> length rs = length orders \<and>
    (\<forall>x < length orders. \<exists>st now. rs ! x = snd (validate st (orders ! x) now)) \<and>
    computeLatencyStats (concat (buffers (slots e 0))) = computeLatencyStats (map latencyMicros (take m rs)) \<and>
    computeLatencyStats (concat (buffers (slots e 1))) = computeLatencyStats (map latencyMicros (drop m rs))"
proof -
  have len: "length (bjobs e) = length orders"
    and g: "\<And>k. mset (concat (buffers (slots e k))) = phase_latencies (lambda_of m) k (bjobs e)"
    and j: "\<And>x. x < length orders \<Longrightarrow> job_of (orders ! x) (bjobs e ! x)"
    using inv unfolding bench_inv_def by blast+
  define rs where "rs = map (\<lambda>j. case j of BRecorded r \<Rightarrow> r) (bjobs e)"
  have rec: "bjobs e ! x = BRecorded (rs ! x)" if "x < length orders" for x
    using r [OF that] len that by (cases "bjobs e ! x") (simp_all add: rs_def bench_returned_def)
  have l: "length rs = length orders" by (simp add: rs_def len)
  have ok: "\<exists>st now. rs ! x = snd (validate st (orders ! x) now)" if "x < length orders" for x
    using j [OF that] rec [OF that] by simp
  have PH: "mset (concat (buffers (slots e 0))) = mset (map latencyMicros (take m rs))"
      "mset (concat (buffers (slots e 1))) = mset (map latencyMicros (drop m rs))"
    unfolding g by (rule phase_take_drop; simp add: l len rec)+
  have st: "computeLatencyStats ls = computeLatencyStats ls'" if "mset ls = mset ls'" "set ls' \<subseteq> latencyMicros ` set rs" for ls ls'
  proof (rule stats_perm [OF that(1)])
    have "\<exists>st ord now. rs ! x = snd (validate st ord now)" if "x < length rs" for x using ok [of x] that l by metis
    from validated_clean [OF this that(2)] show "NaN \<notin> set ls'" "Fin True 0 \<notin> set ls'" by blast+
  qed
  show ?thesis
  proof (intro exI conjI)
    show "bjobs e = map BRecorded rs" by (rule nth_equalityI) (simp_all add: l len rec)
    show "\<forall>x < length orders. \<exists>st now. rs ! x = snd (validate st (orders ! x) now)" using ok by blast
    show "computeLatencyStats (concat (buffers (slots e 0))) = computeLatencyStats (map latencyMicros (take m rs))"
      by (rule st [OF PH(1)]) (auto dest: in_set_takeD)
    show "computeLatencyStats (concat (buffers (slots e 1))) = computeLatencyStats (map latencyMicros (drop m rs))"
      by (rule st [OF PH(2)]) (auto dest: in_set_dropD)
  qed (rule l)
qed

lemma bench_results:
  assumes run: "bench_pool_run cap hw n m st orders s" and n: "0 < n"
    and fin: "joined s \<or> at_rest (length orders) (bench_at (lambda_of m)) bench_returned s"
  shows "\<exists>rs. bjobs (shared s) = map BRecorded rs \<and> length rs = length orders \<and>
    (\<forall>x < length orders. \<exists>st now. rs ! x = snd (validate st (orders ! x) now)) \<and>
    computeLatencyStats (gathered 0 s) = computeLatencyStats (map latencyMicros (take m rs)) \<and>
    computeLatencyStats (gathered 1 s) = computeLatencyStats (map latencyMicros (drop m rs))"
proof -
  note F = bench_run_facts [OF run n]
  have "joined s" using fin bj.rests_joined [OF F(1)] by blast
  then have r: "bench_returned x (shared s)" if "x < length orders" for x using bj.all_returned [OF F(1) _ that] by blast
  from recorded_results [OF F(2) r] show ?thesis by (simp add: gathered_def)
qed

text \<open>
  C32. The benchmarks on their pool: with any number of workers and under every interleaving, no
  access to the latency buffers is ever out of range and no two workers write to the same buffer;
  and when shutdown has returned, or no thread can go on, each job has recorded one result of
  validating its order, and the statistics of each lambda are those of the results its jobs have
  recorded, whichever worker ran them.  The program has the queueCapacity 65536; a ring of one cell
  is left out (C39).
\<close>

theorem benchmarks_on_pool:
  assumes "bench_pool_run cap hw n m st orders s" and "0 < n" and "2 \<le> cap"
  shows "\<not> broken (shared s) \<and> (\<forall>k. slots_apart (slots (shared s) k)) \<and>
    (joined s \<or> at_rest (length orders) (bench_at (lambda_of m)) bench_returned s \<longrightarrow>
       (\<exists>rs. bjobs (shared s) = map BRecorded rs \<and> length rs = length orders \<and> (\<forall>x < length orders. \<exists>st now. rs ! x = snd (validate st (orders ! x) now)) \<and>
          computeLatencyStats (gathered 0 s) = computeLatencyStats (map latencyMicros (take m rs)) \<and>
          computeLatencyStats (gathered 1 s) = computeLatencyStats (map latencyMicros (drop m rs))))"
proof -
  have "\<not> broken (shared s) \<and> (\<forall>k. slots_apart (slots (shared s) k))"
    using bench_run_facts(2) [OF assms(1,2)] unfolding bench_inv_def by blast
  with bench_results [OF assms(1,2)] show ?thesis by blast
qed

section \<open>The programs\<close>

text \<open>The runs of runBenchmark, the thread counts of benchmarkSweep, and the runs of burstTest.\<close>

definition benchmark_state :: "u64 \<Rightarrow> nat \<Rightarrow> nat \<Rightarrow> draw list \<Rightarrow> int list \<Rightarrow> bench_engine pooled \<Rightarrow> bool" where
  "benchmark_state cap hw numThreads draws stamps s =
     (let orders = fst (generateIndependent draws 5000000 1)
      in bench_pool_run cap hw numThreads (length orders)
           (seed_accounts empty_store (map accountId orders) (double_of_nat 100000)) (stamp orders stamps) s)"

definition sweep_threads :: "nat \<Rightarrow> nat list" where
  "sweep_threads hw = [1, 2, 4, hw_threads hw]"

definition burst_orders :: "draw list \<Rightarrow> draw list \<Rightarrow> order list \<times> order list" where
  "burst_orders draws1 draws2 =
     (let (steady, next') = generateIndependent draws1 9000000 1;
          (burst, next'') = generateIndependent draws2 9500000 next'
      in (steady, burst))"

definition burst_state :: "u64 \<Rightarrow> nat \<Rightarrow> draw list \<Rightarrow> draw list \<Rightarrow> int list \<Rightarrow> bench_engine pooled \<Rightarrow> bool" where
  "burst_state cap hw draws1 draws2 stamps s =
     (let (steady, burst) = burst_orders draws1 draws2;
          store = seed_accounts (seed_accounts empty_store (map accountId steady) (double_of_nat 100000))
            (map accountId burst) (double_of_nat 100000)
      in bench_pool_run cap hw (hw_threads hw) (length steady) store (stamp (steady @ burst) stamps) s)"

lemma programs_not_broken:
  shows "n \<in> set (sweep_threads hw) \<Longrightarrow> benchmark_state cap hw n draws stamps s \<Longrightarrow> \<not> broken (shared s)"
    and "burst_state cap hw draws1 draws2 stamps s \<Longrightarrow> \<not> broken (shared s)"
proof -
  have hw: "0 < hw_threads hw" by (simp add: hw_threads_def)
  have ok: "\<not> broken (shared s)" if "bench_pool_run cap hw k m st orders s" "0 < k" for k m st orders
    using bench_run_facts(2) [OF that] by (simp add: bench_inv_def)
  show "\<not> broken (shared s)" if "n \<in> set (sweep_threads hw)" "benchmark_state cap hw n draws stamps s"
  proof (rule ok)
    show "0 < n" using that(1) hw by (auto simp: sweep_threads_def)
  qed (use that(2) in \<open>simp add: benchmark_state_def Let_def\<close>)
  show "\<not> broken (shared s)" if "burst_state cap hw draws1 draws2 stamps s"
    by (rule ok [OF _ hw]) (use that in \<open>simp add: burst_state_def Let_def case_prod_unfold\<close>)
qed

text \<open>The two groups of orders of burstTest share neither an account nor an order id.\<close>

lemma generate_from_next: "snd (generate_from start i ds n) = n + of_nat (length ds)"
proof (induction ds arbitrary: i n)
  case (Cons d ds)
  show ?case using Cons.IH [of "Suc i" "n + 1"] by (simp add: Let_def case_prod_unfold add.assoc)
qed simp

lemma burst_orders_distinct:
  assumes g: "burst_orders d1 d2 = (steady, burst)" and l: "length d1 \<le> 500000" "length d2 \<le> 2 ^ 62"
  shows "distinct (map accountId (steady @ burst))" and "distinct (map orderId (steady @ burst))"
proof -
  let ?n = "1 + of_nat (length d1) :: u64"
  have st: "steady = fst (generate_from 9000000 0 d1 1)" "burst = fst (generate_from 9500000 0 d2 ?n)"
    using g generate_from_next [of 9000000 0 d1 1]
    by (auto simp: burst_orders_def generateIndependent_def Let_def split: prod.splits)
  note S = generate_from_nth [of 9000000 0 d1 1] and B = generate_from_nth [of 9500000 0 d2 ?n]
  have a: "map accountId (steady @ burst) = map (\<lambda>k. of_nat k :: u64) (map (\<lambda>k. 9000000 + k) [0..<length d1] @ map (\<lambda>k. 9500000 + k) [0..<length d2])"
    unfolding st by (rule nth_equalityI) (use S B in \<open>auto simp: nth_append\<close>)
  have o: "map orderId (steady @ burst) = map (\<lambda>k. of_nat k :: u64) (map Suc [0..<length d1 + length d2])"
    unfolding st by (rule nth_equalityI) (use S B in \<open>auto simp: nth_append add.assoc simp flip: of_nat_add\<close>)
  have inj: "inj_on (\<lambda>k. of_nat k :: u64) {..<2 ^ 64}"
    using of_nat_u64_inj by (auto intro: inj_onI)
  show "distinct (map accountId (steady @ burst))"
    unfolding a distinct_map [of "\<lambda>k. of_nat k :: u64"]
    by (intro conjI inj_on_subset [OF inj]) (use l in \<open>auto simp: distinct_map inj_on_def\<close>)
  show "distinct (map orderId (steady @ burst))"
    unfolding o distinct_map [of "\<lambda>k. of_nat k :: u64"]
    by (intro conjI inj_on_subset [OF inj]) (use l in \<open>auto simp: distinct_map\<close>)
qed

section \<open>A run\<close>

definition bench_jexec :: "nat \<Rightarrow> nat \<Rightarrow> nat \<Rightarrow> bench_engine \<Rightarrow> bench_engine option" where
  "bench_jexec m w x e =
     (if x < length (bjobs e) then
        case bjobs e ! x of
          BTodo ord \<Rightarrow>
            Some (e\<lparr>slots := (slots e)(lambda_of m x := take_slot w (slots e (lambda_of m x))), bjobs := (bjobs e)[x := BSlotted w ord]\<rparr>)
        | BSlotted v ord \<Rightarrow>
            if v = w then case validate (bst e) ord 0 of (st', r) \<Rightarrow> Some (e\<lparr>bst := st', bjobs := (bjobs e)[x := BValidated w r]\<rparr>)
            else None
        | BValidated v r \<Rightarrow>
            if v = w then
              case push_latency w (latencyMicros r) (slots e (lambda_of m x)) of
                Some b \<Rightarrow> Some (e\<lparr>slots := (slots e)(lambda_of m x := b), bjobs := (bjobs e)[x := BRecorded r]\<rparr>)
              | None \<Rightarrow> Some (e\<lparr>broken := True, bjobs := (bjobs e)[x := BRecorded r]\<rparr>)
            else None
        | BRecorded r \<Rightarrow> None
      else None)"

lemma bench_jexec_at: "bench_jexec m w x e = Some e' \<Longrightarrow> bench_at (lambda_of m) w x e e'"
  unfolding bench_jexec_def
  by (auto split: if_splits bjob.splits prod.splits option.splits intro: bench_at.intros)

text \<open>The steps a job has made, and the worker that runs it.\<close>

fun stage :: "bjob \<Rightarrow> nat \<times> nat" where
  "stage (BTodo ord) = (0, 0)" | "stage (BSlotted w ord) = (1, w)" | "stage (BValidated w r) = (2, w)"
| "stage (BRecorded r) = (3, 0)"

definition stage_jexec :: "nat \<Rightarrow> nat \<Rightarrow> (nat \<times> nat) list \<Rightarrow> (nat \<times> nat) list option" where
  "stage_jexec w x js =
     (if x < length js \<and> fst (js ! x) < 3 \<and> (fst (js ! x) = 0 \<or> snd (js ! x) = w)
      then Some (js[x := (Suc (fst (js ! x)), if fst (js ! x) = 2 then 0 else w)]) else None)"

definition stage_jdone :: "nat \<Rightarrow> (nat \<times> nat) list \<Rightarrow> bool" where
  "stage_jdone x js \<longleftrightarrow> x < length js \<and> fst (js ! x) = 3"

lemma bench_stages:
  "stage_jexec w x (map stage (bjobs e)) = map_option (\<lambda>e. map stage (bjobs e)) (bench_jexec m w x e)"
  "stage_jdone x (map stage (bjobs e)) = bench_returned x e"
proof -
  have u: "map stage ((bjobs e)[x := v]) = (map stage (bjobs e))[x := stage v]" for v
    by (simp add: map_update)
  show "stage_jexec w x (map stage (bjobs e)) = map_option (\<lambda>e. map stage (bjobs e)) (bench_jexec m w x e)"
    by (cases "bjobs e ! x")
      (auto simp: stage_jexec_def bench_jexec_def u numeral_2_eq_2 numeral_3_eq_3 split: prod.split option.split)
  show "stage_jdone x (map stage (bjobs e)) = bench_returned x e"
    by (cases "bjobs e ! x") (auto simp: stage_jdone_def bench_returned_def)
qed

definition bench_demo :: "bench_engine pooled" where
  "bench_demo = fold (pooled_exec 2 (bench_jexec 1) bench_returned) two_jobs_cmds
     (pooled_start two_workers (bench_engine_start 2 empty_store [pair_order 7 1, pair_order 8 2]))"

lemma bench_demo_facts:
  "bench_pool_run 2 2 2 1 empty_store [pair_order 7 1, pair_order 8 2] bench_demo" "joined bench_demo"
proof -
  show "bench_pool_run 2 2 2 1 empty_store [pair_order 7 1, pair_order 8 2] bench_demo"
    unfolding bench_pool_run_def bench_demo_def
  proof (intro exI [of _ two_workers] conjI two_workers_start)
    have two: "length [pair_order 7 1, pair_order 8 2] = 2" by simp
    show "(pooled_step (length [pair_order 7 1, pair_order 8 2]) (bench_at (lambda_of 1)) bench_returned)\<^sup>*\<^sup>*
        (pooled_start two_workers (bench_engine_start 2 empty_store [pair_order 7 1, pair_order 8 2]))
        (fold (pooled_exec 2 (bench_jexec 1) bench_returned) two_jobs_cmds
          (pooled_start two_workers (bench_engine_start 2 empty_store [pair_order 7 1, pair_order 8 2])))"
      unfolding two by (rule pooled_run_steps) (rule bench_jexec_at)
  qed
  let ?f = "\<lambda>e. map stage (bjobs e)"
  have "abs_shared ?f bench_demo = fold (pooled_exec 2 stage_jexec stage_jdone) two_jobs_cmds
      (abs_shared ?f (pooled_start two_workers (bench_engine_start 2 empty_store [pair_order 7 1, pair_order 8 2])))"
    unfolding bench_demo_def by (rule abs_run) (rule bench_stages)+
  also have "\<dots> = fold (pooled_exec 2 stage_jexec stage_jdone) two_jobs_cmds (pooled_start two_workers [(0, 0), (0, 0)])"
    by (simp add: abs_shared_def pooled_start_def bench_engine_start_def)
  finally have "joined (abs_shared ?f bench_demo) =
      joined (fold (pooled_exec 2 stage_jexec stage_jdone) two_jobs_cmds (pooled_start two_workers [(0, 0), (0, 0)]))" by simp
  moreover have "joined (fold (pooled_exec 2 stage_jexec stage_jdone) two_jobs_cmds (pooled_start two_workers [(0, 0), (0, 0)]))"
    by code_simp
  ultimately show "joined bench_demo" by (simp add: joined_def abs_shared_def)
qed

theorem benchmarks_on_pool_witness:
  "\<not> broken (shared bench_demo) \<and> (\<exists>rs :: validation_result list. length rs = 2 \<and>
     bjobs (shared bench_demo) = map BRecorded rs \<and>
     computeLatencyStats (gathered 0 bench_demo) = computeLatencyStats [latencyMicros (rs ! 0)] \<and>
     computeLatencyStats (gathered 1 bench_demo) = computeLatencyStats [latencyMicros (rs ! 1)])"
proof -
  note B = benchmarks_on_pool [OF bench_demo_facts(1) zero_less_numeral order_refl]
  have b: "\<not> broken (shared bench_demo)" using B by simp
  obtain rs :: "validation_result list" where bj: "bjobs (shared bench_demo) = map BRecorded rs" and rs: "length rs = length [pair_order 7 1, pair_order 8 2]"
    "computeLatencyStats (gathered 0 bench_demo) = computeLatencyStats (map latencyMicros (take 1 rs))"
    "computeLatencyStats (gathered 1 bench_demo) = computeLatencyStats (map latencyMicros (drop 1 rs))"
    using mp [OF conjunct2 [OF conjunct2 [OF B]] disjI1 [OF bench_demo_facts(2)]] by blast
  from rs(1) have "length rs = 2" "take 1 rs = [rs ! 0]" "drop 1 rs = [rs ! 1]"
    by (auto simp: length_Suc_conv)
  with rs b bj show ?thesis by (intro conjI exI [of _ rs]) simp_all
qed

end
