(* ===== verification/EngineMutex.thy ===== *)
theory EngineMutex
  imports MutexRun EnginePool BenchPool
begin

text \<open>
  src/main.cpp built with HFT\_MUTEX\_QUEUE: the two correctness tests and the benchmarks on the pool of
  theory MutexPool.  The jobs are those of theories EnginePool and BenchPool.
\<close>

section \<open>The correctness tests\<close>

definition engine_work :: "engine \<Rightarrow> nat" where
  "engine_work e = sum_list (map (\<lambda>j. 2 - steps_made j) (vjobs e))"

interpretation em: finite_jobs N "\<lambda>_. engine_at" engine_returned "\<lambda>e. length (vjobs e) = N" "\<lambda>_ _ _. True" engine_work for N
proof unfold_locales
  show "engine_work e' < engine_work e" if "engine_at x e e'" for x e e'
    using that
  proof cases
    case (run_validate ord now st' r)
    then show ?thesis
      using weight_upd [of x "vjobs e" "\<lambda>j. 2 - steps_made j" "Validated r"] by (simp add: engine_work_def)
  next
    case (run_add r)
    then show ?thesis
      using weight_upd [of x "vjobs e" "\<lambda>j. 2 - steps_made j" "Added r"] by (simp add: engine_work_def)
  qed
qed

definition mengine_run :: "nat \<Rightarrow> nat \<Rightarrow> account_store \<Rightarrow> order list \<Rightarrow> engine mrun \<Rightarrow> bool" where
  "mengine_run cap hw st orders s \<longleftrightarrow>
     (mrun_step (length orders) (\<lambda>_. engine_at) engine_returned)\<^sup>*\<^sup>*
       (mrun_start (new_mpool cap hw 1 1) (engine_start st orders)) s"

lemma mengine_run_facts:
  assumes "mengine_run cap hw st orders s" and "0 < cap"
  shows "mrun_inv (length orders) engine_returned (\<lambda>e. length (vjobs e) = length orders) (\<lambda>_ _ _. True) s"
    and "engine_step\<^sup>*\<^sup>* (engine_start st orders) (mshared s)"
proof -
  let ?N = "length orders" and ?s = "mrun_start (new_mpool cap hw 1 1) (engine_start st orders)"
  have "mrun_inv ?N engine_returned (\<lambda>e. length (vjobs e) = ?N) (\<lambda>_ _ _. True) ?s"
    by (rule em.mrun_inv_start [OF assms(2)]) (simp_all add: engine_start_def)
  note R = em.mjob_run [OF assms(1) [unfolded mengine_run_def] this]
  show "mrun_inv ?N engine_returned (\<lambda>e. length (vjobs e) = ?N) (\<lambda>_ _ _. True) s" using R by blast
  have "(\<lambda>e e'. \<exists>w x. w < length (mworkers (mtp ?s)) \<and> x < ?N \<and> True \<and> engine_at x e e')\<^sup>*\<^sup>* (engine_start st orders) (mshared s)"
    using R by (simp add: mrun_start_def)
  then show "engine_step\<^sup>*\<^sup>* (engine_start st orders) (mshared s)"
    by (rule rtranclp_mono [THEN predicate2D, rotated]) (auto intro: engine_stepI)
qed

lemma mengine_run_done:
  assumes "mengine_run cap hw st orders s" and "0 < cap" and "mjoined s"
  shows "engine_done (mshared s)"
proof -
  note inv = mengine_run_facts(1) [OF assms(1,2)]
  then have "length (vjobs (mshared s)) = length orders" by (simp add: mrun_inv_def)
  with em.mall_returned [OF inv assms(3)] show ?thesis
    by (simp add: engine_done_def engine_returned_def list_all_length)
qed

text \<open>
  C18. The engine program in its mutex build: whatever orders the generator draws, with any number of
  hardware threads and under every interleaving of the main thread, the workers of the two pools
  and the jobs, the destructors of both pools are sure to return, and when they have, both tests
  pass and main returns 0.
\<close>

theorem engine_main_on_mutex_pools:
  assumes "length draws < 2 ^ 64" and "generateIndependent draws accountStart 1 = (orders, next')"
    and "mengine_run cap hw (seed_accounts empty_store (map accountId orders) (double_of_nat 100000)) (stamp orders times1) s"
    and "length times1 = length orders" and "length stamps = length orders" and "length nows = length orders"
    and "generateConflictingPairs pairCount pairStart 1 = (pairs, next'')" and "length times2 = length pairs"
    and "mengine_run cap hw (seed_accounts empty_store (map (\<lambda>i. pairStart + of_nat i) [0..<pairCount]) (double_of_nat 10000))
       (stamp pairs times2) s'"
    and "0 < cap"
  shows "surely_joins (length orders) (\<lambda>_. engine_at) engine_returned s \<and>
    surely_joins (length pairs) (\<lambda>_. engine_at) engine_returned s' \<and>
    (mjoined s \<and> mjoined s' \<longrightarrow>
       engine_main (testCorrectnessVsSequential orders stamps nows (mshared s))
         (testNoDoubleSpend pairCount pairStart (mshared s')) = 0)"
proof -
  have n: "length (stamp orders times1) = length orders" "length (stamp pairs times2) = length pairs"
    using assms(4,8) by (simp_all add: stamp_def)
  note F = mengine_run_facts [OF assms(3,10)] and F' = mengine_run_facts [OF assms(9,10)]
  have "engine_main (testCorrectnessVsSequential orders stamps nows (mshared s))
      (testNoDoubleSpend pairCount pairStart (mshared s')) = 0" if "mjoined s" "mjoined s'"
    using pool_test_passes [OF assms(1,2) F(2) mengine_run_done [OF assms(3,10) that(1)] assms(4-6)]
      pairs_test_passes [OF assms(7,8) F'(2) mengine_run_done [OF assms(9,10) that(2)]]
    by (simp add: engine_main_def)
  with em.mrun_ends(2) [OF F(1)] em.mrun_ends(2) [OF F'(1)] show ?thesis unfolding n by blast
qed

lemma mengine_run_ends:
  assumes "0 < cap"
  shows "\<exists>s. mengine_run cap hw st orders s \<and> mjoined s"
proof -
  let ?s = "mrun_start (new_mpool cap hw 1 1) (engine_start st orders)"
  have "mengine_run cap hw st orders ?s" by (simp add: mengine_run_def)
  from em.mrun_ends(1) [OF mengine_run_facts(1) [OF this assms]] obtain t where
    "(mrun_own (length orders) (\<lambda>_. engine_at) engine_returned)\<^sup>*\<^sup>* ?s t" "mjoined t" by blast
  with em.mrun_own_step show ?thesis unfolding mengine_run_def by blast
qed

definition demo_store :: account_store where
  "demo_store = seed_accounts empty_store (map accountId indep_orders) (double_of_nat 100000)"

definition pair_store :: account_store where
  "pair_store = seed_accounts empty_store (map (\<lambda>i. 7 + of_nat i) [0..<1]) (double_of_nat 10000)"

theorem engine_main_on_mutex_pools_witness:
  "\<exists>s s'. mengine_run 1 2 demo_store (stamp indep_orders [3, 4]) s \<and> mjoined s \<and>
     mengine_run 1 2 pair_store (stamp [pair_order 7 1, pair_order 7 2] [3, 4]) s' \<and> mjoined s' \<and>
     engine_main (testCorrectnessVsSequential indep_orders [1, 2] [5, 6] (mshared s))
       (testNoDoubleSpend 1 7 (mshared s')) = 0"
proof -
  obtain s where s: "mengine_run 1 2 demo_store (stamp indep_orders [3, 4]) s" "mjoined s"
    using mengine_run_ends [OF zero_less_one] by blast
  obtain s' where s': "mengine_run 1 2 pair_store (stamp [pair_order 7 1, pair_order 7 2] [3, 4]) s'" "mjoined s'"
    using mengine_run_ends [OF zero_less_one] by blast
  from engine_main_on_mutex_pools [OF indep_demo_facts(1,2) s(1) [unfolded demo_store_def] _ _ _ pair_demo_facts(1) _
      s'(1) [unfolded pair_store_def], of "[1, 2]" "[5, 6]"] s s' indep_demo_facts(3)
  show ?thesis by auto
qed

section \<open>The benchmarks\<close>

definition bench_work :: "bench_engine \<Rightarrow> nat" where
  "bench_work e = sum_list (map (\<lambda>j. 3 - fst (stage j)) (bjobs e))"

interpretation bm: finite_jobs N "bench_at ph" bench_returned "\<lambda>e. length (bjobs e) = N" bench_mine bench_work for N ph
proof unfold_locales
  show "bench_work e' < bench_work e" if "bench_at ph w x e e'" for w x e e'
  proof -
    note u = weight_upd [of x "bjobs e" "\<lambda>j. 3 - fst (stage j)"]
    from that show ?thesis
    proof cases
      case (claims ord)
      with u [of "BSlotted w ord"] show ?thesis by (simp add: bench_work_def)
    next
      case (validates ord now st' r)
      with u [of "BValidated w r"] show ?thesis by (simp add: bench_work_def)
    next
      case (records r b)
      with u [of "BRecorded r"] show ?thesis by (simp add: bench_work_def)
    next
      case (breaks r)
      with u [of "BRecorded r"] show ?thesis by (simp add: bench_work_def)
    qed
  qed
qed

definition mbench_run :: "nat \<Rightarrow> nat \<Rightarrow> nat \<Rightarrow> account_store \<Rightarrow> order list \<Rightarrow> bench_engine mrun \<Rightarrow> bool" where
  "mbench_run cap numThreads m st orders s \<longleftrightarrow>
     (mrun_step (length orders) (bench_at (lambda_of m)) bench_returned)\<^sup>*\<^sup>*
       (mrun_start (new_mpool cap numThreads 1 1) (bench_engine_start numThreads st orders)) s"

lemma mbench_run_facts:
  assumes "mbench_run cap n m st orders s" and "0 < cap" and "0 < n"
  shows "mrun_inv (length orders) bench_returned (\<lambda>e. length (bjobs e) = length orders) bench_mine s"
    and "bench_inv n (lambda_of m) orders (mshared s)"
proof -
  let ?N = "length orders" and ?e = "bench_engine_start n st orders"
  let ?s = "mrun_start (new_mpool cap n 1 1) ?e"
  have "mrun_inv ?N bench_returned (\<lambda>e. length (bjobs e) = ?N) bench_mine ?s"
    by (rule bm.mrun_inv_start [OF assms(2)]) (simp_all add: bench_engine_start_def bench_mine_def)
  note R = bm.mjob_run [OF assms(1) [unfolded mbench_run_def] this]
  show "mrun_inv ?N bench_returned (\<lambda>e. length (bjobs e) = ?N) bench_mine s" using R by blast
  have "(\<lambda>e e'. \<exists>w x. w < n \<and> x < ?N \<and> bench_mine w x e \<and> bench_at (lambda_of m) w x e e')\<^sup>*\<^sup>* ?e (mshared s)"
    using R assms(3) by (simp add: mrun_start_def new_mpool_def)
  then show "bench_inv n (lambda_of m) orders (mshared s)"
    by (induction rule: rtranclp_induct) (auto intro: bench_start_inv bench_step)
qed

text \<open>
  C33. The benchmarks in the mutex build: under every interleaving no access to the latency buffers is
  out of range and no two workers share one; the destructor of the pool is sure to return, and when
  it has, each job has recorded one result of validating its order, and the statistics of each lambda
  are those of the results its jobs have recorded.
\<close>

theorem benchmarks_on_mutex_pool:
  assumes "mbench_run cap n m st orders s" and "0 < cap" and "0 < n"
  shows "\<not> broken (mshared s) \<and> (\<forall>k. slots_apart (slots (mshared s) k)) \<and>
    surely_joins (length orders) (bench_at (lambda_of m)) bench_returned s \<and>
    (mjoined s \<longrightarrow>
       (\<exists>rs. bjobs (mshared s) = map BRecorded rs \<and> length rs = length orders \<and> (\<forall>x < length orders. \<exists>st now. rs ! x = snd (validate st (orders ! x) now)) \<and>
          computeLatencyStats (concat (buffers (slots (mshared s) 0))) = computeLatencyStats (map latencyMicros (take m rs)) \<and>
          computeLatencyStats (concat (buffers (slots (mshared s) 1))) = computeLatencyStats (map latencyMicros (drop m rs))))"
proof -
  note F = mbench_run_facts [OF assms]
  have "\<not> broken (mshared s) \<and> (\<forall>k. slots_apart (slots (mshared s) k))"
    using F(2) unfolding bench_inv_def by blast
  with bm.mrun_ends(2) [OF F(1)] recorded_results [OF F(2) bm.mall_returned [OF F(1)]] show ?thesis by blast
qed

lemma mbench_run_ends:
  assumes "0 < cap" and "0 < n"
  shows "\<exists>s. mbench_run cap n m st orders s \<and> mjoined s"
proof -
  let ?s = "mrun_start (new_mpool cap n 1 1) (bench_engine_start n st orders)"
  have "mbench_run cap n m st orders ?s" by (simp add: mbench_run_def)
  from bm.mrun_ends(1) [OF mbench_run_facts(1) [OF this assms]] obtain t where
    "(mrun_own (length orders) (bench_at (lambda_of m)) bench_returned)\<^sup>*\<^sup>* ?s t" "mjoined t" by blast
  with bm.mrun_own_step show ?thesis unfolding mbench_run_def by blast
qed

theorem benchmarks_on_mutex_pool_witness:
  "\<exists>s :: bench_engine mrun. mjoined s \<and> \<not> broken (mshared s) \<and> (\<exists>rs :: validation_result list. length rs = 2 \<and>
     computeLatencyStats (concat (buffers (slots (mshared s) 0))) = computeLatencyStats (map latencyMicros (take 1 rs)))"
proof -
  obtain s where s: "mbench_run 1 2 1 empty_store [pair_order 7 1, pair_order 8 2] s" "mjoined s"
    using mbench_run_ends [OF zero_less_one zero_less_numeral] by blast
  have two: "length [pair_order 7 1, pair_order 8 2] = 2" by simp
  from benchmarks_on_mutex_pool [OF s(1) zero_less_one zero_less_numeral] s(2) show ?thesis unfolding two by blast
qed

end
