(* ===== verification/Session.thy ===== *)
theory Session
  imports EventLoop Engine
begin

text \<open>
  src/server\_main.cpp and src/test\_client.cpp: the store the server starts with, the session of
  the test client, and what it sees.  The server receives the pieces of a message, extracts it
  and runs its job (theory EventLoop); the client sends its next message after the answer.
\<close>

section \<open>The server\<close>

definition server_store :: account_store where
  "server_store = seed_accounts empty_store (map of_nat [1..<101]) (double_of_nat 100000)"

text \<open>The jobs of the messages, one after the other, with the clock at \<open>t\<close>.\<close>

fun run_jobs :: "account_store \<Rightarrow> u64 \<Rightarrow> int \<Rightarrow> string list \<Rightarrow> account_store \<times> u64 \<times> string list" where
  "run_jobs st oid t [] = (st, oid, [])"
| "run_jobs st oid t (m # ms) =
     (let (st1, oid1, a) = job st oid m t t; (st2, oid2, as) = run_jobs st1 oid1 t ms
      in (st2, oid2, a # as))"

text \<open>
  The connection is served for some calls of handleReadable: the store, the order counter and the
  receive buffer of the connection afterwards, and the answers.
\<close>

definition serve :: "account_store \<Rightarrow> u64 \<Rightarrow> string \<Rightarrow> int \<Rightarrow> string list list \<Rightarrow>
    (account_store \<times> u64 \<times> string \<times> string list) option" where
  "serve st oid recvBuffer t pss =
     map_option (\<lambda>(ms, b). let (st1, oid1, as) = run_jobs st oid t ms in (st1, oid1, b, as))
       (receive_all recvBuffer pss)"

section \<open>The test client\<close>

record test_case =
  tc_account :: u64
  tc_symbol :: string
  tc_side :: char
  tc_qty :: u32
  tc_price :: double

definition case_buy :: test_case where
  "case_buy = \<lparr>tc_account = 1, tc_symbol = ''BTC-USD'', tc_side = CHR ''1'', tc_qty = 1, tc_price = double_of_nat 6000\<rparr>"

definition case_large :: test_case where
  "case_large = \<lparr>tc_account = 2, tc_symbol = ''BTC-USD'', tc_side = CHR ''1'', tc_qty = 1000, tc_price = double_of_nat 6000\<rparr>"

definition case_doge :: test_case where
  "case_doge = \<lparr>tc_account = 3, tc_symbol = ''DOGE-XYZ'', tc_side = CHR ''1'', tc_qty = 1, tc_price = double_of_nat 100\<rparr>"

definition case_sell :: test_case where
  "case_sell = \<lparr>tc_account = 4, tc_symbol = ''ETH-USD'', tc_side = CHR ''2'', tc_qty = 5, tc_price = double_of_nat 3000\<rparr>"

definition test_cases :: "test_case list" where
  "test_cases = [case_buy, case_large, case_doge, case_sell]"

definition case_message :: "test_case \<Rightarrow> string \<Rightarrow> string" where
  "case_message tc clOrdId =
     buildNewOrderSingle (tc_account tc) (tc_symbol tc) (tc_side tc) (tc_qty tc) (tc_price tc) clOrdId"

text \<open>What the client prints of an answer: message type, status, reason.\<close>

definition client_read :: "string \<Rightarrow> string \<times> string \<times> string" where
  "client_read raw =
     (let flds = splitFields raw in
      (case flds 35 of None \<Rightarrow> ''?'' | Some v \<Rightarrow> v,
       case flds 39 of None \<Rightarrow> ''?'' | Some v \<Rightarrow> v,
       case flds 58 of None \<Rightarrow> [] | Some v \<Rightarrow> v))"

text \<open>
  The loop over the test cases from number \<open>i\<close> on: the store, the counter and the receive buffer of
  the server, and what is printed.
\<close>

fun client_loop :: "account_store \<Rightarrow> u64 \<Rightarrow> string \<Rightarrow> int \<Rightarrow> nat \<Rightarrow> test_case list \<Rightarrow>
    (account_store \<times> u64 \<times> string \<times> (string \<times> string \<times> string) list) option" where
  "client_loop st oid buf t i [] = Some (st, oid, buf, [])"
| "client_loop st oid buf t i (tc # tcs) =
     Option.bind (serve st oid buf t [[case_message tc (''clord-'' @ to_string i)]])
       (\<lambda>(st1, oid1, buf1, as).
          map_option (\<lambda>(st2, oid2, buf2, outs). (st2, oid2, buf2, map client_read as @ outs))
            (client_loop st1 oid1 buf1 t (Suc i) tcs))"

definition split_case :: test_case where
  "split_case = \<lparr>tc_account = 5, tc_symbol = ''SOL-USD'', tc_side = CHR ''1'', tc_qty = 2, tc_price = double_of_nat 150\<rparr>"

definition split_pieces :: "string list list" where
  "split_pieces =
     (let splitMsg = case_message split_case ''clord-split''; half = length splitMsg div 2
      in [[take half splitMsg], [drop half splitMsg]])"

text \<open>The connection is new, so its receive buffer is empty.\<close>

definition client_session :: "account_store \<Rightarrow> u64 \<Rightarrow> int \<Rightarrow> (string \<times> string \<times> string) list option" where
  "client_session st oid t =
     Option.bind (client_loop st oid [] t 0 test_cases)
       (\<lambda>(st1, oid1, buf1, outs).
          map_option (\<lambda>(st2, oid2, buf2, as). outs @ map client_read as) (serve st1 oid1 buf1 t split_pieces))"

section \<open>One order through the server\<close>

fun case_ok :: "nat \<Rightarrow> test_case \<Rightarrow> bool" where
  "case_ok n tc \<longleftrightarrow> SOH \<notin> set (tc_symbol tc) \<and> tc_side tc \<noteq> SOH \<and> n \<le> 2 ^ 53 \<and> tc_price tc = double_of_nat n"

definition case_order :: "test_case \<Rightarrow> u64 \<Rightarrow> int \<Rightarrow> order" where
  "case_order tc oid t = \<lparr>orderId = oid, accountId = tc_account tc, symbol = tc_symbol tc,
      side = (if tc_side tc = CHR ''1'' then BUY else SELL), qty = tc_qty tc, price = tc_price tc,
      enqueueTime = t\<rparr>"

lemma serve_case:
  assumes ok: "case_ok n tc" and c: "SOH \<notin> set clOrdId"
    and p: "concat (concat pss) = case_message tc clOrdId" and l: "length (case_message tc clOrdId) < 2 ^ 64"
    and v: "validate st (case_order tc oid t) t = (st', res)"
  shows "\<exists>a. serve st oid [] t pss = Some (st', oid + 1, [], [a]) \<and>
    client_read a = (''8'', if accepted res then ''0'' else ''8'', if accepted res then [] else reason res)"
proof -
  have v': "validate st \<lparr>orderId = oid, accountId = tc_account tc, symbol = tc_symbol tc,
      side = (if tc_side tc = CHR ''1'' then BUY else SELL), qty = tc_qty tc, price = double_of_nat n,
      enqueueTime = t\<rparr> t = (st', res)"
    using v ok by (simp add: case_order_def)
  obtain a where a: "job st oid (case_message tc clOrdId) t t = (st', oid + 1, a)"
      "splitFields a 35 = Some ''8''" "splitFields a 39 = Some (if accepted res then ''0'' else ''8'')"
      "splitFields a 58 = (if accepted res then None else Some (reason res))"
    using job_nos [OF _ _ c _ refl v'] ok by (auto simp: case_message_def)
  obtain body where b: "case_message tc clOrdId = buildMessage body"
    by (simp add: case_message_def buildNewOrderSingle_fields)
  have "receive_all [] pss = Some (map buildMessage [body], [])"
    by (rule receive_all_stream [OF _ _ drained_Nil]) (use p l b in simp_all)
  with a b show ?thesis by (simp add: serve_def client_read_def)
qed


text \<open>The outcome of an order: the two fields the client sees besides the message type.\<close>

definition outcome :: "account_store \<Rightarrow> order \<Rightarrow> string \<times> string" where
  "outcome st ord = (case decide st ord of (st', acc, why) \<Rightarrow> if acc then (''0'', []) else (''8'', why))"

lemma serve_outcome:
  assumes "case_ok n tc" and "SOH \<notin> set clOrdId"
    and "concat (concat pss) = case_message tc clOrdId" and "length (case_message tc clOrdId) < 2 ^ 64"
  shows "\<exists>a. serve st oid [] t pss = Some (fst (validate st (case_order tc oid t) t), oid + 1, [], [a]) \<and>
    client_read a = (''8'', outcome st (case_order tc oid t))"
proof -
  have "outcome st ord = (if accepted (snd (validate st ord t)) then ''0'' else ''8'',
      if accepted (snd (validate st ord t)) then [] else reason (snd (validate st ord t)))" for ord
    by (auto simp: outcome_def validate_def split: prod.split)
  with serve_case [OF assms, of st oid t "fst (validate st (case_order tc oid t) t)"
      "snd (validate st (case_order tc oid t) t)"]
  show ?thesis by simp
qed

lemmas case_defs = case_buy_def case_large_def case_doge_def case_sell_def split_case_def

lemma case_oks: "case_ok 6000 case_buy" "case_ok 6000 case_large" "case_ok 100 case_doge"
  "case_ok 3000 case_sell" "case_ok 150 split_case"
  by (simp_all add: case_defs)

lemma case_message_text:
  assumes "case_ok n tc"
  shows "case_message tc c = buildMessage (enc_fields
    (nos_fields (tc_account tc) (tc_symbol tc) (tc_side tc) (tc_qty tc) (to_string n @ ''.000000'') c))"
  using assms by (simp add: case_message_def buildNewOrderSingle_fields to_string_double_whole)

lemma case_short:
  assumes ok: "case_ok n tc" and "length (tc_symbol tc) \<le> 100" and "length c \<le> 100"
  shows "length (case_message tc c) < 2 ^ 64"
proof -
  let ?fs = "nos_fields (tc_account tc) (tc_symbol tc) (tc_side tc) (tc_qty tc) (to_string n @ ''.000000'') c"
  have "n \<le> 2 ^ 53" using ok by simp
  then have n: "length (to_string n) \<le> 16" by (intro length_to_string_le) simp_all
  have "unat (tc_account tc) < 2 ^ 64" "unat (tc_qty tc) < 2 ^ 32"
    using unsigned_less [of "tc_account tc"] unsigned_less [of "tc_qty tc"] by simp_all
  then have w: "length (to_string (unat (tc_account tc))) \<le> 20" "length (to_string (unat (tc_qty tc))) \<le> 10"
    by (simp_all add: length_to_string_le)
  have t: "length (to_string k) \<le> 2" if "k < 100" for k using that by (intro length_to_string_le) simp_all
  have body: "length (enc_fields ?fs) \<le> 1000"
    using assms(2,3) n w t [of 35] t [of 55] t [of 54] t [of 38] t [of 44] t [of 1] t [of 11]
    by (simp add: nos_fields_def enc_fields_def enc_field_def)
  then have "length (to_string (length (enc_fields ?fs))) \<le> 4" by (intro length_to_string_le) simp_all
  with body show ?thesis
    unfolding case_message_text [OF ok] length_buildMessage by (simp add: frame_head_def)
qed

lemma case_messages_short:
  "length (case_message case_buy ''clord-0'') < 2 ^ 64"
  "length (case_message case_large ''clord-1'') < 2 ^ 64"
  "length (case_message case_doge ''clord-2'') < 2 ^ 64"
  "length (case_message case_sell ''clord-3'') < 2 ^ 64"
  "length (case_message split_case ''clord-split'') < 2 ^ 64"
  by (rule case_oks [THEN case_short]; simp add: case_defs)+

lemma server_balance:
  "balances server_store 1 = Some (double_of_nat 100000)" "balances server_store 2 = Some (double_of_nat 100000)"
  "balances server_store 5 = Some (double_of_nat 100000)"
proof -
  have b: "balances server_store (of_nat k) = Some (double_of_nat 100000)" if "1 \<le> k" "k < 101" for k
    using that by (simp add: server_store_def seed_balances)
  show "balances server_store 1 = Some (double_of_nat 100000)" "balances server_store 2 = Some (double_of_nat 100000)"
    "balances server_store 5 = Some (double_of_nat 100000)"
    using b [of 1] b [of 2] b [of 5] by simp_all
qed

lemma case_outcomes:
  "balances st 1 = Some (double_of_nat 100000) \<Longrightarrow> outcome st (case_order case_buy oid t) = (''0'', [])"
  "balances st 2 = Some (double_of_nat 100000) \<Longrightarrow>
     outcome st (case_order case_large oid t) = (''8'', ''insufficient_balance'')"
  "outcome st (case_order case_doge oid t) = (''8'', ''unknown_symbol'')"
  "outcome st (case_order case_sell oid t) = (''0'', [])"
  "balances st 5 = Some (double_of_nat 100000) \<Longrightarrow> outcome st (case_order split_case oid t) = (''0'', [])"
  by (simp_all add: outcome_def decide_def case_order_def case_defs allowedSymbols_def tryDebit_def
      order_cost_def dbl_simps)

text \<open>
  C30. The session of the test client against the seeded server: the valid BUY is accepted, the
  large BUY rejected for its balance, the unknown symbol rejected, the SELL accepted, and the
  message sent in two halves is put together and accepted, whatever the order counter and the
  clock are.
\<close>

theorem client_session_outcome:
  "client_session server_store oid t =
     Some [(''8'', ''0'', []), (''8'', ''8'', ''insufficient_balance''), (''8'', ''8'', ''unknown_symbol''),
           (''8'', ''0'', []), (''8'', ''0'', [])]"
proof -
  have ids: "SOH \<notin> set ''clord-0''" "SOH \<notin> set ''clord-1''" "SOH \<notin> set ''clord-2''" "SOH \<notin> set ''clord-3''"
    "SOH \<notin> set ''clord-split''" by code_simp+
  have names: "''clord-'' @ to_string 0 = ''clord-0''" "''clord-'' @ to_string (Suc 0) = ''clord-1''"
    "''clord-'' @ to_string (Suc (Suc 0)) = ''clord-2''" "''clord-'' @ to_string (Suc (Suc (Suc 0))) = ''clord-3''"
    by code_simp+
  define o1 o2 o3 o4 o5 where o: "o1 = oid + 1" "o2 = o1 + 1" "o3 = o2 + 1" "o4 = o3 + 1" "o5 = o4 + 1"
  define st1 where "st1 = fst (validate server_store (case_order case_buy oid t) t)"
  define st2 where "st2 = fst (validate st1 (case_order case_large o1 t) t)"
  define st3 where "st3 = fst (validate st2 (case_order case_doge o2 t) t)"
  define st4 where "st4 = fst (validate st3 (case_order case_sell o3 t) t)"
  have b: "balances st1 2 = Some (double_of_nat 100000)" "balances st4 5 = Some (double_of_nat 100000)"
    by (simp_all add: st1_def st2_def st3_def st4_def validate_frame case_order_def case_defs server_balance)
  have whole: "concat (concat [[m]]) = m" for m :: string by simp
  have halves: "concat (concat split_pieces) = case_message split_case ''clord-split''"
    by (simp add: split_pieces_def Let_def)
  obtain a1 where a1: "serve server_store oid [] t [[case_message case_buy ''clord-0'']] = Some (st1, o1, [], [a1])"
      "client_read a1 = (''8'', ''0'', [])"
    using serve_outcome [OF case_oks(1) ids(1) whole case_messages_short(1)] case_outcomes(1) [OF server_balance(1)]
    unfolding st1_def o by metis
  obtain a2 where a2: "serve st1 o1 [] t [[case_message case_large ''clord-1'']] = Some (st2, o2, [], [a2])"
      "client_read a2 = (''8'', ''8'', ''insufficient_balance'')"
    using serve_outcome [OF case_oks(2) ids(2) whole case_messages_short(2)] case_outcomes(2) [OF b(1)]
    unfolding st2_def o by metis
  obtain a3 where a3: "serve st2 o2 [] t [[case_message case_doge ''clord-2'']]
      = Some (st3, o3, [], [a3])" "client_read a3 = (''8'', ''8'', ''unknown_symbol'')"
    using serve_outcome [OF case_oks(3) ids(3) whole case_messages_short(3)] case_outcomes(3)
    unfolding st3_def o by metis
  obtain a4 where a4: "serve st3 o3 [] t [[case_message case_sell ''clord-3'']]
      = Some (st4, o4, [], [a4])" "client_read a4 = (''8'', ''0'', [])"
    using serve_outcome [OF case_oks(4) ids(4) whole case_messages_short(4)] case_outcomes(4)
    unfolding st4_def o by metis
  obtain st5 a5 where a5: "serve st4 o4 [] t split_pieces = Some (st5, o5, [], [a5])"
      "client_read a5 = (''8'', ''0'', [])"
    using serve_outcome [OF case_oks(5) ids(5) halves case_messages_short(5)] case_outcomes(5) [OF b(2)]
    unfolding o by metis
  have loop: "client_loop server_store oid [] t 0 test_cases =
      Some (st4, o4, [], [(''8'', ''0'', []), (''8'', ''8'', ''insufficient_balance''),
        (''8'', ''8'', ''unknown_symbol''), (''8'', ''0'', [])])"
    unfolding test_cases_def client_loop.simps names by (simp add: a1 a2 a3 a4)
  show ?thesis unfolding client_session_def loop by (simp add: a5)
qed

end
