(* ===== verification/ServerMain.thy ===== *)
theory ServerMain
  imports PooledRun Session
begin

text \<open>
  src/server\_main.cpp: the port, and the lifetimes of the locals of main.  They are declared in the
  order store, validator, pool, loop, hence destroyed in the order loop, pool, validator, store;
  the destructor of the pool waits for the jobs that are left, and these jobs still use the loop,
  whose member \<open>validator_\<close> they read, and through it the validator and the store.
\<close>

section \<open>The port\<close>

text \<open>atoi: 0 when there is no number; None: undefined behaviour when the number is not an int.\<close>

definition atoi :: "string \<Rightarrow> int option" where
  "atoi s =
     (case scan_int s of
        Inl e \<Rightarrow> Some 0
      | Inr (neg, n) \<Rightarrow>
          let v = (if neg then - int n else int n)
          in if v < - (2 ^ 31) \<or> 2 ^ 31 \<le> v then None else Some v)"

text \<open>\<open>args\<close> are the arguments after the program name.\<close>

definition server_port :: "string list \<Rightarrow> int option" where
  "server_port args = (case args of [] \<Rightarrow> Some 9000 | a # as \<Rightarrow> atoi a)"

text \<open>setupListenSocket hands the int to htons, which takes 16 bits.\<close>

definition bound_port :: "int \<Rightarrow> 16 word" where
  "bound_port port = word_of_int port"

lemma atoi_to_string: "n < 2 ^ 31 \<Longrightarrow> atoi (to_string n) = Some (int n)"
  by (simp add: atoi_def scan_int_to_string)

text \<open>A number of 65536 or more is announced as it is, and another port is bound.\<close>

lemma port_truncated: "server_port [to_string 70000] = Some 70000" "uint (bound_port 70000) = 4464"
  by (simp_all add: server_port_def atoi_to_string bound_port_def)

lemma port_exact: "0 \<le> p \<Longrightarrow> p < 65536 \<Longrightarrow> uint (bound_port p) = p"
  by (simp add: bound_port_def uint_word_of_int)

section \<open>Lifetimes\<close>

datatype main_pc = InRun | InPoolDtor | AfterPool | AfterValidator | Returned

text \<open>A job before it reads \<open>this->validator_\<close>, before it uses the validator and the store, and at its end.\<close>

datatype ljob = LWait | LRead | LEnded

record lifetimes =
  mainpc :: main_pc
  loopLive :: bool
  validatorLive :: bool
  storeLive :: bool
  ljobs :: "ljob list"
  danglingLoop :: bool       \<comment> \<open>a job has read a member of a destroyed loop\<close>
  danglingStore :: bool      \<comment> \<open>a job has used a destroyed validator or store\<close>

inductive ljob_at :: "nat \<Rightarrow> lifetimes \<Rightarrow> lifetimes \<Rightarrow> bool" for x where
  reads: "x < length (ljobs e) \<Longrightarrow> ljobs e ! x = LWait \<Longrightarrow>
     ljob_at x e (e\<lparr>ljobs := (ljobs e)[x := LRead], danglingLoop := danglingLoop e \<or> \<not> loopLive e\<rparr>)"
| uses: "x < length (ljobs e) \<Longrightarrow> ljobs e ! x = LRead \<Longrightarrow>
     ljob_at x e (e\<lparr>ljobs := (ljobs e)[x := LEnded],
       danglingStore := danglingStore e \<or> \<not> validatorLive e \<or> \<not> storeLive e\<rparr>)"

definition lreturned :: "nat \<Rightarrow> lifetimes \<Rightarrow> bool" where
  "lreturned x e \<longleftrightarrow> x < length (ljobs e) \<and> ljobs e ! x = LEnded"

definition main_start :: "nat \<Rightarrow> lifetimes" where
  "main_start n = \<lparr>mainpc = InRun, loopLive = True, validatorLive = True, storeLive = True,
     ljobs = replicate n LWait, danglingLoop = False, danglingStore = False\<rparr>"

text \<open>
  The server submits \<open>N\<close> jobs while it runs; after run has returned, the destructors follow.
\<close>

abbreviation main_sets :: "(lifetimes \<Rightarrow> lifetimes) \<Rightarrow> lifetimes pooled \<Rightarrow> lifetimes pooled" where
  "main_sets f s \<equiv> s\<lparr>shared := f (shared s)\<rparr>"

inductive server_main_step :: "nat \<Rightarrow> lifetimes pooled \<Rightarrow> lifetimes pooled \<Rightarrow> bool" for N where
  pool_step: "pooled_step N (\<lambda>_. ljob_at) lreturned s t \<Longrightarrow>
     (submitted s < submitted t \<longrightarrow> mainpc (shared s) = InRun) \<Longrightarrow>
     (closers (tpool s) ! 0 = SIdle \<and> closers (tpool t) ! 0 \<noteq> SIdle \<longrightarrow> mainpc (shared s) = InPoolDtor) \<Longrightarrow>
     server_main_step N s t"
| loop_destroyed: "mainpc (shared s) = InRun \<Longrightarrow> submitted s = N \<Longrightarrow> pushers (tpool s) ! 0 = PIdle \<Longrightarrow>
     server_main_step N s (main_sets (\<lambda>e. e\<lparr>mainpc := InPoolDtor, loopLive := False\<rparr>) s)"
| pool_destroyed: "mainpc (shared s) = InPoolDtor \<Longrightarrow> joined s \<Longrightarrow>
     server_main_step N s (main_sets (\<lambda>e. e\<lparr>mainpc := AfterPool\<rparr>) s)"
| validator_destroyed: "mainpc (shared s) = AfterPool \<Longrightarrow>
     server_main_step N s (main_sets (\<lambda>e. e\<lparr>mainpc := AfterValidator, validatorLive := False\<rparr>) s)"
| store_destroyed: "mainpc (shared s) = AfterValidator \<Longrightarrow>
     server_main_step N s (main_sets (\<lambda>e. e\<lparr>mainpc := Returned, storeLive := False\<rparr>) s)"

interpretation lj: pool_jobs N "\<lambda>_. ljob_at" lreturned "\<lambda>e. length (ljobs e) = N" "\<lambda>_ _ _. True" for N
proof
  show "length (ljobs e') = N" if "ljob_at y e e'" "length (ljobs e) = N" for y e e'
    using that by cases auto
  show "lreturned x e'" if "ljob_at y e e'" "lreturned x e" for x y e e'
    using that by cases (cases "y = x"; simp add: lreturned_def)+
  show "\<exists>e'. ljob_at x e e'" if "x < N" "length (ljobs e) = N" "\<not> lreturned x e" for x e
    using that ljob_at.reads [of x e] ljob_at.uses [of x e] by (cases "ljobs e ! x") (auto simp: lreturned_def)
qed simp_all

section \<open>The store and the validator outlive the jobs\<close>

definition lives_ok :: "lifetimes pooled \<Rightarrow> bool" where
  "lives_ok s \<longleftrightarrow> \<not> danglingStore (shared s) \<and>
     (mainpc (shared s) \<in> {InRun, InPoolDtor} \<longrightarrow> validatorLive (shared s) \<and> storeLive (shared s)) \<and>
     (mainpc (shared s) \<in> {AfterPool, AfterValidator, Returned} \<longrightarrow> joined s)"

definition server_main_inv :: "nat \<Rightarrow> lifetimes pooled \<Rightarrow> bool" where
  "server_main_inv N s \<longleftrightarrow> pooled_inv N lreturned (\<lambda>e. length (ljobs e) = N) (\<lambda>_ _ _. True) s \<and> lives_ok s"

lemma pooled_inv_shared:
  assumes "pooled_inv N jdone good mine s" and "good e" and "\<And>x. jdone x e = jdone x (shared s)" and "\<And>w x. mine w x e"
  shows "pooled_inv N jdone good mine (s\<lparr>shared := e\<rparr>)"
  using assms by (simp add: pooled_inv_def main_ok_def jobs_ok_def own_ok_def joined_def)

lemma joined_stays:
  assumes m: "main_ok N s" and j: "joined s" and st: "pooled_step N jstep jdone s t"
  shows "joined t" and "shared t = shared s"
proof -
  have ex: "set (workers (tpool s)) = {WExit}" using m j unfolding main_ok_def by blast
  have "joined t \<and> shared t = shared s"
    using st
  proof cases
    case (destroys p)
    then have "closer_step 0 (tpool s) = None" using j by (simp add: closer_step_def joined_def)
    with destroys show ?thesis by simp
  next
    case (worker i p)
    then show ?thesis using exited_step(1) [OF ex] by simp
  next
    case (job i x e)
    then show ?thesis using exited_step(2) [OF ex] by simp
  next
    case (pusher full p)
    then show ?thesis using pusher_frame(2) [OF pusher(2)] j by (simp add: joined_def)
  qed (use j in \<open>simp_all add: joined_def submit_def\<close>)
  then show "joined t" "shared t = shared s" by blast+
qed

lemma server_main_inv_step:
  assumes inv: "server_main_inv N s" and st: "server_main_step N s t"
  shows "server_main_inv N t"
proof -
  have p: "pooled_inv N lreturned (\<lambda>e. length (ljobs e) = N) (\<lambda>_ _ _. True) s" and l: "lives_ok s"
    using inv by (simp_all add: server_main_inv_def)
  have g: "length (ljobs (shared s)) = N" and m: "main_ok N s" using p by (simp_all add: pooled_inv_def)
  from st show ?thesis
  proof cases
    case pool_step
    have p': "pooled_inv N lreturned (\<lambda>e. length (ljobs e) = N) (\<lambda>_ _ _. True) t" by (rule lj.pooled_inv_step [OF p pool_step(1)])
    have "lives_ok t"
    proof (cases "joined s")
      case True
      with joined_stays [OF m True pool_step(1)] l show ?thesis by (simp add: lives_ok_def)
    next
      case False
      then have live: "mainpc (shared s) \<in> {InRun, InPoolDtor}" "validatorLive (shared s)" "storeLive (shared s)"
        using l by (cases "mainpc (shared s)"; simp add: lives_ok_def)+
      have "shared t = shared s \<or> (\<exists>x. ljob_at x (shared s) (shared t))"
        using pool_step(1) by cases auto
      with live l show ?thesis by (auto simp: lives_ok_def elim!: ljob_at.cases)
    qed
    with p' show ?thesis by (simp add: server_main_inv_def)
  qed (use l pooled_inv_shared [OF p] g in \<open>auto simp: server_main_inv_def lives_ok_def joined_def lreturned_def\<close>)
qed

text \<open>
  C21. The jobs never use a destroyed validator or store: in every run of the server's main, from the
  first job to the last destructor, the pool is destroyed before them and its destructor returns only
  when no job runs any more.  The program has the queueCapacity 65536; a ring of one cell is left out
  (C39).
\<close>

theorem store_outlives_jobs:
  assumes "new_pool cap hw n 1 1 = Some p" and "(server_main_step N)\<^sup>*\<^sup>* (pooled_start p (main_start N)) s"
    and "2 \<le> cap"
  shows "\<not> danglingStore (shared s) \<and> (mainpc (shared s) = Returned \<longrightarrow> (\<forall>x < N. lreturned x (shared s)))"
proof -
  have "pooled_inv N lreturned (\<lambda>e. length (ljobs e) = N) (\<lambda>_ _ _. True) (pooled_start p (main_start N))"
    by (rule lj.pooled_inv_start [OF assms(1)]) (simp_all add: main_start_def)
  then have "server_main_inv N (pooled_start p (main_start N))"
    by (simp add: server_main_inv_def lives_ok_def pooled_start_def main_start_def)
  with assms(2) have inv: "server_main_inv N s"
    by (induction rule: rtranclp_induct) (auto intro: server_main_inv_step)
  then have "joined s" if "mainpc (shared s) = Returned" using that by (simp add: server_main_inv_def lives_ok_def)
  with inv lj.all_returned [of N s] show ?thesis by (auto simp: server_main_inv_def lives_ok_def)
qed

section \<open>The loop does not\<close>

definition ljob_exec :: "nat \<Rightarrow> nat \<Rightarrow> lifetimes \<Rightarrow> lifetimes option" where
  "ljob_exec w x e =
     (if x < length (ljobs e) then
        case ljobs e ! x of
          LWait \<Rightarrow> Some (e\<lparr>ljobs := (ljobs e)[x := LRead], danglingLoop := danglingLoop e \<or> \<not> loopLive e\<rparr>)
        | LRead \<Rightarrow> Some (e\<lparr>ljobs := (ljobs e)[x := LEnded],
            danglingStore := danglingStore e \<or> \<not> validatorLive e \<or> \<not> storeLive e\<rparr>)
        | LEnded \<Rightarrow> None
      else None)"

lemma ljob_exec_at: "ljob_exec w x e = Some e' \<Longrightarrow> ljob_at x e e'"
  using ljob_at.reads [of x e] ljob_at.uses [of x e] by (auto simp: ljob_exec_def split: if_splits ljob.splits)

datatype server_main_cmd = InPool pooled_cmd | LoopDtor | PoolDtor | ValidatorDtor | StoreDtor

fun server_main_exec :: "nat \<Rightarrow> server_main_cmd \<Rightarrow> lifetimes pooled \<Rightarrow> lifetimes pooled" where
  "server_main_exec N (InPool c) s =
     (let t = pooled_exec N ljob_exec lreturned c s
      in if (submitted s < submitted t \<longrightarrow> mainpc (shared s) = InRun) \<and>
            (closers (tpool s) ! 0 = SIdle \<and> closers (tpool t) ! 0 \<noteq> SIdle \<longrightarrow> mainpc (shared s) = InPoolDtor)
         then t else s)"
| "server_main_exec N LoopDtor s =
     (if mainpc (shared s) = InRun \<and> submitted s = N \<and> pushers (tpool s) ! 0 = PIdle
      then main_sets (\<lambda>e. e\<lparr>mainpc := InPoolDtor, loopLive := False\<rparr>) s else s)"
| "server_main_exec N PoolDtor s =
     (if mainpc (shared s) = InPoolDtor \<and> joined s then main_sets (\<lambda>e. e\<lparr>mainpc := AfterPool\<rparr>) s else s)"
| "server_main_exec N ValidatorDtor s =
     (if mainpc (shared s) = AfterPool then main_sets (\<lambda>e. e\<lparr>mainpc := AfterValidator, validatorLive := False\<rparr>) s else s)"
| "server_main_exec N StoreDtor s =
     (if mainpc (shared s) = AfterValidator then main_sets (\<lambda>e. e\<lparr>mainpc := Returned, storeLive := False\<rparr>) s else s)"

lemma server_main_exec_step: "(server_main_step N)\<^sup>*\<^sup>* s (server_main_exec N c s)"
proof (cases c)
  case (InPool c')
  have "pooled_exec N ljob_exec lreturned c' s = s \<or>
      pooled_step N (\<lambda>_. ljob_at) lreturned s (pooled_exec N ljob_exec lreturned c' s)"
    by (rule pooled_exec_step) (rule ljob_exec_at)
  then show ?thesis using InPool by (auto simp: Let_def intro: server_main_step.pool_step)
qed (auto intro: server_main_step.intros)

lemma server_main_run_steps: "(server_main_step N)\<^sup>*\<^sup>* s (fold (server_main_exec N) cs s)"
proof (induction cs arbitrary: s)
  case (Cons c cs)
  from rtranclp_trans [OF server_main_exec_step Cons.IH] show ?case by simp
qed simp

text \<open>
  The two jobs of the run of theory PooledRun; the loop is destroyed after the jobs were submitted.
\<close>

definition late_jobs :: "lifetimes pooled" where
  "late_jobs = fold (server_main_exec 2)
     (map InPool (take 15 two_jobs_cmds) @ [LoopDtor] @ map InPool (drop 15 two_jobs_cmds) @ [PoolDtor, ValidatorDtor, StoreDtor])
     (pooled_start two_workers (main_start 2))"

lemma late_jobs_facts:
  "shared late_jobs = \<lparr>mainpc = Returned, loopLive = False, validatorLive = False, storeLive = False,
     ljobs = [LEnded, LEnded], danglingLoop = True, danglingStore = False\<rparr>"
  by code_simp

lemma late_jobs_reached: "(server_main_step 2)\<^sup>*\<^sup>* (pooled_start two_workers (main_start 2)) late_jobs"
  unfolding late_jobs_def by (rule server_main_run_steps)

theorem store_outlives_jobs_witness:
  "mainpc (shared late_jobs) = Returned \<and> \<not> danglingStore (shared late_jobs) \<and> lreturned 0 (shared late_jobs)"
  using store_outlives_jobs [OF two_workers_start late_jobs_reached] by (simp add: late_jobs_facts)

text \<open>
  C36. But they may use the destroyed loop: there is a run of main in which a job that was still in
  the queue when the event loop had ended reads the member \<open>validator_\<close> of the loop after the destructor
  of the loop has returned.
\<close>

theorem job_uses_destroyed_loop:
  "\<exists>s. (server_main_step 2)\<^sup>*\<^sup>* (pooled_start two_workers (main_start 2)) s \<and> danglingLoop (shared s)"
  by (rule exI [of _ late_jobs]) (simp add: late_jobs_reached late_jobs_facts)

end
