(* ===== verification/Spec2Isabelle.thy ===== *)
theory Spec2Isabelle
  imports TaskQueue Positions InlineJob Net EngineMutex ServerMain
begin

text \<open>
  \<^bold>\<open>A concurrent order risk validator\<close>

  The program validates orders against account balances on a pool of worker threads.  Two
  executables share its headers: the engine (src/src/main.cpp) generates orders, runs them through
  the pool and checks the results against a sequential run; the server (src/src/server\_main.cpp)
  receives orders as FIX messages over TCP, and src/src/test\_client.cpp talks to it.

  \<^bold>\<open>How the parts interact.\<close>  An order (Order.hpp) is made by OrderGenerator.hpp or parsed by
  FixParser.hpp from the bytes EventLoop.hpp has received.  A job is a callable in an InlineJob
  (InlineJob.hpp), submitted to ThreadPool.hpp; it travels through LockFreeTaskQueue.hpp, which is
  LockFreeRing.hpp with a wake-up handshake, or through the mutex-based TaskQueue.hpp.  A worker
  runs RiskValidator.hpp on the order, which debits AccountStore.hpp by a compare-and-swap loop.
  The result goes to ResultsCollector.hpp or back to the client; Stats.hpp sums up latencies.

  \<^bold>\<open>Theories.\<close>
  \<^item> Prelude: names of the machine integers, lemmas on lists, words and bit lengths, and the
    locales \<open>invariant_system\<close> (a start predicate, a step relation, an invariant), which the
    concurrent components below interpret and whose facts carry the properties of all reachable
    states, and \<open>measured_system\<close> (every step uses up some work), whose facts bound the runs.
  \<^item> Binary64: IEEE doubles with exact rounding (NaN, infinities, signed zero), as far as prices,
    balances and latencies need them.  CppString: the C++ conversions stoul, stoull, stod, stoi and
    to\_string on strings, with the exceptions as values.
  \<^item> Order, AccountStore, RiskValidator: the records; the store as a map of balances with the
    atomic operations and, beside them, the CAS loops of tryDebit and credit access by access
    (\<open>store_step\<close>), with a linearizability theorem that connects the two; validate with the
    decision table and its effect.
  \<^item> FixParser: tryExtractMessage, splitFields, verifyChecksum, parseOrder (with the shared order
    counter) and buildMessage on strings, lengths as 64-bit words where the code has size\_t.
  \<^item> EventLoop: the data path of a connection, from received pieces to messages, jobs and answers.
    Connection: the flags and counters of a Connection object, tryFinalize, the dispatching loop,
    the jobs with the lock, the alive check and each call of send in safeSend, whose result is an
    argument of the step, and stop, as an interleaving step relation (\<open>conn_step\<close>).
    Server: any number of connections over an explicit table of file descriptors that are reused
    and may be non-blocking (\<open>server_step\<close>): run, setupListenSocket, registerFd, setNonBlocking,
    acceptNewConnections, the routing of handleReadable, stop and the SIGINT handler, and
    closeConnection, which nothing calls.  Net: the server with its data, receive buffers, order
    counter and store, the bytes on the sockets, any number of clients and all jobs interleaved
    (\<open>net_step\<close>).  ServerMain:
    the port argument, and the lifetimes of the locals of the server's main against the jobs that
    still run (\<open>server_main_step\<close>).
  \<^item> TaskQueue: the monitor with its wait predicates; its locale states what a bounded queue that
    can be shut down promises.  LockFreeRing: try\_push and try\_pop access by access, any number
    of threads, 64-bit positions and sequence numbers.  LockFreeTaskQueue: push, pop and shutdown
    access by access, with the counters, the mutex and the condition variable (\<open>pool_step\<close>).
    ThreadPool: the invariants of those steps and what they give for the pool.  Positions: the
    interface between the two as a locale, positions that are claimed, published and handed out in
    order, interpreted for the accesses of the ring and for the steps of the pool.  InlineJob: jobs in
    an explicit memory, undefined behaviour as None.  MutexPool: the pool of the build with
    HFT\_MUTEX\_QUEUE, over the monitor of TaskQueue, with the waits and the notifications of the two
    condition variables as steps (\<open>mpool_own\<close> for what the threads do by themselves,
    \<open>mpool_step\<close> with new calls and spurious wake-ups).
  \<^item> OrderGenerator, Engine, Bench, Stats: the generators with their random draws as arguments, the
    two tests of the engine over every schedule of the jobs, the latency buffers and statistics of
    the benchmarks, the order statistics.
  \<^item> PooledRun: a main thread that makes a pool, submits jobs and destroys it, with the jobs run step
    by step by the workers of theory ThreadPool; what the jobs do is the contract of the locale
    \<open>pool_jobs\<close>.  EnginePool and BenchPool interpret it with the jobs of the two tests and of the
    benchmarks.  MutexRun: the same on the pool of theory MutexPool, for jobs that make finitely many
    steps (the locale \<open>finite_jobs\<close>, an extension of \<open>pool_jobs\<close> and by sublocale a
    \<open>measured_system\<close>); EngineMutex interprets that with the same jobs, for the target
    hft\_engine\_mutex.
  \<^item> Session: the test client's session with the seeded server.

  \<^bold>\<open>What is shown.\<close>  For the store: linearizability, no negative balance, no overspending, the
  result of an undisturbed loop.  For the ring: no item lost, duplicated or invented, capacity
  kept, results when running alone, refinement of the
  interface its queue relies on.  For the pool: no lost wake-up, nothing stuck while work is
  left, shutdown drops nothing, futures resolve; for its mutex build moreover that it always comes to
  rest, within a number of steps given by the state.  For jobs: type safety and exactly-once
  destruction.  For connections and the server: one close per descriptor, routing over reused
  numbers, bytes that reach their own client when the end of the stream does not race.  For
  messages: round trips, reassembly of any segmentation, detection of every single-byte change.
  For the validator: the decision table, its effect, and the end-to-end answer to a message with
  any price, which the message carries with six decimals.  For
  the server as a whole: every interleaving answers and debits as if it validated one order after
  the other, each client gets its answers, complete and one after the other, unless one of its
  calls of send fails (then a prefix of that answer), and no job outlives the store.  For
  the engine: both tests pass and main returns 0 on either pool under every schedule, and no run
  gets stuck (on the mutex pool, every run without endless spurious wake-ups ends); the benchmarks never access a latency buffer out of
  range.  Theorems of kind error
  show where the code does not do what it means to: an order priced NaN, a negative BodyLength, a
  truncated quantity, a ring of one cell, the early close of a connection, which drops an
  answer or sends it to another client, and a job that uses the destroyed event loop.

  \<^bold>\<open>Bounds, fuel and assumptions.\<close>  Memory is sequentially consistent: each access to a shared
  word is one step, and what weaker orderings would allow is not modelled.  Word positions of the ring are exact for fewer than 2^62 pushes, string
  lengths and order counts are below 2^64, whole numbers in doubles at most 2^53; these bounds are
  hypotheses where they matter and far above what a run reaches.  That debits add up exactly is
  claimed for amounts on one binary grid only; off it the subtraction rounds.  Loops are structural or total
  recursions; the two loops that may run for ever (the extraction loop of handleReadable and the
  capacity loop of the ring) are partial functions into option, and theorems that they return
  say so.  \<open>solo\<close> runs a thread alone for a given number of accesses; four are enough.
  Spurious failures of weak compare-and-swap and spurious wake-ups are steps.  LockFreeTaskQueue
  uses the ring through the interface of theory Positions, and lets try\_push fail at any time,
  as it does while a consumer has not yet freed the cell.  That interface is what a ring of at least
  two cells keeps, so the properties of this pool assume a queueCapacity of at least 2; what a ring
  of one cell, from a queueCapacity of 0 or 1, does instead is C39.  The capacity of the mutex queue
  is any positive number (the programs have 65536 for both).  In the mutex pool a stretch
  of code under the mutex is one step.  stop is called while the event loop waits for events; a SIGINT that interrupts
  handleReadable, where stop may close a descriptor that a job closes too, is not covered.  In the
  engine and the server validate is one step: by C1 every interleaving of its compare-and-swap loops
  has the results and the store of some order of such steps, but that theorem is not composed with
  the step relations formally.  The server has no step for a read after which the extraction loop does
  not end (C38), so its properties are about the runs before.  The kernel gives
  accept a non-negative number that is not in use; nothing is assumed of the results of send.

  \<^bold>\<open>Not modelled.\<close>  Console output and the wall-clock measurements it prints (clock readings are
  arguments where results carry them); sleeping and CPU pauses; socket options and the contents of sockaddr; the socket calls of the test client; the
  random generator itself, whose draws are arguments; the counter of completed jobs in the mutex
  build, which is modelled for the lock-free one.
\<close>

end
